(* ===== verification/Prelude.thy ===== *)
theory Prelude
  imports Complex_Main "HOL-Library.Monad_Syntax" "HOL-Library.Word"
begin

section \<open>Prelude: the C fragment the components share\<close>

text \<open>
  The C code is modelled in the option monad: \<^term>\<open>None\<close> is an execution that does not come
  back normally (an access through a null or dangling pointer, an index out of range, a loop that
  never ends), and \<open>Some\<close> is a normal return. A theorem whose conclusion is an equation with
  \<open>Some\<close> on the right therefore also states memory safety and termination.

  This theory holds the reading and writing of a C array, the \<open>for\<close> loop over an index range,
  the 32-bit two's complement integers of C, and the generic lemmas the component theories use.
\<close>

named_theorems c_array \<open>reading and writing C arrays and the loops over them\<close>
named_theorems c_int \<open>32-bit integers\<close>

subsection \<open>C integers\<close>

text \<open>
  A C \<open>int\<close> is an \<^typ>\<open>int\<close> in the range of \<open>in_s32\<close>. Every sum, difference and product the
  code forms goes through \<open>s32\<close>, which reduces to that range as two's complement hardware does.
  The C standard leaves the overflow itself undefined, so a result that matters is proved to be
  in range before \<open>s32\<close> is dropped.
\<close>

definition in_s32 :: "int \<Rightarrow> bool" where
  "in_s32 x \<longleftrightarrow> - (2 ^ 31) \<le> x \<and> x < 2 ^ 31"

definition s32 :: "int \<Rightarrow> int" where
  "s32 x = (x + 2 ^ 31) mod 2 ^ 32 - 2 ^ 31"

lemma s32_in_s32 [c_int, simp]: "in_s32 (s32 x)"
proof -
  have "0 \<le> (x + 2 ^ 31) mod 2 ^ 32" and "(x + 2 ^ 31) mod 2 ^ 32 < (2 ^ 32 :: int)" by simp_all
  then show ?thesis by (simp add: in_s32_def s32_def)
qed

lemma s32_id [c_int, simp]: "in_s32 x \<Longrightarrow> s32 x = x"
  by (simp add: in_s32_def s32_def mod_pos_pos_trivial)

lemma s32_eq_iff: "s32 x = x \<longleftrightarrow> in_s32 x"
  by (metis s32_id s32_in_s32)

lemma s32_add_s32 [c_int]: "s32 (s32 x + y) = s32 (x + y)"
proof -
  have "s32 x + y + 2 ^ 31 = (x + 2 ^ 31) mod 2 ^ 32 + y" by (simp add: s32_def)
  then have "(s32 x + y + 2 ^ 31) mod 2 ^ 32 = (x + 2 ^ 31 + y) mod 2 ^ 32"
    by (simp only: mod_add_left_eq)
  then show ?thesis by (simp add: s32_def ac_simps)
qed

lemma s32_add_sub_cancel [c_int]: "in_s32 x \<Longrightarrow> s32 (s32 (x + y) - y) = x"
  using s32_add_s32 [of "x + y" "- y"] by simp

lemma in_s32_range: "- 2147483648 \<le> x \<Longrightarrow> x < 2147483648 \<Longrightarrow> in_s32 x"
  by (simp add: in_s32_def)

lemma in_s32D: "in_s32 x \<Longrightarrow> - 2147483648 \<le> x \<and> x < 2147483648"
  by (simp add: in_s32_def)

lemma in_s32_zero [simp]: "in_s32 0"
  by (simp add: in_s32_def)

lemma s32_sub_nonneg:
  assumes "in_s32 x" "in_s32 y" "0 \<le> x" "0 \<le> y"
  shows "s32 (x - y) = x - y"
  using assms by (simp add: in_s32_def)

subsection \<open>C arrays\<close>

text \<open>\<open>rd a i\<close> is the read \<open>a[i]\<close>, \<open>wr a i v\<close> the array after the write \<open>a[i] = v\<close>; both fail
  outside the bounds of the array.\<close>

definition rd :: "'a list \<Rightarrow> nat \<Rightarrow> 'a option" where
  "rd a i = (if i < length a then Some (a ! i) else None)"

definition wr :: "'a list \<Rightarrow> nat \<Rightarrow> 'a \<Rightarrow> 'a list option" where
  "wr a i v = (if i < length a then Some (a[i := v]) else None)"

definition rdi :: "'a list \<Rightarrow> int \<Rightarrow> 'a option" where
  "rdi a i = (if 0 \<le> i then rd a (nat i) else None)"

definition wri :: "'a list \<Rightarrow> int \<Rightarrow> 'a \<Rightarrow> 'a list option" where
  "wri a i v = (if 0 \<le> i then wr a (nat i) v else None)"

lemma rd_Some [c_array, simp]: "i < length a \<Longrightarrow> rd a i = Some (a ! i)"
  by (simp add: rd_def)

lemma wr_Some [c_array, simp]: "i < length a \<Longrightarrow> wr a i v = Some (a[i := v])"
  by (simp add: wr_def)

lemma rd_eq_Some_iff: "rd a i = Some x \<longleftrightarrow> i < length a \<and> x = a ! i"
  by (auto simp: rd_def)

lemma rd_eq_None_iff [simp]: "rd a i = None \<longleftrightarrow> length a \<le> i"
  by (simp add: rd_def)

lemma wr_eq_None_iff [simp]: "wr a i v = None \<longleftrightarrow> length a \<le> i"
  by (simp add: wr_def)

subsection \<open>Loops\<close>

text \<open>
  \<open>for_each body [0..<n] s\<close> is \<open>for (int i = 0; i < n; i++) body\<close> on the loop state \<open>s\<close>; a loop
  that fails in one round fails as a whole.
\<close>

fun for_each :: "('i \<Rightarrow> 's \<Rightarrow> 's option) \<Rightarrow> 'i list \<Rightarrow> 's \<Rightarrow> 's option" where
  "for_each f [] s = Some s"
| "for_each f (x # xs) s = f x s \<bind> for_each f xs"

lemma for_each_Nil_fun [simp]: "for_each f [] = Some"
  by (rule ext) simp

lemma for_each_append: "for_each f (xs @ ys) s = for_each f xs s \<bind> for_each f ys"
  by (induction xs arbitrary: s) (auto split: bind_splits)

lemma for_each_upt_Suc:
  "for_each f [0..<Suc n] s = for_each f [0..<n] s \<bind> f n"
  by (simp add: for_each_append) (cases "for_each f [0..<n] s"; simp)

lemma for_each_cong [cong]:
  "xs = ys \<Longrightarrow> s = t \<Longrightarrow> (\<And>x u. x \<in> set ys \<Longrightarrow> f x u = g x u) \<Longrightarrow> for_each f xs s = for_each g ys t"
proof (induction ys arbitrary: xs s t)
  case Nil
  then show ?case by simp
next
  case (Cons y ys)
  have "f y u = g y u" for u using Cons.prems by simp
  moreover have "for_each f ys u = for_each g ys u" for u
    using Cons.IH [of ys u u] Cons.prems by simp
  ultimately show ?case using Cons.prems(1,2) by (auto split: bind_splits)
qed

lemma for_each_map: "for_each f (map g xs) s = for_each (\<lambda>x. f (g x)) xs s"
  by (induction xs arbitrary: s) (auto split: bind_splits)

text \<open>The loop rule for total correctness: an invariant indexed by the rounds done.\<close>

lemma for_each_upt_total:
  assumes "P 0 s"
    and "\<And>i s. i < n \<Longrightarrow> P i s \<Longrightarrow> \<exists>s'. f i s = Some s' \<and> P (Suc i) s'"
  shows "\<exists>s'. for_each f [0..<n] s = Some s' \<and> P n s'"
  using assms(2)
proof (induction n)
  case 0
  then show ?case using assms(1) by simp
next
  case (Suc n)
  then obtain s1 where "for_each f [0..<n] s = Some s1" "P n s1" by auto
  moreover from this Suc.prems obtain s2 where "f n s1 = Some s2" "P (Suc n) s2" by blast
  ultimately show ?case by (auto simp: for_each_upt_Suc simp del: upt_Suc)
qed

text \<open>The loop rule over the elements of a list.\<close>

lemma for_each_total:
  assumes "P s" and "\<And>x s. x \<in> set xs \<Longrightarrow> P s \<Longrightarrow> \<exists>s'. f x s = Some s' \<and> P s'"
  shows "\<exists>s'. for_each f xs s = Some s' \<and> P s'"
  using assms
proof (induction xs arbitrary: s)
  case Nil
  then show ?case by simp
next
  case (Cons x xs)
  from Cons.prems(2) [of x s] Cons.prems(1) obtain s1 where "f x s = Some s1" "P s1" by auto
  then show ?case using Cons.IH [of s1] Cons.prems(2) by auto
qed

lemma for_each_invariant:
  assumes "for_each f xs s = Some s'" and "P s"
    and "\<And>x s s'. x \<in> set xs \<Longrightarrow> P s \<Longrightarrow> f x s = Some s' \<Longrightarrow> P s'"
  shows "P s'"
  using assms
proof (induction xs arbitrary: s)
  case Nil
  then show ?case by simp
next
  case (Cons x xs)
  then show ?case by (auto simp: bind_eq_Some_conv)
qed

text \<open>A loop whose body is a pure update is a fold.\<close>

lemma for_each_fold: "(\<And>x s. x \<in> set xs \<Longrightarrow> f x s = Some (g x s)) \<Longrightarrow> for_each f xs s = Some (fold g xs s)"
  by (induction xs arbitrary: s) auto

text \<open>Rounds that do nothing can be skipped, and a round that fails makes the loop fail.\<close>

lemma for_each_filter:
  "(\<And>x s. x \<in> set xs \<Longrightarrow> \<not> P x \<Longrightarrow> f x s = Some s) \<Longrightarrow> for_each f xs s = for_each f (filter P xs) s"
  by (induction xs arbitrary: s) (auto intro!: Option.bind_cong)

lemma for_each_fails:
  assumes "for_each f [0..<k] s = Some s'" "k < n" "f k s' = None"
  shows "for_each f [0..<n] s = None"
proof -
  have "[0..<n] = [0..<k] @ k # [Suc k..<n]" using assms(2) upt_add_eq_append [of 0 k "n - k"] by (simp add: upt_conv_Cons)
  then show ?thesis using assms(1,3) by (simp add: for_each_append)
qed

text \<open>A loop that rewrites each cell of an array from its index and its old value.\<close>

lemma for_each_update [c_array]:
  assumes "n \<le> length xs"
    and "\<And>i ys. i < n \<Longrightarrow> length ys = length xs \<Longrightarrow> ys ! i = xs ! i \<Longrightarrow> f i ys = Some (ys[i := g i (xs ! i)])"
  shows "for_each f [0..<n] xs = Some (map (\<lambda>i. g i (xs ! i)) [0..<n] @ drop n xs)"
  using assms
proof (induction n)
  case 0
  then show ?case by simp
next
  case (Suc n)
  let ?ys = "map (\<lambda>i. g i (xs ! i)) [0..<n] @ drop n xs"
  have IH: "for_each f [0..<n] xs = Some ?ys" using Suc by simp
  have "?ys ! n = xs ! n" using Suc.prems(1) by (simp add: nth_append)
  then have "f n ?ys = Some (?ys[n := g n (xs ! n)])" using Suc.prems by simp
  moreover have "?ys[n := g n (xs ! n)] = map (\<lambda>i. g i (xs ! i)) [0..<Suc n] @ drop (Suc n) xs"
    using Suc.prems(1) by (auto simp: list_update_append Cons_nth_drop_Suc [symmetric])
  ultimately show ?case using IH by (simp add: for_each_upt_Suc del: upt_Suc)
qed

text \<open>A loop that accumulates a conjunction.\<close>

lemma for_each_conj [c_array]:
  assumes "\<And>i b. i < n \<Longrightarrow> f i b = Some (b \<and> P i)"
  shows "for_each f [0..<n] b = Some (b \<and> (\<forall>i<n. P i))"
  using assms by (induction n) (auto simp: for_each_upt_Suc less_Suc_eq simp del: upt_Suc)

text \<open>A loop that rewrites an array and accumulates a conjunction on the way.\<close>

lemma for_each_update_flag [c_array]:
  assumes "n \<le> length xs"
    and "\<And>i ys b. i < n \<Longrightarrow> length ys = length xs \<Longrightarrow> ys ! i = xs ! i \<Longrightarrow>
      f i (ys, b) = Some (ys[i := g i (xs ! i)], b \<and> P i)"
  shows "for_each f [0..<n] (xs, b) = Some (map (\<lambda>i. g i (xs ! i)) [0..<n] @ drop n xs, b \<and> (\<forall>i<n. P i))"
  using assms
proof (induction n)
  case 0
  then show ?case by simp
next
  case (Suc n)
  let ?ys = "map (\<lambda>i. g i (xs ! i)) [0..<n] @ drop n xs"
  have IH: "for_each f [0..<n] (xs, b) = Some (?ys, b \<and> (\<forall>i<n. P i))" using Suc by simp
  have "?ys ! n = xs ! n" using Suc.prems(1) by (simp add: nth_append)
  then have "f n (?ys, b \<and> (\<forall>i<n. P i)) = Some (?ys[n := g n (xs ! n)], (b \<and> (\<forall>i<n. P i)) \<and> P n)"
    using Suc.prems by (intro Suc.prems(2)) auto
  moreover have "?ys[n := g n (xs ! n)] = map (\<lambda>i. g i (xs ! i)) [0..<Suc n] @ drop (Suc n) xs"
    using Suc.prems(1) by (auto simp: list_update_append Cons_nth_drop_Suc [symmetric])
  ultimately show ?case using IH by (auto simp: for_each_upt_Suc less_Suc_eq simp del: upt_Suc)
qed

text \<open>A loop that fills two arrays.\<close>

lemma for_each_fill2 [c_array]:
  assumes "n \<le> length xs" "n \<le> length zs"
    and "\<And>i ys ws. i < n \<Longrightarrow> length ys = length xs \<Longrightarrow> length ws = length zs \<Longrightarrow>
      f i (ys, ws) = Some (ys[i := g i], ws[i := h i])"
  shows "for_each f [0..<n] (xs, zs) = Some (map g [0..<n] @ drop n xs, map h [0..<n] @ drop n zs)"
  using assms
proof (induction n)
  case 0
  then show ?case by simp
next
  case (Suc n)
  then have "for_each f [0..<n] (xs, zs) = Some (map g [0..<n] @ drop n xs, map h [0..<n] @ drop n zs)" by simp
  moreover have "(map g [0..<n] @ drop n xs)[n := g n] = map g [0..<Suc n] @ drop (Suc n) xs"
    "(map h [0..<n] @ drop n zs)[n := h n] = map h [0..<Suc n] @ drop (Suc n) zs"
    using Suc.prems(1,2) by (auto simp: list_update_append Cons_nth_drop_Suc [symmetric])
  ultimately show ?case using Suc.prems by (simp add: for_each_upt_Suc del: upt_Suc)
qed

subsection \<open>Lists\<close>

lemma map_nth_upt_eq: "length xs = n \<Longrightarrow> map (\<lambda>i. f (xs ! i)) [0..<n] = map f xs"
  by (auto simp: list_eq_iff_nth_eq)

lemma find_cong_nth:
  "xs = ys \<Longrightarrow> (\<And>x. x \<in> set ys \<Longrightarrow> P x = Q x) \<Longrightarrow> List.find P xs = List.find Q ys"
  by (induction ys arbitrary: xs) auto

lemma find_SomeD: "List.find P xs = Some x \<Longrightarrow> x \<in> set xs \<and> P x"
  by (induction xs) (auto split: if_splits)

lemma find_not_None: "x \<in> set xs \<Longrightarrow> P x \<Longrightarrow> \<exists>y. List.find P xs = Some y"
  by (induction xs) auto

lemma find_map_index: "List.find P (map f xs) = map_option f (List.find (\<lambda>i. P (f i)) xs)"
  by (induction xs) auto

end
