(* ===== verification/Vector.thy ===== *)
theory Vector
  imports Prelude
begin

section \<open>The growable vector (utils/vector.c)\<close>

text \<open>
  A vector of pointers: a size, a capacity and a heap block of \<open>capacity\<close> cells. A pointer is an
  option, \<^term>\<open>None\<close> for the null pointer. The cells from \<open>vsize\<close> on are the ones
  \<open>malloc\<close> and \<open>realloc\<close> leave indeterminate; no statement below depends on their contents. The
  abstraction \<open>vec_list\<close> is the list of the first \<open>vsize\<close> cells, and every operation is shown to
  refine the obvious list operation under the invariant \<open>vec_ok\<close>. \<open>malloc\<close> and \<open>realloc\<close>
  succeed (the code asserts it) and the number of elements stays below \<open>2 ^ 30\<close>, so that
  doubling the capacity does not overflow an \<open>int\<close>.

  The locale \<open>sequence\<close> is the interface the entities of the cloud model rely on; the vector is
  its instance.
\<close>

record 'a vector =
  vsize :: nat
  vcapacity :: nat
  vdata :: "'a option list"

definition VECTOR_INITIAL_CAPACITY :: nat where
  "VECTOR_INITIAL_CAPACITY = 10"

definition realloc :: "'a option list \<Rightarrow> nat \<Rightarrow> 'a option list" where
  "realloc d n = take n d @ replicate (n - length d) None"

definition vector_double_capacity_if_full :: "'a vector \<Rightarrow> 'a vector" where
  "vector_double_capacity_if_full v =
     (if vcapacity v \<le> vsize v
      then v\<lparr>vcapacity := vcapacity v * 2, vdata := realloc (vdata v) (vcapacity v * 2)\<rparr>
      else v)"

definition vector_create :: "'a vector" where
  "vector_create =
     \<lparr>vsize = 0, vcapacity = VECTOR_INITIAL_CAPACITY,
      vdata = replicate VECTOR_INITIAL_CAPACITY None\<rparr>"

text \<open>The result of \<open>vector_append\<close> is always \<open>true\<close> in the code; the model returns the vector.\<close>

definition vector_append :: "'a vector \<Rightarrow> 'a option \<Rightarrow> 'a vector" where
  "vector_append v e =
     (let w = vector_double_capacity_if_full v
      in w\<lparr>vdata := (vdata w)[vsize w := e], vsize := vsize w + 1\<rparr>)"

definition vector_get :: "'a vector \<Rightarrow> int \<Rightarrow> 'a option" where
  "vector_get v i = (if int (vsize v) \<le> i \<or> i < 0 then None else vdata v ! nat i)"

definition vector_getsize :: "'a vector \<Rightarrow> nat" where
  "vector_getsize v = vsize v"

definition vector_isempty :: "'a vector \<Rightarrow> bool" where
  "vector_isempty v \<longleftrightarrow> vsize v = 0"

definition vector_appendall :: "'a vector \<Rightarrow> 'a vector \<Rightarrow> 'a vector" where
  "vector_appendall v w =
     fold (\<lambda>i u. case vector_get w (int i) of None \<Rightarrow> u | Some x \<Rightarrow> vector_append u (Some x))
       [0..<vector_getsize w] v"

definition vector_getindexbycompare :: "'a vector \<Rightarrow> 'b \<Rightarrow> ('a option \<Rightarrow> 'b \<Rightarrow> int) \<Rightarrow> int" where
  "vector_getindexbycompare v e cmp =
     (case List.find (\<lambda>i. cmp (vdata v ! i) e = 0) [0..<vsize v] of Some i \<Rightarrow> int i | None \<Rightarrow> - 1)"

definition vector_getindex :: "'a vector \<Rightarrow> 'a option \<Rightarrow> int" where
  "vector_getindex v e =
     (case List.find (\<lambda>i. vdata v ! i = e) [0..<vsize v] of Some i \<Rightarrow> int i | None \<Rightarrow> - 1)"

definition vector_contains :: "'a vector \<Rightarrow> 'a option \<Rightarrow> bool" where
  "vector_contains v e \<longleftrightarrow> 0 \<le> vector_getindex v e"

definition vector_containsbycompare :: "'a vector \<Rightarrow> 'b \<Rightarrow> ('a option \<Rightarrow> 'b \<Rightarrow> int) \<Rightarrow> bool" where
  "vector_containsbycompare v e cmp \<longleftrightarrow> 0 \<le> vector_getindexbycompare v e cmp"

definition vector_remove :: "'a vector \<Rightarrow> int \<Rightarrow> bool \<times> 'a vector" where
  "vector_remove v i =
     (if 0 \<le> i \<and> i < int (vsize v)
      then let d = fold (\<lambda>j d. d[j := d ! Suc j]) [nat i..<vsize v - 1] (vdata v)
           in (True, v\<lparr>vdata := d[vsize v - 1 := None], vsize := vsize v - 1\<rparr>)
      else (False, v))"

definition vector_delete :: "'a vector \<Rightarrow> 'a option \<Rightarrow> bool \<times> 'a vector" where
  "vector_delete v e =
     (let i = vector_getindex v e in if 0 \<le> i then vector_remove v i else (False, v))"

text \<open>The loop \<open>while (n > size) vector_append(v, 0)\<close> of \<open>vector_set\<close> and \<open>vector_insert\<close>.\<close>

lemma vsize_append [simp]: "vsize (vector_append v e) = vsize v + 1"
  by (simp add: vector_append_def vector_double_capacity_if_full_def Let_def)

function vector_pad :: "'a vector \<Rightarrow> int \<Rightarrow> 'a vector" where
  "vector_pad v n = (if int (vsize v) < n then vector_pad (vector_append v None) n else v)"
  by pat_completeness auto
termination
  by (relation "measure (\<lambda>(v, n). nat (n - int (vsize v)))") auto

declare vector_pad.simps [simp del]

definition vector_set :: "'a vector \<Rightarrow> int \<Rightarrow> 'a option \<Rightarrow> 'a vector" where
  "vector_set v i e =
     (let w = vector_pad v (i + 1)
      in if 0 \<le> i then w\<lparr>vdata := (vdata w)[nat i := e]\<rparr> else w)"

definition vector_insert :: "'a vector \<Rightarrow> int \<Rightarrow> 'a option \<Rightarrow> bool \<times> 'a vector" where
  "vector_insert v i e =
     (let w = vector_pad v i
      in if 0 \<le> i
         then let w = vector_double_capacity_if_full w;
                  d = fold (\<lambda>j d. d[Suc j := d ! j]) (rev [nat i..<vsize w]) (vdata w)
              in (True, w\<lparr>vdata := d[nat i := e], vsize := vsize w + 1\<rparr>)
         else (False, w))"

definition vector_clear :: "'a vector \<Rightarrow> 'a vector" where
  "vector_clear v =
     v\<lparr>vsize := 0, vcapacity := VECTOR_INITIAL_CAPACITY,
       vdata := realloc (vdata v) VECTOR_INITIAL_CAPACITY\<rparr>"

definition vector_toarray :: "'a vector \<Rightarrow> 'a option list" where
  "vector_toarray v = vdata v"

definition vector_toarraycopy :: "'a vector \<Rightarrow> 'a option list" where
  "vector_toarraycopy v = take (vsize v) (vdata v)"

subsection \<open>Invariant and abstraction\<close>

definition vec_ok :: "'a vector \<Rightarrow> bool" where
  "vec_ok v \<longleftrightarrow> vsize v \<le> vcapacity v \<and> vcapacity v = length (vdata v) \<and> 0 < vcapacity v"

definition vec_list :: "'a vector \<Rightarrow> 'a option list" where
  "vec_list v = take (vsize v) (vdata v)"

named_theorems vec_refine \<open>the list operation each vector operation refines\<close>

lemma length_vec_list [simp]: "vec_ok v \<Longrightarrow> length (vec_list v) = vsize v"
  by (simp add: vec_list_def vec_ok_def)

lemma length_realloc [simp]: "length (realloc d n) = n"
  by (simp add: realloc_def)

lemma nth_vec_list: "vec_ok v \<Longrightarrow> i < vsize v \<Longrightarrow> vec_list v ! i = vdata v ! i"
  by (simp add: vec_list_def)

lemma double_capacity:
  assumes "vec_ok v"
  shows "vec_ok (vector_double_capacity_if_full v)"
    and "vec_list (vector_double_capacity_if_full v) = vec_list v"
    and "vsize (vector_double_capacity_if_full v) = vsize v"
    and "vsize v < length (vdata (vector_double_capacity_if_full v))"
  using assms
  by (auto simp: vector_double_capacity_if_full_def vec_ok_def vec_list_def realloc_def)

lemma vec_create [vec_refine, simp]: "vec_ok vector_create" "vec_list vector_create = []"
  by (simp_all add: vector_create_def vec_ok_def vec_list_def VECTOR_INITIAL_CAPACITY_def)

lemma vec_append [vec_refine, simp]:
  assumes "vec_ok v"
  shows "vec_ok (vector_append v e)" and "vec_list (vector_append v e) = vec_list v @ [e]"
proof -
  let ?w = "vector_double_capacity_if_full v"
  have w: "vec_ok ?w" "vec_list ?w = vec_list v" "vsize ?w = vsize v" "vsize v < length (vdata ?w)"
    using double_capacity [OF assms] by auto
  show "vec_ok (vector_append v e)"
    using w by (auto simp: vector_append_def Let_def vec_ok_def)
  have "take (vsize v + 1) ((vdata ?w)[vsize v := e]) = take (vsize v) (vdata ?w) @ [e]"
    using w(4) by (simp add: take_Suc_conv_app_nth)
  then show "vec_list (vector_append v e) = vec_list v @ [e]"
    using w by (simp add: vector_append_def Let_def vec_list_def)
qed

lemma vec_get [vec_refine]:
  "vec_ok v \<Longrightarrow> vector_get v i =
     (if 0 \<le> i \<and> nat i < length (vec_list v) then vec_list v ! nat i else None)"
  by (auto simp: vector_get_def vec_list_def vec_ok_def)

lemma vec_size [vec_refine, simp]: "vec_ok v \<Longrightarrow> vector_getsize v = length (vec_list v)"
  by (simp add: vector_getsize_def)

lemma vec_isempty [vec_refine, simp]: "vec_ok v \<Longrightarrow> vector_isempty v \<longleftrightarrow> vec_list v = []"
  by (auto simp: vector_isempty_def vec_list_def vec_ok_def)

lemma vec_toarraycopy [vec_refine, simp]: "vector_toarraycopy v = vec_list v"
  by (simp add: vector_toarraycopy_def vec_list_def)

lemma vec_clear [vec_refine, simp]: "vec_ok (vector_clear v)" "vec_list (vector_clear v) = []"
  by (simp_all add: vector_clear_def vec_ok_def vec_list_def VECTOR_INITIAL_CAPACITY_def)

subsection \<open>Searching\<close>

text \<open>The index of the first match, \<open>- 1\<close> when there is none, as a list function.\<close>

fun index_of :: "('a \<Rightarrow> bool) \<Rightarrow> 'a list \<Rightarrow> int" where
  "index_of P [] = - 1"
| "index_of P (x # xs) = (if P x then 0 else let i = index_of P xs in if i < 0 then - 1 else i + 1)"

lemma index_of_ge: "- 1 \<le> index_of P xs"
  by (induction xs) (auto simp: Let_def)

lemma index_of_nonneg_iff: "0 \<le> index_of P xs \<longleftrightarrow> (\<exists>x\<in>set xs. P x)"
  by (induction xs) (auto simp: Let_def)

lemma index_of_less: "index_of P xs < int (length xs)"
  by (induction xs) (auto simp: Let_def)

lemma index_of_notin [simp]: "e \<notin> set xs \<Longrightarrow> index_of (\<lambda>x. x = e) xs = - 1"
  using index_of_ge [of "\<lambda>x. x = e" xs] index_of_nonneg_iff [of "\<lambda>x. x = e" xs] by auto

lemma index_of_append_notin [simp]:
  "e \<notin> set xs \<Longrightarrow> index_of (\<lambda>x. x = e) (xs @ [e]) = int (length xs)"
  by (induction xs) (auto simp: Let_def)

lemma remove_index_of:
  "e \<in> set xs \<Longrightarrow>
   (let i = nat (index_of (\<lambda>x. x = e) xs) in take i xs @ drop (Suc i) xs) = remove1 e xs"
proof (induction xs)
  case Nil
  then show ?case by simp
next
  case (Cons x xs)
  then have "x \<noteq> e \<Longrightarrow> 0 \<le> index_of (\<lambda>x. x = e) xs" by (auto simp: index_of_nonneg_iff)
  then show ?case using Cons by (auto simp: Let_def nat_add_distrib)
qed

lemma find_index_of:
  "(case List.find (\<lambda>i. P (xs ! i)) [0..<length xs] of Some i \<Rightarrow> int i | None \<Rightarrow> - 1) = index_of P xs"
proof (induction xs)
  case Nil
  then show ?case by simp
next
  case (Cons x xs)
  have shift: "[0..<Suc (length xs)] = 0 # map Suc [0..<length xs]"
    by (simp add: upt_conv_Cons map_Suc_upt del: upt_Suc)
  show ?case
    using Cons by (auto simp: shift find_map_index Let_def split: option.splits simp del: upt_Suc)
qed

lemma vec_getindex [vec_refine]:
  assumes "vec_ok v"
  shows "vector_getindex v e = index_of (\<lambda>x. x = e) (vec_list v)"
proof -
  have "List.find (\<lambda>i. vdata v ! i = e) [0..<vsize v]
      = List.find (\<lambda>i. vec_list v ! i = e) [0..<length (vec_list v)]"
    using assms by (intro find_cong_nth) (auto simp: nth_vec_list)
  then show ?thesis
    using find_index_of [of "\<lambda>x. x = e" "vec_list v"] by (simp add: vector_getindex_def)
qed

lemma vec_getindexbycompare [vec_refine]:
  assumes "vec_ok v"
  shows "vector_getindexbycompare v e cmp = index_of (\<lambda>x. cmp x e = 0) (vec_list v)"
proof -
  have "List.find (\<lambda>i. cmp (vdata v ! i) e = 0) [0..<vsize v]
      = List.find (\<lambda>i. cmp (vec_list v ! i) e = 0) [0..<length (vec_list v)]"
    using assms by (intro find_cong_nth) (auto simp: nth_vec_list)
  then show ?thesis
    using find_index_of [of "\<lambda>x. cmp x e = 0" "vec_list v"] by (simp add: vector_getindexbycompare_def)
qed

lemma vec_contains [vec_refine]: "vec_ok v \<Longrightarrow> vector_contains v e \<longleftrightarrow> e \<in> set (vec_list v)"
  by (simp add: vector_contains_def vec_getindex index_of_nonneg_iff)

subsection \<open>Removing and inserting: the shifting loops\<close>

lemma length_shift_left [simp]: "length (fold (\<lambda>j d. d[j := d ! Suc j]) js d) = length d"
  by (induction js arbitrary: d) auto

lemma nth_shift_left:
  "hi < length d \<Longrightarrow> j < length d \<Longrightarrow>
   fold (\<lambda>j d. d[j := d ! Suc j]) [lo..<hi] d ! j = (if lo \<le> j \<and> j < hi then d ! (j + 1) else d ! j)"
proof (induction hi arbitrary: j)
  case 0
  then show ?case by simp
next
  case (Suc hi)
  then show ?case by (cases "lo \<le> hi") (auto simp: nth_list_update less_Suc_eq)
qed

lemma length_shift_right [simp]: "length (fold (\<lambda>j d. d[Suc j := d ! j]) js d) = length d"
  by (induction js arbitrary: d) auto

lemma nth_shift_right:
  "hi < length d \<Longrightarrow> j < length d \<Longrightarrow>
   fold (\<lambda>j d. d[Suc j := d ! j]) (rev [lo..<hi]) d ! j = (if lo < j \<and> j \<le> hi then d ! (j - 1) else d ! j)"
proof (induction hi arbitrary: d j)
  case 0
  then show ?case by simp
next
  case (Suc hi)
  then show ?case by (cases "lo \<le> hi") (auto simp: nth_list_update)
qed

lemma vec_remove [vec_refine]:
  assumes "vec_ok v" "0 \<le> i" "i < int (length (vec_list v))"
  shows "fst (vector_remove v i)" "vec_ok (snd (vector_remove v i))"
    "vec_list (snd (vector_remove v i)) = take (nat i) (vec_list v) @ drop (Suc (nat i)) (vec_list v)"
proof -
  let ?d = "fold (\<lambda>j d. d[j := d ! Suc j]) [nat i..<vsize v - 1] (vdata v)"
  have len: "vsize v \<le> length (vdata v)" "nat i < vsize v" and lens: "length (vec_list v) = vsize v"
    using assms by (auto simp: vec_ok_def)
  have rm: "vector_remove v i = (True, v\<lparr>vdata := ?d[vsize v - 1 := None], vsize := vsize v - 1\<rparr>)"
    using assms by (simp add: vector_remove_def Let_def)
  then show "fst (vector_remove v i)" "vec_ok (snd (vector_remove v i))"
    using assms(1) by (auto simp: vec_ok_def)
  have "take (vsize v - 1) (?d[vsize v - 1 := None])
      = take (nat i) (vec_list v) @ drop (Suc (nat i)) (vec_list v)" (is "?l = ?r")
  proof (rule nth_equalityI)
    show "length ?l = length ?r" using len lens by simp
  next
    fix j assume "j < length ?l"
    then have "j < vsize v - 1" using len by simp
    then show "?l ! j = ?r ! j"
      using len lens by (auto simp: nth_shift_left nth_append vec_list_def)
  qed
  then show "vec_list (snd (vector_remove v i)) = take (nat i) (vec_list v) @ drop (Suc (nat i)) (vec_list v)"
    by (simp add: rm vec_list_def [of "v\<lparr>vdata := _, vsize := _\<rparr>"])
qed

lemma vec_remove_out [vec_refine]:
  "vec_ok v \<Longrightarrow> \<not> (0 \<le> i \<and> i < int (length (vec_list v))) \<Longrightarrow> vector_remove v i = (False, v)"
  by (auto simp: vector_remove_def)

lemma vec_delete [vec_refine]:
  assumes "vec_ok v"
  shows "fst (vector_delete v e) \<longleftrightarrow> e \<in> set (vec_list v)" "vec_ok (snd (vector_delete v e))"
    "vec_list (snd (vector_delete v e)) = remove1 e (vec_list v)"
proof -
  let ?i = "index_of (\<lambda>x. x = e) (vec_list v)"
  have i: "0 \<le> ?i \<longleftrightarrow> e \<in> set (vec_list v)" "?i < int (length (vec_list v))"
    by (auto simp: index_of_nonneg_iff index_of_less)
  show "fst (vector_delete v e) \<longleftrightarrow> e \<in> set (vec_list v)" "vec_ok (snd (vector_delete v e))"
    "vec_list (snd (vector_delete v e)) = remove1 e (vec_list v)"
    using assms i vec_remove [OF assms, of ?i] remove_index_of [of e "vec_list v"]
    by (auto simp: vector_delete_def vec_getindex Let_def remove1_idem)
qed

lemma vec_pad [vec_refine]:
  "vec_ok v \<Longrightarrow> vec_ok (vector_pad v n) \<and>
     vec_list (vector_pad v n) = vec_list v @ replicate (nat n - length (vec_list v)) None"
proof (induction v n rule: vector_pad.induct)
  case (1 v n)
  show ?case
  proof (cases "int (vsize v) < n")
    case True
    have "nat n - vsize v = Suc (nat n - Suc (vsize v))" using True by linarith
    then show ?thesis
      using True 1 by (simp add: vector_pad.simps [of v n])
  next
    case False
    then show ?thesis using 1 by (simp add: vector_pad.simps [of v n])
  qed
qed

lemma vec_set [vec_refine]:
  assumes "vec_ok v" "0 \<le> i"
  shows "vec_ok (vector_set v i e)"
    "vec_list (vector_set v i e)
       = (vec_list v @ replicate (Suc (nat i) - length (vec_list v)) None)[nat i := e]"
proof -
  let ?w = "vector_pad v (i + 1)"
  have w: "vec_ok ?w" "vec_list ?w = vec_list v @ replicate (Suc (nat i) - length (vec_list v)) None"
    using vec_pad [OF assms(1), of "i + 1"] assms(2) by (auto simp: nat_add_distrib)
  have "vec_list (?w\<lparr>vdata := (vdata ?w)[nat i := e]\<rparr>) = (vec_list ?w)[nat i := e]"
    using w(1) by (simp add: vec_list_def take_update_swap)
  then show "vec_ok (vector_set v i e)"
    "vec_list (vector_set v i e) = (vec_list v @ replicate (Suc (nat i) - length (vec_list v)) None)[nat i := e]"
    using w assms by (auto simp: vector_set_def Let_def vec_ok_def)
qed

text \<open>The shifting loop of \<open>vector_insert\<close>, on a block with at least one free cell.\<close>

lemma take_shift_right:
  assumes "lo \<le> n" "n < length d"
  shows "take (Suc n) ((fold (\<lambda>j d. d[Suc j := d ! j]) (rev [lo..<n]) d)[lo := e])
       = take lo (take n d) @ e # drop lo (take n d)" (is "?l = ?r")
proof (rule nth_equalityI)
  show "length ?l = length ?r" using assms by simp
next
  fix j assume "j < length ?l"
  then have j: "j < Suc n" using assms by simp
  have "j - Suc 0 = lo + x" if "j - lo = Suc x" for x using that by linarith
  then show "?l ! j = ?r ! j"
    using j assms
    by (cases rule: linorder_cases [of j lo]) (auto simp: nth_append nth_Cons nth_shift_right min_def split: nat.splits)
qed

lemma vec_insert [vec_refine]:
  assumes "vec_ok v" "0 \<le> i"
  defines "xs \<equiv> vec_list v @ replicate (nat i - length (vec_list v)) None"
  shows "fst (vector_insert v i e)" "vec_ok (snd (vector_insert v i e))"
    "vec_list (snd (vector_insert v i e)) = take (nat i) xs @ e # drop (nat i) xs"
proof -
  let ?w = "vector_double_capacity_if_full (vector_pad v i)"
  have p: "vec_ok (vector_pad v i)" "vec_list (vector_pad v i) = xs"
    using vec_pad [OF assms(1), of i] unfolding xs_def by auto
  note w = double_capacity [OF p(1)]
  have i: "nat i \<le> vsize ?w" "vsize ?w < length (vdata ?w)"
  proof -
    have "nat i \<le> length xs" unfolding xs_def by simp
    then show "nat i \<le> vsize ?w" using p w(3) length_vec_list [OF p(1)] by simp
    show "vsize ?w < length (vdata ?w)" using w(3,4) by simp
  qed
  have ins: "vector_insert v i e = (True, ?w\<lparr>vdata :=
      (fold (\<lambda>j d. d[Suc j := d ! j]) (rev [nat i..<vsize ?w]) (vdata ?w))[nat i := e],
      vsize := vsize ?w + 1\<rparr>)"
    using assms by (simp add: vector_insert_def Let_def)
  show "fst (vector_insert v i e)" "vec_ok (snd (vector_insert v i e))"
    using w(1) i by (auto simp: ins vec_ok_def)
  show "vec_list (snd (vector_insert v i e)) = take (nat i) xs @ e # drop (nat i) xs"
    using take_shift_right [OF i, of e] p w(2)
    by (simp add: ins vec_list_def del: take_take flip: take_take)
qed

lemma vec_appendall [vec_refine]:
  assumes "vec_ok v" "vec_ok w"
  shows "vec_ok (vector_appendall v w) \<and>
     vec_list (vector_appendall v w) = vec_list v @ filter (\<lambda>x. x \<noteq> None) (vec_list w)"
proof -
  let ?f = "\<lambda>i u. case vector_get w (int i) of None \<Rightarrow> u | Some x \<Rightarrow> vector_append u (Some x)"
  have "n \<le> length (vec_list w) \<Longrightarrow> vec_ok (fold ?f [0..<n] v) \<and>
     vec_list (fold ?f [0..<n] v) = vec_list v @ filter (\<lambda>x. x \<noteq> None) (take n (vec_list w))" for n
  proof (induction n)
    case 0
    then show ?case using assms by simp
  next
    case (Suc n)
    then show ?case
      using assms by (auto simp: vec_get take_Suc_conv_app_nth split: option.splits)
  qed
  from this [of "length (vec_list w)"] show ?thesis
    using assms by (simp add: vector_appendall_def)
qed

subsection \<open>The interface of a sequence of pointers\<close>

text \<open>
  What the clients of the vector rely on. The lemmas of the locale are the ones the entities of
  the cloud model need: an element appended and then removed leaves the sequence as it was, and
  deleting an element of a duplicate-free sequence removes exactly it.
\<close>

locale sequence =
  fixes mk :: "'v" and append :: "'v \<Rightarrow> 'a option \<Rightarrow> 'v" and remove :: "'v \<Rightarrow> int \<Rightarrow> bool \<times> 'v"
    and delete :: "'v \<Rightarrow> 'a option \<Rightarrow> bool \<times> 'v"
    and index :: "'v \<Rightarrow> 'a option \<Rightarrow> int" and get :: "'v \<Rightarrow> int \<Rightarrow> 'a option"
    and size :: "'v \<Rightarrow> nat" and clear :: "'v \<Rightarrow> 'v"
    and contents :: "'v \<Rightarrow> 'a option list" and ok :: "'v \<Rightarrow> bool"
  assumes mk: "ok mk" "contents mk = []"
    and append: "ok v \<Longrightarrow> ok (append v e)" "ok v \<Longrightarrow> contents (append v e) = contents v @ [e]"
    and remove: "ok v \<Longrightarrow> ok (snd (remove v i))"
      "ok v \<Longrightarrow> 0 \<le> i \<Longrightarrow> i < int (length (contents v)) \<Longrightarrow>
         contents (snd (remove v i)) = take (nat i) (contents v) @ drop (Suc (nat i)) (contents v)"
    and delete: "ok v \<Longrightarrow> ok (snd (delete v e))"
      "ok v \<Longrightarrow> contents (snd (delete v e)) = remove1 e (contents v)"
    and index: "ok v \<Longrightarrow> index v e = index_of (\<lambda>x. x = e) (contents v)"
    and get: "ok v \<Longrightarrow> get v i =
      (if 0 \<le> i \<and> nat i < length (contents v) then contents v ! nat i else None)"
    and size: "ok v \<Longrightarrow> size v = length (contents v)"
    and clear: "ok (clear v)" "contents (clear v) = []"
begin

lemma remove_index:
  assumes "ok v" "e \<in> set (contents v)"
  shows "contents (snd (remove v (index v e))) = remove1 e (contents v)"
proof -
  have "0 \<le> index v e" "index v e < int (length (contents v))"
    using assms by (auto simp: index index_of_nonneg_iff index_of_less)
  then show ?thesis
    using assms remove(2) [of v "index v e"] remove_index_of [of e "contents v"]
    by (simp add: index Let_def)
qed

lemma append_remove:
  assumes "ok v" "e \<notin> set (contents v)"
  shows "contents (snd (remove (append v e) (index (append v e) e))) = contents v"
  using assms remove_index [of "append v e" e] by (simp add: append remove1_append)

lemma index_neg_iff: "ok v \<Longrightarrow> index v e < 0 \<longleftrightarrow> e \<notin> set (contents v)"
  using index_of_nonneg_iff [of "\<lambda>x. x = e" "contents v"] by (auto simp: index not_less [symmetric])

lemma get_nth: "ok v \<Longrightarrow> i < size v \<Longrightarrow> get v (int i) = contents v ! i"
  by (simp add: get size)

lemma delete_distinct:
  "ok v \<Longrightarrow> distinct (contents v) \<Longrightarrow>
     set (contents (snd (delete v e))) = set (contents v) - {e} \<and> distinct (contents (snd (delete v e)))"
  by (simp add: delete set_remove1_eq)

end

interpretation vec: sequence vector_create vector_append vector_remove vector_delete
  vector_getindex vector_get vector_getsize vector_clear vec_list vec_ok
proof unfold_locales
  fix v :: "'a vector" and i
  assume "vec_ok v"
  then show "vec_ok (snd (vector_remove v i))"
    by (cases "0 \<le> i \<and> i < int (length (vec_list v))") (auto simp: vec_remove vec_remove_out)
qed (auto simp: vec_refine)

subsection \<open>Properties of the vector\<close>

text \<open>An element appended to a vector that does not hold it yet is found again by
  \<open>vector_getindex\<close>, and removing it at the index found leaves the vector as it was, whether or not
  the append had to double the capacity.\<close>

theorem vector_append_remove_roundtrip:
  assumes "vec_ok v" "e \<notin> set (vec_list v)"
  shows "vec_list (snd (vector_remove (vector_append v e) (vector_getindex (vector_append v e) e))) = vec_list v"
  using assms by (rule vec.append_remove)

theorem vector_append_remove_roundtrip_witness:
  "vec_list (snd (vector_remove (vector_append vector_create (Some (3::nat)))
     (vector_getindex (vector_append vector_create (Some (3::nat))) (Some 3)))) = []"
  using vector_append_remove_roundtrip [of vector_create "Some (3::nat)"] by simp

text \<open>\<open>vector_insert\<close> at an index inside the vector or just behind it succeeds, \<open>vector_get\<close>
  returns the new element there, and \<open>vector_remove\<close> at the same index restores the vector: the
  two element shifts are inverse to each other.\<close>

theorem vector_insert_remove_roundtrip:
  assumes "vec_ok v" "0 \<le> i" "i \<le> int (vector_getsize v)"
  shows "fst (vector_insert v i e) \<and> vector_get (snd (vector_insert v i e)) i = e \<and>
    vec_list (snd (vector_remove (snd (vector_insert v i e)) i)) = vec_list v"
proof -
  let ?w = "snd (vector_insert v i e)"
  have n: "nat i \<le> length (vec_list v)" using assms by simp
  have w: "fst (vector_insert v i e)" "vec_ok ?w"
    "vec_list ?w = take (nat i) (vec_list v) @ e # drop (nat i) (vec_list v)"
    using vec_insert [OF assms(1,2), of e] n by simp_all
  then have "vector_get ?w i = e" using n assms(2) by (simp add: vec_get nth_append)
  moreover have "i < int (length (vec_list ?w))"
    unfolding w(3) using n assms(2) by simp
  then have "vec_list (snd (vector_remove ?w i)) = vec_list v"
    using vec.remove(2) [OF w(2) assms(2)] n by (simp add: w(3))
  ultimately show ?thesis using w(1) by blast
qed

theorem vector_insert_remove_roundtrip_witness:
  "fst (vector_insert (vector_append vector_create (Some (3::nat))) 0 (Some 4)) \<and>
   vector_get (snd (vector_insert (vector_append vector_create (Some (3::nat))) 0 (Some 4))) 0 = Some 4"
  using vector_insert_remove_roundtrip [of "vector_append vector_create (Some (3::nat))" 0 "Some 4"] by simp

end
