(* ===== verification/Hashing.thy ===== *)
theory Hashing
  imports Prelude
begin

unbundle bit_operations_syntax

section \<open>Hash values and table sizes (utils/hashmap.c)\<close>

text \<open>
  The hash function of the hash map (an adaptation of Weinberger's hash on 64-bit words) and the
  search for a prime table size: \<open>isPrime\<close>, a Fermat test with nine random bases in \<open>int\<close>
  arithmetic, and \<open>findPrimeGreaterThan\<close>. The main results are that the test accepts every prime
  as long as its products fit an \<open>int\<close>, so that the search ends, and that beyond that bound it
  can reject a prime.
\<close>

subsection \<open>The hash function\<close>

text \<open>A \<open>char\<close> is signed on the target, so a byte from 128 on is sign-extended before it is added.\<close>

definition char_value :: "char \<Rightarrow> 64 word" where
  "char_value c = (let n = int (of_char c) in word_of_int (if n < 128 then n else n - 256))"

definition ONE_EIGHTH :: nat where "ONE_EIGHTH = 64 div 8"

definition THREE_QUARTERS :: nat where "THREE_QUARTERS = 64 * 3 div 4"

definition HIGH_BITS :: "64 word" where
  "HIGH_BITS = NOT (drop_bit ONE_EIGHTH (NOT 0))"

definition hash_step :: "64 word \<Rightarrow> char \<Rightarrow> 64 word" where
  "hash_step h c =
     (let v = push_bit ONE_EIGHTH h + char_value c; i = v AND HIGH_BITS
      in if i \<noteq> 0 then (v XOR drop_bit THREE_QUARTERS i) AND NOT HIGH_BITS else v)"

definition hashfunction :: "string \<Rightarrow> 64 word" where
  "hashfunction s = foldl hash_step 0 s"

subsection \<open>Random numbers and the Fermat test\<close>

text \<open>\<open>rand()\<close> draws the next number of a sequence the program does not control; the sequence is
  the value \<^typ>\<open>nat \<Rightarrow> nat\<close>, and drawing drops its head.\<close>

type_synonym rng = "nat \<Rightarrow> nat"

definition c_rand :: "rng \<Rightarrow> int \<times> rng" where
  "c_rand r = (int (r 0 mod 2 ^ 31), \<lambda>n. r (Suc n))"

text \<open>\<open>x % _val\<close> for an \<open>int\<close> \<open>x\<close> and an \<open>unsigned long\<close> \<open>_val\<close>, stored back into an \<open>int\<close>.\<close>

definition ulmod :: "int \<Rightarrow> nat \<Rightarrow> int" where
  "ulmod x v = s32 ((x mod 2 ^ 64) mod int v)"

fun fermat_pow :: "nat \<Rightarrow> int \<Rightarrow> int \<Rightarrow> nat \<Rightarrow> int" where
  "fermat_pow v p a e =
     (if e = 0 then p
      else fermat_pow v (if odd e then ulmod (s32 (p * a)) v else p) (ulmod (s32 (a * a)) v) (e div 2))"

declare fermat_pow.simps [simp del]

definition fermat_base :: "nat \<Rightarrow> int \<Rightarrow> int" where
  "fermat_base v x = s32 (x mod ((int v - 4) mod 2 ^ 64) + 2)"

fun fermat_rounds :: "nat \<Rightarrow> nat \<Rightarrow> rng \<Rightarrow> bool \<times> rng" where
  "fermat_rounds 0 v r = (True, r)"
| "fermat_rounds (Suc n) v r =
     (let (x, r') = c_rand r
      in if fermat_pow v 1 (fermat_base v x) (v - 1) \<noteq> 1 then (False, r') else fermat_rounds n v r')"

text \<open>A value of 4 divides by zero, and an exponent beyond the \<open>int\<close> range becomes negative and
  is shifted right forever.\<close>

definition isPrime :: "nat \<Rightarrow> rng \<Rightarrow> (bool \<times> rng) option" where
  "isPrime v r = (if v = 4 \<or> v = 0 \<or> 2 ^ 31 < v then None else Some (fermat_rounds 9 v r))"

partial_function (option) next_prime_loop :: "int \<Rightarrow> rng \<Rightarrow> (int \<times> rng) option" where
  "next_prime_loop v r =
     do { (b, r') \<leftarrow> isPrime (nat (v mod 2 ^ 64)) r;
          if b then Some (v, r') else next_prime_loop (s32 (v + 2)) r' }"

definition findPrimeGreaterThan :: "int \<Rightarrow> rng \<Rightarrow> (int \<times> rng) option" where
  "findPrimeGreaterThan v r = next_prime_loop (if odd v then s32 (v + 2) else s32 (v + 1)) r"

declare next_prime_loop.simps [code]

subsection \<open>Primes and Fermat's little theorem\<close>

definition is_prime :: "nat \<Rightarrow> bool" where
  "is_prime p \<longleftrightarrow> 1 < p \<and> (\<forall>d. d dvd p \<longrightarrow> d = 1 \<or> d = p)"

lemma is_prime_trial:
  assumes "1 < p" "p < b * b" "\<forall>d\<in>set [2..<b]. p mod d \<noteq> 0"
  shows "is_prime p"
proof -
  have "d = 1 \<or> d = p" if d: "d dvd p" for d
  proof (rule ccontr)
    assume nt: "\<not> (d = 1 \<or> d = p)"
    from d obtain e where e: "p = d * e" by (auto simp: dvd_def)
    have "e \<noteq> 0" using e assms(1) by (intro notI) simp
    then have "d \<noteq> 0" "e \<noteq> 0" "e \<noteq> 1" "e dvd p" using e nt assms(1) by auto
    moreover have "b \<le> x" if "x dvd p" "x \<noteq> 0" "x \<noteq> 1" for x
    proof (rule ccontr)
      assume "\<not> b \<le> x"
      then have "x \<in> set [2..<b]" using that by auto
      then have "p mod x \<noteq> 0" using assms(3) by blast
      then show False using that(1) by (simp add: dvd_eq_mod_eq_0)
    qed
    ultimately have "b \<le> d" "b \<le> e" using d nt by auto
    then show False using e assms(2) mult_le_mono [of b d b e] by simp
  qed
  then show ?thesis using assms(1) by (simp add: is_prime_def)
qed

lemma is_prime_coprime: "is_prime p \<Longrightarrow> \<not> p dvd x \<Longrightarrow> coprime p x"
  by (metis coprime_iff_gcd_eq_1 gcd_dvd1 gcd_dvd2 is_prime_def)

lemma is_prime_coprime_less: "is_prime p \<Longrightarrow> 0 < x \<Longrightarrow> x < p \<Longrightarrow> coprime p x"
  by (simp add: is_prime_coprime nat_dvd_not_less)

lemma mult_mod_bij:
  assumes "is_prime p" "\<not> p dvd a"
  shows "bij_betw (\<lambda>x. a * x mod p) {1..<p} {1..<p}"
proof -
  have cop: "coprime p a" using assms by (rule is_prime_coprime)
  have pos: "0 < p" using assms(1) by (simp add: is_prime_def)
  have "inj_on (\<lambda>x. a * x mod p) {1..<p}"
  proof (rule linorder_inj_onI')
    fix x y assume xy: "x \<in> {1..<p}" "y \<in> {1..<p}" "x < y"
    show "a * x mod p \<noteq> a * y mod p"
    proof
      assume "a * x mod p = a * y mod p"
      then have "p dvd a * y - a * x" using xy(3) by (metis mod_eq_dvd_iff_nat mult_le_mono2 order_less_imp_le)
      then have "p dvd a * (y - x)" by (simp add: diff_mult_distrib2)
      then have "p dvd y - x" using cop by (simp add: coprime_dvd_mult_right_iff)
      then show False using xy by (simp add: nat_dvd_not_less)
    qed
  qed
  moreover have "(\<lambda>x. a * x mod p) ` {1..<p} \<subseteq> {1..<p}"
  proof
    fix y assume "y \<in> (\<lambda>x. a * x mod p) ` {1..<p}"
    then obtain x where x: "x \<in> {1..<p}" "y = a * x mod p" by auto
    have "\<not> p dvd a * x"
      using x(1) cop by (simp add: coprime_dvd_mult_right_iff nat_dvd_not_less)
    then have "0 < y" using x(2) by (simp add: mod_greater_zero_iff_not_dvd)
    moreover have "y < p" using x(2) pos by simp
    ultimately show "y \<in> {1..<p}" by simp
  qed
  ultimately show ?thesis by (simp add: bij_betw_def endo_inj_surj)
qed

lemma fermat_little:
  assumes "is_prime p" "\<not> p dvd a"
  shows "a ^ (p - 1) mod p = 1"
proof -
  let ?S = "{1..<p}"
  have "(\<Prod>x\<in>?S. a * x mod p) = \<Prod>?S"
    using prod.reindex_bij_betw [OF mult_mod_bij [OF assms], of "\<lambda>x. x"] by simp
  then have "\<Prod>?S mod p = (\<Prod>x\<in>?S. a * x) mod p"
    by (metis mod_prod_eq)
  also have "(\<Prod>x\<in>?S. a * x) = a ^ (p - 1) * \<Prod>?S"
    by (simp add: prod.distrib)
  finally have eq: "\<Prod>?S mod p = a ^ (p - 1) * \<Prod>?S mod p" .
  have one: "1 \<le> a ^ (p - 1)"
    using assms(2) by (cases "a = 0") auto
  have "p dvd a ^ (p - 1) * \<Prod>?S - 1 * \<Prod>?S"
    using eq one mod_eq_dvd_iff_nat [of "1 * \<Prod>?S" "a ^ (p - 1) * \<Prod>?S" p]
    by (simp del: mult_1)
  then have "p dvd (a ^ (p - 1) - 1) * \<Prod>?S" by (simp add: diff_mult_distrib)
  moreover have "coprime p (\<Prod>?S)"
    using assms(1) by (auto intro!: prod_coprime_right is_prime_coprime_less)
  ultimately have "p dvd a ^ (p - 1) - 1" by (simp add: coprime_dvd_mult_left_iff)
  then have "a ^ (p - 1) mod p = 1 mod p"
    using one mod_eq_dvd_iff_nat [of 1 "a ^ (p - 1)" p] by blast
  then show ?thesis using assms(1) by (simp add: is_prime_def)
qed

subsection \<open>Correctness of the test and of the search\<close>

text \<open>The largest value whose residues multiply without leaving the \<open>int\<close> range.\<close>

definition PRIME_BOUND :: nat where "PRIME_BOUND = 46341"

lemma ulmod_mult:
  assumes "0 < v" "v \<le> PRIME_BOUND" "x < v" "y < v"
  shows "ulmod (s32 (int x * int y)) v = int (x * y mod v)"
proof -
  have "x * y \<le> 46340 * 46340"
    using assms by (intro mult_le_mono) (auto simp: PRIME_BOUND_def)
  then have "in_s32 (int (x * y))" by (simp add: in_s32_def del: of_nat_mult)
  then have "s32 (int x * int y) = int (x * y)" by simp
  moreover have "in_s32 (int (x * y mod v))"
  proof -
    have "x * y mod v < v" using assms(1) by simp
    then have "x * y mod v < 2147483648" using assms(2) unfolding PRIME_BOUND_def by linarith
    then show ?thesis by (simp add: in_s32_def del: of_nat_mult of_nat_mod)
  qed
  moreover have "int (x * y) mod 2 ^ 64 = int (x * y)"
    using \<open>x * y \<le> 46340 * 46340\<close> by (intro mod_pos_pos_trivial) (simp_all del: of_nat_mult)
  ultimately show ?thesis by (simp add: ulmod_def zmod_int [symmetric] del: of_nat_mult)
qed

lemma fermat_pow_correct:
  assumes "1 < v" "v \<le> PRIME_BOUND"
  shows "p < v \<Longrightarrow> a < v \<Longrightarrow> fermat_pow v (int p) (int a) e = int (p * a ^ e mod v)"
proof (induction e arbitrary: p a rule: less_induct)
  case (less e)
  show ?case
  proof (cases "e = 0")
    case True
    then show ?thesis using less.prems by (simp add: fermat_pow.simps)
  next
    case False
    let ?p = "if odd e then p * a mod v else p" and ?a = "a * a mod v"
    have bounds: "?p < v" "?a < v" using assms less.prems by auto
    have "fermat_pow v (int p) (int a) e = fermat_pow v (int ?p) (int ?a) (e div 2)"
      using False assms less.prems by (subst fermat_pow.simps) (simp add: ulmod_mult)
    also have "\<dots> = int (?p * ?a ^ (e div 2) mod v)"
      using False bounds by (intro less.IH) auto
    also have "?p * ?a ^ (e div 2) mod v = p * a ^ e mod v"
    proof -
      have "?a ^ (e div 2) mod v = a ^ (2 * (e div 2)) mod v"
        by (simp add: power_mod power_mult power2_eq_square)
      then have sq: "q * ?a ^ (e div 2) mod v = q * a ^ (2 * (e div 2)) mod v" for q
        by (metis mod_mult_right_eq)
      show ?thesis
      proof (cases "odd e")
        case True
        then have "a * a ^ (2 * (e div 2)) = a ^ e"
          by (metis odd_two_times_div_two_succ power_Suc add.commute plus_1_eq_Suc)
        moreover have "p * a mod v * a ^ (2 * (e div 2)) mod v = p * (a * a ^ (2 * (e div 2))) mod v"
          by (simp add: mod_mult_left_eq mult.assoc)
        ultimately show ?thesis using True sq by simp
      next
        case False
        then show ?thesis using sq by simp
      qed
    qed
    finally show ?thesis .
  qed
qed

lemma fermat_base_range:
  assumes "5 \<le> v" "v \<le> PRIME_BOUND" "0 \<le> x"
  obtains a where "fermat_base v x = int a" "2 \<le> a" "a \<le> v - 3"
proof
  let ?b = "x mod (int v - 4)"
  have m: "(int v - 4) mod 2 ^ 64 = int v - 4"
    using assms by (intro mod_pos_pos_trivial) (auto simp: PRIME_BOUND_def)
  have b: "0 \<le> ?b" "?b < int v - 4" using assms by auto
  then have "in_s32 (?b + 2)" using assms(2) unfolding PRIME_BOUND_def by (intro in_s32_range) linarith+
  then show "fermat_base v x = int (nat (?b + 2))" using b(1) unfolding fermat_base_def m by simp
  show "2 \<le> nat (?b + 2)" "nat (?b + 2) \<le> v - 3" using b by linarith+
qed

lemma fermat_rounds_prime:
  assumes "is_prime v" "5 \<le> v" "v \<le> PRIME_BOUND"
  shows "fst (fermat_rounds n v r)"
proof (induction n arbitrary: r)
  case 0
  then show ?case by simp
next
  case (Suc n)
  obtain a where a: "fermat_base v (fst (c_rand r)) = int a" "2 \<le> a" "a \<le> v - 3"
    using fermat_base_range [OF assms(2,3), of "fst (c_rand r)"] by (auto simp: c_rand_def)
  have "\<not> v dvd a" using a assms(2) by (intro nat_dvd_not_less) auto
  then have "fermat_pow v 1 (int a) (v - 1) = 1"
    using fermat_pow_correct [of v 1 a "v - 1"] fermat_little [OF assms(1), of a] a assms by simp
  then show ?case using Suc a by (simp add: case_prod_unfold)
qed

lemma isPrime_prime:
  assumes "is_prime v" "5 \<le> v" "v \<le> PRIME_BOUND"
  shows "\<exists>r'. isPrime v r = Some (True, r')"
  using fermat_rounds_prime [OF assms, of 9 r] assms
  by (cases "fermat_rounds 9 v r") (auto simp: isPrime_def PRIME_BOUND_def)

lemma isPrime_total: "5 \<le> v \<Longrightarrow> v \<le> PRIME_BOUND \<Longrightarrow> \<exists>b r'. isPrime v r = Some (b, r')"
  by (cases "fermat_rounds 9 v r") (simp add: isPrime_def PRIME_BOUND_def)

text \<open>The search stops at the next prime at the latest.\<close>

lemma next_prime_loop_stops:
  assumes "is_prime p" "5 \<le> v" "int p = v + 2 * int k" "p \<le> PRIME_BOUND"
  shows "\<exists>w r'. next_prime_loop v r = Some (w, r') \<and> v \<le> w \<and> w \<le> int p"
  using assms(2,3)
proof (induction k arbitrary: v r)
  case 0
  have "v mod 2 ^ 64 = v" using 0 assms(4) by (intro mod_pos_pos_trivial) (auto simp: PRIME_BOUND_def)
  moreover obtain r' where "isPrime p r = Some (True, r')"
    using isPrime_prime [OF assms(1) _ assms(4)] 0 by force
  ultimately show ?case using 0 by (subst next_prime_loop.simps) auto
next
  case (Suc k)
  have m: "v mod 2 ^ 64 = v" using Suc.prems assms(4)
    by (intro mod_pos_pos_trivial) (auto simp: PRIME_BOUND_def)
  have s: "s32 (v + 2) = v + 2" using Suc.prems assms(4) by (simp add: in_s32_def PRIME_BOUND_def)
  have "v \<le> int p" using Suc.prems(2) by simp
  then have "nat v \<le> PRIME_BOUND" using assms(4) by linarith
  moreover have "5 \<le> nat v" using Suc.prems(1) by linarith
  ultimately obtain b r1 where b: "isPrime (nat v) r = Some (b, r1)"
    using isPrime_total [of "nat v" r] by auto
  have step: "next_prime_loop v r = (if b then Some (v, r1) else next_prime_loop (v + 2) r1)"
    by (subst next_prime_loop.simps) (simp only: m s b bind.bind_lunit prod.case)
  have "5 \<le> v + 2" "int p = v + 2 + 2 * int k" using Suc.prems by simp_all
  then obtain w r' where "next_prime_loop (v + 2) r1 = Some (w, r')" "v + 2 \<le> w" "w \<le> int p"
    using Suc.IH by blast
  then show ?case using step \<open>v \<le> int p\<close> by (cases b) simp_all
qed

lemma findPrimeGreaterThan_stops:
  assumes "is_prime p" "odd p" "4 \<le> v" "v < int p" "p \<le> PRIME_BOUND"
  shows "\<exists>w r'. findPrimeGreaterThan v r = Some (w, r') \<and> v < w \<and> w \<le> int p"
proof -
  let ?v = "if odd v then v + 2 else v + 1"
  have "odd ?v" and "odd (int p)" and le: "?v \<le> int p"
    using assms(2,4) by (auto elim!: oddE)
  then have "even (int p - ?v)" by presburger
  then obtain k where k: "int p - ?v = 2 * k" by (rule evenE)
  then have kp: "int p = ?v + 2 * int (nat k)" using le by simp
  have "in_s32 ?v" using assms(3) le assms(5) unfolding PRIME_BOUND_def by (intro in_s32_range) auto
  then have "findPrimeGreaterThan v r = next_prime_loop ?v r"
    by (cases "odd v") (auto simp: findPrimeGreaterThan_def)
  then show ?thesis
    using next_prime_loop_stops [OF assms(1) _ kp assms(5), of r] assms(3) by (auto split: if_splits)
qed

text \<open>The default table size, and the size of the first table that replaces it.\<close>

lemma is_prime_1021: "is_prime 1021"
proof (rule is_prime_trial)
  show "\<forall>d\<in>set [2..<32]. (1021::nat) mod d \<noteq> 0" by (simp add: upt_rec_numeral)
qed simp_all

lemma is_prime_2053: "is_prime 2053"
proof (rule is_prime_trial)
  show "\<forall>d\<in>set [2..<46]. (2053::nat) mod d \<noteq> 0" by (simp add: upt_rec_numeral)
qed simp_all

text \<open>The largest prime within the bound, and the first beyond it.\<close>

lemma is_prime_46337: "is_prime 46337"
proof (rule is_prime_trial)
  show "\<forall>d\<in>set [2..<216]. (46337::nat) mod d \<noteq> 0" by (simp add: upt_rec_numeral)
qed simp_all

lemma is_prime_46349: "is_prime 46349"
proof (rule is_prime_trial)
  show "\<forall>d\<in>set [2..<216]. (46349::nat) mod d \<noteq> 0" by (simp add: upt_rec_numeral)
qed simp_all

lemma is_prime_65921: "is_prime 65921"
proof (rule is_prime_trial)
  show "\<forall>d\<in>set [2..<257]. (65921::nat) mod d \<noteq> 0" by (simp add: upt_rec_numeral)
qed simp_all

subsection \<open>The range of the hash\<close>

lemma HIGH_BITS_mask: "NOT HIGH_BITS = mask 56"
  by (simp add: HIGH_BITS_def ONE_EIGHTH_def mask_eq_exp_minus_1)

lemma hash_step_small: "hash_step h c = take_bit 56 (hash_step h c)"
proof -
  have "v = take_bit 56 v" if "v AND HIGH_BITS = 0" for v :: "64 word"
  proof -
    have "v = (v AND HIGH_BITS) OR (v AND NOT HIGH_BITS)"
      by (simp flip: bit.conj_disj_distrib)
    then show ?thesis using that by (simp add: HIGH_BITS_mask take_bit_eq_mask)
  qed
  then show ?thesis
    by (auto simp: hash_step_def Let_def HIGH_BITS_mask take_bit_eq_mask)
qed

lemma hashfunction_small: "hashfunction s = take_bit 56 (hashfunction s)"
proof (cases s rule: rev_cases)
  case Nil
  then show ?thesis by (simp add: hashfunction_def)
next
  case (snoc t c)
  then show ?thesis using hash_step_small by (simp add: hashfunction_def)
qed

text \<open>A hash value has its upper eight bits clear, so it is below \<open>2 ^ 56\<close> and the index
  computations of the hash map, which are in \<open>long\<close>, never see a negative value.\<close>

theorem hashfunction_bound: "unat (hashfunction s) < 2 ^ 56"
proof -
  have "unat (hashfunction s) = take_bit 56 (unat (hashfunction s))"
    by (subst hashfunction_small) (simp add: unsigned_take_bit_eq)
  then show ?thesis by (metis take_bit_nat_less_exp)
qed

subsection \<open>Properties of the prime search\<close>

text \<open>The randomised test \<open>isPrime\<close> accepts every prime from 5 to 46341, whatever numbers
  \<open>rand()\<close> delivers: within this bound no product overflows an \<open>int\<close>, and Fermat's little
  theorem makes every round come out 1.\<close>

theorem isPrime_accepts_primes:
  assumes "is_prime v" "5 \<le> v" "v \<le> PRIME_BOUND"
  shows "\<exists>r'. isPrime v r = Some (True, r')"
  using assms by (rule isPrime_prime)

theorem isPrime_accepts_primes_witness: "\<exists>r'. isPrime 1021 (\<lambda>_. 7) = Some (True, r')"
  using isPrime_accepts_primes [OF is_prime_1021, of "\<lambda>_. 7"] by (simp add: PRIME_BOUND_def)

text \<open>C23: for every argument from 4 to 46336, and whatever numbers \<open>rand()\<close> delivers, \<open>findPrimeGreaterThan\<close> returns, and the value is larger
  than the argument. It passes over no odd prime up to 46341, so it is at most the next prime and at most 46337, the
  largest prime within that bound. The value need not be prime itself, as the test may be fooled.\<close>

theorem findPrimeGreaterThan_terminates:
  assumes "4 \<le> v" "v < 46337"
  shows "\<exists>w r'. findPrimeGreaterThan v r = Some (w, r') \<and> v < w \<and> w \<le> 46337 \<and>
    (\<forall>p. is_prime p \<longrightarrow> odd p \<longrightarrow> v < int p \<longrightarrow> p \<le> PRIME_BOUND \<longrightarrow> w \<le> int p)"
proof -
  obtain w r' where w: "findPrimeGreaterThan v r = Some (w, r')" "v < w" "w \<le> 46337"
    using findPrimeGreaterThan_stops [OF is_prime_46337, of v r] assms by (auto simp: PRIME_BOUND_def)
  have "w \<le> int p" if "is_prime p" "odd p" "v < int p" "p \<le> PRIME_BOUND" for p
    using findPrimeGreaterThan_stops [OF that(1,2) assms(1) that(3,4), of r] w(1) by auto
  then show ?thesis using w by blast
qed

theorem findPrimeGreaterThan_terminates_witness:
  "\<exists>w r'. findPrimeGreaterThan 2042 (\<lambda>_. 7) = Some (w, r') \<and> 2042 < w \<and> w \<le> 2053"
proof -
  have b: "4 \<le> (2042::int)" "(2042::int) < 46337" by simp_all
  obtain w r' where w: "findPrimeGreaterThan 2042 (\<lambda>_. 7) = Some (w, r')" "2042 < w"
    "\<forall>p. is_prime p \<longrightarrow> odd p \<longrightarrow> 2042 < int p \<longrightarrow> p \<le> PRIME_BOUND \<longrightarrow> w \<le> int p"
    using findPrimeGreaterThan_terminates [OF b, of "\<lambda>_. 7"] by blast
  have "w \<le> 2053" using spec [OF w(3), of 2053] is_prime_2053 by (simp add: PRIME_BOUND_def)
  then show ?thesis using w(1,2) by blast
qed

text \<open>C37: beyond that bound the products wrap around and the test rejects primes. 65921 is the
  first prime above twice 32957, the table size from which a growing map computes its next size;
  with the base 2 the test says it is not prime.\<close>

theorem isPrime_rejects_a_prime:
  "is_prime 65921 \<and> (\<exists>r'. isPrime 65921 (\<lambda>_. 0) = Some (False, r'))"
proof -
  have "fermat_base 65921 0 = 2" by (simp add: fermat_base_def in_s32_def)
  moreover have "fermat_pow 65921 1 2 65920 \<noteq> 1"
    by (simp add: fermat_pow.simps ulmod_def s32_def)
  ultimately have "fermat_rounds (Suc 8) 65921 (\<lambda>_. 0) = (False, \<lambda>_. 0)"
    unfolding fermat_rounds.simps by (simp add: c_rand_def)
  then have "isPrime 65921 (\<lambda>_. 0) = Some (False, \<lambda>_. 0)" by (simp add: isPrime_def)
  then show ?thesis using is_prime_65921 by blast
qed

end
