(* ===== verification/Floats.thy ===== *)
theory Floats
  imports Prelude
begin

section \<open>Floating-point arithmetic\<close>

text \<open>
  C \<open>float\<close> and \<open>double\<close> values are reals, and every operation of the code is the operation on
  reals followed by a rounding: \<open>sgl\<close> to the 24 significant bits of a \<open>float\<close>, \<open>dbl\<close> to the 53 of
  a \<open>double\<close>, to the nearest value with ties to the even one. The exponent range is unbounded, so
  infinities and subnormal numbers do not occur; the code keeps its values far from both ends.

  The locale \<open>rounding\<close> states the laws the component theories use (a rounding is monotone,
  idempotent, symmetric, and exact on zero and one); both roundings are interpretations of it.
\<close>

named_theorems fp \<open>exact cases of the rounding\<close>

subsection \<open>Rounding to an integer, ties to even\<close>

definition rne :: "real \<Rightarrow> int" where
  "rne y = (let f = \<lfloor>y\<rfloor>; d = y - of_int f
     in if d < 1 / 2 then f else if d > 1 / 2 then f + 1 else if even f then f else f + 1)"

lemma rne_bounds: "\<lfloor>y\<rfloor> \<le> rne y" "rne y \<le> \<lfloor>y\<rfloor> + 1"
  by (simp_all add: rne_def Let_def)

lemma rne_of_int [simp]: "rne (of_int n) = n"
  by (simp add: rne_def)

lemma rne_mono:
  assumes "x \<le> y"
  shows "rne x \<le> rne y"
proof (cases "\<lfloor>x\<rfloor> = \<lfloor>y\<rfloor>")
  case True
  then show ?thesis using assms by (auto simp: rne_def Let_def)
next
  case False
  then have "\<lfloor>x\<rfloor> + 1 \<le> \<lfloor>y\<rfloor>" using floor_mono [OF assms] by linarith
  then show ?thesis using rne_bounds [of x] rne_bounds [of y] by linarith
qed

lemma rne_minus: "rne (- y) = - rne y"
proof (cases "y = of_int \<lfloor>y\<rfloor>")
  case True
  then show ?thesis by (metis of_int_minus rne_of_int)
next
  case False
  then have "real_of_int \<lfloor>y\<rfloor> < y" "y < of_int \<lfloor>y\<rfloor> + 1" by linarith+
  then have "\<lfloor>- y\<rfloor> = - \<lfloor>y\<rfloor> - 1" by (intro floor_unique) linarith+
  then show ?thesis by (auto simp: rne_def Let_def)
qed

subsection \<open>Rounding to a number of significant bits\<close>

text \<open>The exponent of the unit in the last place of a \<open>p\<close>-bit significand.\<close>

definition ulp_exp :: "nat \<Rightarrow> real \<Rightarrow> int" where
  "ulp_exp p x = \<lfloor>log 2 \<bar>x\<bar>\<rfloor> - (int p - 1)"

definition round_bits :: "nat \<Rightarrow> real \<Rightarrow> real" where
  "round_bits p x =
     (if x = 0 then 0
      else let u = 2 powr of_int (ulp_exp p x) in of_int (rne (x / u)) * u)"

lemma powr_int_pos [simp]: "0 < (2::real) powr of_int e"
  by simp

lemma round_bits_0 [simp]: "round_bits p 0 = 0"
  by (simp add: round_bits_def)

lemma round_bits_minus: "round_bits p (- x) = - round_bits p x"
  by (simp add: round_bits_def ulp_exp_def rne_minus Let_def)

lemma ulp_exp_bounds:
  assumes "0 < x"
  shows "2 powr of_int (ulp_exp p x + (int p - 1)) \<le> x" "x < 2 powr of_int (ulp_exp p x + int p)"
proof -
  have "of_int \<lfloor>log 2 x\<rfloor> \<le> log 2 x" "log 2 x < of_int (\<lfloor>log 2 x\<rfloor> + 1)" by linarith+
  then show "2 powr of_int (ulp_exp p x + (int p - 1)) \<le> x" "x < 2 powr of_int (ulp_exp p x + int p)"
    using assms by (simp_all add: ulp_exp_def powr_le_iff less_powr_iff)
qed

text \<open>The rounded value stays within the binade, its upper end included.\<close>

lemma round_bits_binade:
  assumes "0 < x" "0 < p"
  shows "2 powr of_int (ulp_exp p x + (int p - 1)) \<le> round_bits p x"
    "round_bits p x \<le> 2 powr of_int (ulp_exp p x + int p)"
proof -
  let ?u = "2 powr of_int (ulp_exp p x) :: real"
  have split: "2 powr of_int (ulp_exp p x + (int p - 1)) = of_int (2 ^ (p - 1)) * ?u"
    "2 powr of_int (ulp_exp p x + int p) = of_int (2 ^ p) * ?u"
    using assms(2) by (simp_all add: powr_add powr_realpow [symmetric] of_nat_diff)
  have "of_int (2 ^ (p - 1)) \<le> x / ?u" "x / ?u \<le> of_int (2 ^ p)"
    using ulp_exp_bounds [OF assms(1), of p] unfolding split by (simp_all add: field_simps)
  then have "2 ^ (p - 1) \<le> rne (x / ?u)" "rne (x / ?u) \<le> 2 ^ p"
    using rne_mono rne_of_int by metis+
  then show "2 powr of_int (ulp_exp p x + (int p - 1)) \<le> round_bits p x"
    "round_bits p x \<le> 2 powr of_int (ulp_exp p x + int p)"
    unfolding split using assms(1) by (auto simp: round_bits_def Let_def mult_right_mono simp flip: of_int_power)
qed

lemma ulp_exp_mono: "0 < x \<Longrightarrow> x \<le> y \<Longrightarrow> ulp_exp p x \<le> ulp_exp p y"
  by (simp add: ulp_exp_def floor_mono)

lemma round_bits_mono_pos:
  assumes "0 < x" "x \<le> y" "0 < p"
  shows "round_bits p x \<le> round_bits p y"
proof (cases "ulp_exp p x = ulp_exp p y")
  case True
  let ?u = "2 powr of_int (ulp_exp p x) :: real"
  have "x / ?u \<le> y / ?u" using assms by (simp add: divide_right_mono)
  then have "rne (x / ?u) \<le> rne (y / ?u)" by (rule rne_mono)
  then show ?thesis using True assms by (simp add: round_bits_def Let_def mult_right_mono)
next
  case False
  then have "ulp_exp p x + int p \<le> ulp_exp p y + (int p - 1)"
    using ulp_exp_mono [OF assms(1,2), of p] by linarith
  then have "2 powr of_int (ulp_exp p x + int p) \<le> (2 powr of_int (ulp_exp p y + (int p - 1)) :: real)"
    by (intro powr_mono) simp_all
  then show ?thesis
    using round_bits_binade(2) [OF assms(1,3)] round_bits_binade(1) [of y p] assms by linarith
qed

lemma round_bits_nonneg:
  assumes "0 \<le> x" "0 < p"
  shows "0 \<le> round_bits p x"
proof (cases "x = 0")
  case False
  then have "2 powr of_int (ulp_exp p x + (int p - 1)) \<le> round_bits p x"
    using assms by (intro round_bits_binade) simp_all
  then show ?thesis using powr_ge_zero order_trans by blast
qed simp

lemma round_bits_mono:
  assumes "x \<le> y" "0 < p"
  shows "round_bits p x \<le> round_bits p y"
proof -
  consider "0 < x" | "x \<le> 0" "0 \<le> y" | "y < 0" by linarith
  then show ?thesis
  proof cases
    case 1
    then show ?thesis using assms by (rule round_bits_mono_pos)
  next
    case 2
    then have "0 \<le> round_bits p (- x)" "0 \<le> round_bits p y" using assms by (simp_all add: round_bits_nonneg)
    then show ?thesis by (simp add: round_bits_minus)
  next
    case 3
    then show ?thesis using round_bits_mono_pos [of "- y" "- x" p] assms by (simp add: round_bits_minus)
  qed
qed

text \<open>A number with at most \<open>p\<close> significant bits is rounded to itself.\<close>

lemma round_bits_exact_pos:
  assumes "x = of_int m * 2 powr of_int e" "0 < m" "m \<le> 2 ^ p" "0 < p"
  shows "round_bits p x = x"
proof -
  have x: "0 < x" using assms by simp
  have up: "(2::real) powr of_int (e + int p) = of_int (2 ^ p) * 2 powr of_int e"
    by (simp add: powr_add powr_realpow)
  show ?thesis
  proof (cases "m = 2 ^ p")
    case True
    have "x = 2 powr of_int (e + int p)" using assms(1) True up by simp
    then have "log 2 x = of_int (e + int p)" by simp
    then have "ulp_exp p x = e + 1" using x by (simp add: ulp_exp_def)
    moreover have "x / 2 powr of_int (e + 1) = of_int (2 ^ (p - 1))"
      using assms(4) by (simp add: assms(1) True powr_add power_eq_if)
    ultimately show ?thesis
      using x by (simp add: round_bits_def Let_def del: of_int_power) (simp add: field_simps)
  next
    case False
    then have "m < 2 ^ p" using assms(3) by simp
    then have "real_of_int m < of_int (2 ^ p)" by (simp only: of_int_less_iff)
    then have "x < 2 powr of_int (e + int p)" using up assms(1) by simp
    then have "log 2 x < of_int (e + int p)" using x by (simp add: less_powr_iff)
    then have le: "ulp_exp p x \<le> e" using x by (simp add: ulp_exp_def floor_less_iff) linarith
    define k where "k = nat (e - ulp_exp p x)"
    have "(2::real) powr of_int e = of_int (2 ^ k) * 2 powr of_int (ulp_exp p x)"
      using le by (simp add: k_def powr_realpow [symmetric] flip: powr_add)
    then have "x = of_int (m * 2 ^ k) * 2 powr of_int (ulp_exp p x)" using assms(1) by (metis mult.assoc of_int_mult)
    then have "x / 2 powr of_int (ulp_exp p x) = of_int (m * 2 ^ k)"
      by (metis nonzero_mult_div_cancel_right powr_int_pos less_irrefl)
    then show ?thesis using x by (simp add: round_bits_def Let_def del: of_int_mult of_int_power) (simp add: field_simps)
  qed
qed

lemma round_bits_exact:
  assumes "x = of_int m * 2 powr of_int e" "\<bar>m\<bar> \<le> 2 ^ p" "0 < p"
  shows "round_bits p x = x"
proof -
  consider "m = 0" | "0 < m" | "m < 0" by linarith
  then show ?thesis
  proof cases
    case 3
    then have "round_bits p (- x) = - x"
      using assms by (intro round_bits_exact_pos [of _ "- m" e]) auto
    then show ?thesis by (simp add: round_bits_minus)
  qed (use assms round_bits_exact_pos in auto)
qed

lemma round_bits_int [fp]: "\<bar>m\<bar> \<le> 2 ^ p \<Longrightarrow> 0 < p \<Longrightarrow> round_bits p (of_int m) = of_int m"
  using round_bits_exact [of "of_int m" m 0 p] by simp

lemma round_bits_form:
  assumes "0 < p"
  obtains m e where "round_bits p x = of_int m * 2 powr of_int e" "\<bar>m\<bar> \<le> 2 ^ p"
proof -
  have pos: "\<exists>m e. round_bits p x = of_int m * 2 powr of_int e \<and> \<bar>m\<bar> \<le> 2 ^ p" if "0 < x" for x
  proof -
    let ?u = "2 powr of_int (ulp_exp p x) :: real"
    have "of_int (rne (x / ?u)) * ?u = round_bits p x" using that by (simp add: round_bits_def Let_def)
    moreover have "round_bits p x \<le> of_int (2 ^ p) * ?u" "0 \<le> round_bits p x"
      using round_bits_binade(2) [OF that assms] round_bits_nonneg [of x p] that assms
      by (simp_all add: powr_add powr_realpow mult.commute)
    ultimately have "real_of_int (rne (x / ?u)) \<le> of_int (2 ^ p)" "0 \<le> real_of_int (rne (x / ?u))"
      by (metis mult_le_cancel_right_pos powr_int_pos, metis zero_le_mult_iff powr_int_pos not_less)
    then have "\<bar>rne (x / ?u)\<bar> \<le> 2 ^ p" by (metis abs_of_nonneg of_int_le_iff of_int_0_le_iff)
    then show ?thesis using \<open>of_int (rne (x / ?u)) * ?u = round_bits p x\<close> by metis
  qed
  have "\<exists>m e. round_bits p x = of_int m * 2 powr of_int e \<and> \<bar>m\<bar> \<le> 2 ^ p"
  proof (cases "x < 0")
    case True
    then obtain m e where "round_bits p (- x) = of_int m * 2 powr of_int e" "\<bar>m\<bar> \<le> 2 ^ p"
      using pos [of "- x"] by auto
    then show ?thesis by (intro exI [of _ "- m"] exI [of _ e]) (simp add: round_bits_minus)
  next
    case False
    then show ?thesis using pos [of x] by (cases "x = 0") (auto intro!: exI [of _ 0])
  qed
  then show ?thesis using that by blast
qed

lemma round_bits_idem:
  assumes "0 < p"
  shows "round_bits p (round_bits p x) = round_bits p x"
  using round_bits_form [OF assms, of x] round_bits_exact [OF _ _ assms] by metis

subsection \<open>The contract of a rounding\<close>

locale rounding =
  fixes rnd :: "real \<Rightarrow> real"
  assumes mono: "x \<le> y \<Longrightarrow> rnd x \<le> rnd y"
    and minus: "rnd (- x) = - rnd x"
    and idem: "rnd (rnd x) = rnd x"
    and one: "rnd 1 = 1"
begin

lemma zero: "rnd 0 = 0"
  using minus [of 0] by simp

lemma nonneg: "0 \<le> x \<Longrightarrow> 0 \<le> rnd x"
  using mono [of 0 x] by (simp add: zero)

lemma nonpos: "x \<le> 0 \<Longrightarrow> rnd x \<le> 0"
  using mono [of x 0] by (simp add: zero)

lemma le_one: "x \<le> 1 \<Longrightarrow> rnd x \<le> 1"
  using mono [of x 1] by (simp add: one)

lemma ge_one: "1 \<le> x \<Longrightarrow> 1 \<le> rnd x"
  using mono [of 1 x] by (simp add: one)

lemma unit: "0 \<le> x \<Longrightarrow> x \<le> 1 \<Longrightarrow> 0 \<le> rnd x \<and> rnd x \<le> 1"
  by (simp add: nonneg le_one)

text \<open>A quotient of rounded values compares with one as the values do.\<close>

lemma div_le_one: "0 \<le> x \<Longrightarrow> x \<le> y \<Longrightarrow> rnd (x / y) \<le> 1"
  by (intro le_one) (auto simp: divide_le_eq_1)

lemma abs: "\<bar>rnd x\<bar> = rnd \<bar>x\<bar>"
  using nonneg [of x] nonpos [of x] by (cases "0 \<le> x") (auto simp: minus)

end

definition sgl :: "real \<Rightarrow> real" where "sgl = round_bits 24"

definition dbl :: "real \<Rightarrow> real" where "dbl = round_bits 53"

lemma rounding_round_bits: "0 < p \<Longrightarrow> rounding (round_bits p)"
  by unfold_locales (simp_all add: round_bits_mono round_bits_minus round_bits_idem round_bits_int [of 1, simplified])

interpretation sgl: rounding sgl
  unfolding sgl_def by (rule rounding_round_bits) simp

interpretation dbl: rounding dbl
  unfolding dbl_def by (rule rounding_round_bits) simp

declare sgl.zero [simp] sgl.one [simp] dbl.zero [simp] dbl.one [simp] sgl.idem [simp] dbl.idem [simp]

lemma sgl_int [fp]: "\<bar>m\<bar> \<le> 2 ^ 24 \<Longrightarrow> sgl (of_int m) = of_int m"
  unfolding sgl_def by (rule round_bits_int) simp_all

lemma dbl_int [fp]: "\<bar>m\<bar> \<le> 2 ^ 53 \<Longrightarrow> dbl (of_int m) = of_int m"
  unfolding dbl_def by (rule round_bits_int) simp_all

lemma sgl_numeral [fp]: "(numeral w :: int) \<le> 2 ^ 24 \<Longrightarrow> sgl (numeral w) = numeral w"
  using sgl_int [of "numeral w"] by simp

lemma dbl_numeral [fp]: "(numeral w :: int) \<le> 2 ^ 53 \<Longrightarrow> dbl (numeral w) = numeral w"
  using dbl_int [of "numeral w"] by simp

text \<open>Dyadic fractions, for the evaluation of examples.\<close>

lemma sgl_dyadic [fp]: "\<bar>m\<bar> \<le> 2 ^ 24 \<Longrightarrow> sgl (of_int m / 2 ^ k) = of_int m / 2 ^ k"
  unfolding sgl_def
  by (rule round_bits_exact [where m = m and e = "- int k"]) (simp_all add: powr_minus powr_realpow divide_simps)

lemma dbl_dyadic [fp]: "\<bar>m\<bar> \<le> 2 ^ 53 \<Longrightarrow> dbl (of_int m / 2 ^ k) = of_int m / 2 ^ k"
  unfolding dbl_def
  by (rule round_bits_exact [where m = m and e = "- int k"]) (simp_all add: powr_minus powr_realpow divide_simps)

text \<open>A \<open>float\<close> is a \<open>double\<close>: conversion to the wider type does not change a value.\<close>

lemma dbl_sgl [simp]: "dbl (sgl x) = sgl x"
proof -
  obtain m e where "round_bits 24 x = of_int m * 2 powr of_int e" "\<bar>m\<bar> \<le> 2 ^ 24"
    by (rule round_bits_form [of 24 x]) simp_all
  then show ?thesis unfolding sgl_def dbl_def by (intro round_bits_exact) auto
qed

lemma sgl_half [fp]: "sgl (1 / 2) = 1 / 2"
  using sgl_dyadic [of 1 1] by simp

subsection \<open>The size of the rounding error\<close>

lemma rne_error: "of_int (rne y) \<le> y + 1 / 2"
  by (auto simp: rne_def Let_def) linarith

lemma half_ulp:
  assumes "0 < x" "0 < p"
  shows "2 powr of_int (ulp_exp p x) / 2 \<le> x / 2 ^ p"
proof -
  let ?u = "2 powr of_int (ulp_exp p x) :: real"
  have "2 powr of_int (ulp_exp p x + (int p - 1)) = 2 ^ (p - 1) * ?u"
    using assms(2) by (simp add: powr_add powr_realpow [symmetric] of_nat_diff)
  then have u: "2 ^ (p - 1) * ?u \<le> x" using ulp_exp_bounds(1) [OF assms(1), of p] by simp
  have "2 ^ p * (?u / 2) = 2 ^ (p - 1) * ?u" using assms(2) by (cases p) simp_all
  then show ?thesis using u by (simp add: field_simps)
qed

lemma round_bits_error:
  assumes "0 < x" "0 < p"
  shows "round_bits p x \<le> x * (1 + 1 / 2 ^ p)"
proof -
  let ?u = "2 powr of_int (ulp_exp p x) :: real"
  note half = half_ulp [OF assms]
  have "round_bits p x \<le> (x / ?u + 1 / 2) * ?u"
    using assms(1) rne_error [of "x / ?u"] by (simp add: round_bits_def Let_def)
  also have "\<dots> = x + ?u / 2" by (simp add: distrib_right)
  also have "\<dots> \<le> x * (1 + 1 / 2 ^ p)" using half by (simp add: distrib_left)
  finally show ?thesis .
qed

lemma round_bits_error_below:
  assumes "0 < x" "0 < p"
  shows "x * (1 - 1 / 2 ^ p) \<le> round_bits p x"
proof -
  let ?u = "2 powr of_int (ulp_exp p x) :: real"
  note half = half_ulp [OF assms]
  have "x / ?u - 1 / 2 \<le> of_int (rne (x / ?u))" using rne_error [of "- (x / ?u)"] by (simp add: rne_minus)
  then have "(x / ?u - 1 / 2) * ?u \<le> round_bits p x" using assms(1) by (simp add: round_bits_def Let_def)
  then have "x - ?u / 2 \<le> round_bits p x" by (simp add: left_diff_distrib)
  then show ?thesis using half by (simp add: right_diff_distrib)
qed

text \<open>The point halfway between one and its successor is rounded down to one.\<close>

lemma sgl_above_one: "x \<le> 1 + 1 / 2 ^ 24 \<Longrightarrow> sgl x \<le> 1"
proof -
  let ?h = "1 + 1 / 2 ^ 24 :: real"
  have "log 2 ?h < log 2 2" by (subst log_less_cancel_iff) simp_all
  moreover have "0 \<le> log 2 ?h" by simp
  ultimately have "\<lfloor>log 2 \<bar>?h\<bar>\<rfloor> = 0" by (simp add: floor_eq_iff)
  then have e: "ulp_exp 24 ?h = - 23" by (simp add: ulp_exp_def)
  have u: "(2::real) powr of_int (- 23) = 1 / 2 ^ 23" by (simp add: powr_minus powr_realpow [of 2 23, simplified] divide_simps)
  have r: "rne (?h / (1 / 2 ^ 23)) = 2 ^ 23"
  proof -
    have h: "?h / (1 / 2 ^ 23) = of_int (2 ^ 23) + 1 / 2" by simp
    have f: "\<lfloor>real_of_int (2 ^ 23) + 1 / 2\<rfloor> = 2 ^ 23" by simp
    show ?thesis unfolding h rne_def f Let_def by simp
  qed
  have "round_bits 24 ?h = 1" unfolding round_bits_def e u Let_def r by simp
  moreover assume "x \<le> ?h"
  then have "sgl x \<le> sgl ?h" by (rule sgl.mono)
  ultimately show ?thesis by (simp add: sgl_def)
qed

lemma sgl_pos: "0 < x \<Longrightarrow> 0 < sgl x"
proof -
  assume "0 < x"
  then obtain k where "(1 / 2) ^ k < x" using real_arch_pow_inv [of x "1 / 2"] by auto
  then have "1 / 2 ^ k \<le> sgl x" using sgl.mono [of "1 / 2 ^ k" x] sgl_dyadic [of 1 k] by (simp add: power_one_over)
  then show ?thesis by (meson less_le_trans zero_less_divide_1_iff zero_less_numeral zero_less_power)
qed

subsection \<open>The operations of the code\<close>

text \<open>\<open>fadd\<close> and its companions are the operators on \<open>float\<close> operands, \<open>dadd\<close> and its companions the
  ones with a \<open>double\<close> operand; assigning a \<open>double\<close> to a \<open>float\<close> is one more \<open>sgl\<close>. \<open>sqrt\<close> and \<open>pow\<close>
  of the C library are taken to be correctly rounded. A division by zero leaves the model.\<close>

definition fadd :: "real \<Rightarrow> real \<Rightarrow> real" where "fadd x y = sgl (x + y)"
definition fsub :: "real \<Rightarrow> real \<Rightarrow> real" where "fsub x y = sgl (x - y)"
definition fmul :: "real \<Rightarrow> real \<Rightarrow> real" where "fmul x y = sgl (x * y)"
definition fdiv :: "real \<Rightarrow> real \<Rightarrow> real" where "fdiv x y = sgl (x / y)"
definition dadd :: "real \<Rightarrow> real \<Rightarrow> real" where "dadd x y = dbl (x + y)"
definition dsub :: "real \<Rightarrow> real \<Rightarrow> real" where "dsub x y = dbl (x - y)"
definition dmul :: "real \<Rightarrow> real \<Rightarrow> real" where "dmul x y = dbl (x * y)"
definition ddiv :: "real \<Rightarrow> real \<Rightarrow> real" where "ddiv x y = dbl (x / y)"
definition dsqrt :: "real \<Rightarrow> real" where "dsqrt x = dbl (sqrt x)"
definition dpow :: "real \<Rightarrow> real \<Rightarrow> real" where "dpow x y = dbl (x powr y)"

lemmas fp_ops = fadd_def fsub_def fmul_def fdiv_def dadd_def dsub_def dmul_def ddiv_def dsqrt_def dpow_def

lemma fp_nonneg [simp]:
  "0 \<le> x \<Longrightarrow> 0 \<le> y \<Longrightarrow> 0 \<le> fadd x y" "0 \<le> x \<Longrightarrow> 0 \<le> y \<Longrightarrow> 0 \<le> fmul x y" "0 \<le> x \<Longrightarrow> 0 \<le> y \<Longrightarrow> 0 \<le> fdiv x y"
  "0 \<le> x \<Longrightarrow> 0 \<le> y \<Longrightarrow> 0 \<le> dadd x y" "0 \<le> x \<Longrightarrow> 0 \<le> y \<Longrightarrow> 0 \<le> dmul x y" "0 \<le> x \<Longrightarrow> 0 \<le> y \<Longrightarrow> 0 \<le> ddiv x y"
  "0 \<le> x \<Longrightarrow> 0 \<le> dsqrt x" "0 \<le> dpow x y" "0 \<le> fmul x x" "0 \<le> dmul x x"
  by (simp_all add: fp_ops sgl.nonneg dbl.nonneg)

lemma fp_pos: "0 < x \<Longrightarrow> 0 < y \<Longrightarrow> 0 < fdiv x y" "0 < x \<Longrightarrow> 0 < y \<Longrightarrow> 0 < fmul x y"
  "0 \<le> x \<Longrightarrow> 0 < y \<Longrightarrow> 0 < fadd x y"
  by (simp_all add: fp_ops sgl_pos)

lemma dbl_pos: "0 < x \<Longrightarrow> 0 < dbl x"
  using round_bits_error_below [of x 53] by (simp add: dbl_def)

lemma fmul_commute: "fmul x y = fmul y x"
  by (simp add: fmul_def mult.commute)

end
