(* ===== verification/Resource.thy ===== *)
theory Resource
  imports Floats
begin

section \<open>Logical entities and resources (system/le.c, system/resource.c)\<close>

text \<open>
  A logical entity (LE, a pod) demands an amount of each resource; a physical entity (PE, a node)
  holds a \<open>resource\<close>: for each kind of resource its capacity, its usage and whether allocation may
  overflow the capacity. Amounts are C \<open>int\<close>s and every sum and difference is reduced to 32 bits.
  The operations read and write the arrays element by element in the order of the code; reading
  past the end of an array is the failure \<^term>\<open>None\<close>.

  The theory shows what each operation computes, that \<open>resource_release\<close> undoes \<open>resource_use\<close>,
  that an LE admitted by \<open>resource_canuse\<close> does not push a resource over its capacity unless the
  resource allows overflow, and that utilisations lie between 0 and 1.
\<close>

subsection \<open>Logical entities\<close>

record le =
  le_label :: string
  demand :: "int list"
  numdemand :: nat
  host :: "nat option"

definition le_create :: "string \<Rightarrow> int list \<Rightarrow> nat \<Rightarrow> le option" where
  "le_create name dem n =
     do { d \<leftarrow> for_each (\<lambda>i d. do { x \<leftarrow> rd dem i; wr d i x }) [0..<n] (replicate n 0);
          Some \<lparr>le_label = name, demand = d, numdemand = n, host = None\<rparr> }"

definition le_getname :: "le \<Rightarrow> string" where
  "le_getname e = le_label e"

definition le_ishosted :: "le \<Rightarrow> bool" where
  "le_ishosted e \<longleftrightarrow> host e \<noteq> None"

definition le_gethost :: "le \<Rightarrow> nat option" where
  "le_gethost e = host e"

definition le_sethost :: "le \<Rightarrow> nat option \<Rightarrow> le" where
  "le_sethost e p = e\<lparr>host := p\<rparr>"

definition le_getdemand :: "le \<Rightarrow> int list" where
  "le_getdemand e = demand e"

definition le_getnumdemand :: "le \<Rightarrow> nat" where
  "le_getnumdemand e = numdemand e"

subsection \<open>Resources\<close>

record resource =
  rnum :: nat
  capacity :: "int list"
  usage :: "int list"
  allowoverflow :: "bool list"

definition resource_create :: "nat \<Rightarrow> int list \<Rightarrow> bool list option \<Rightarrow> resource option" where
  "resource_create n cap ovf =
     do { (c, v) \<leftarrow> for_each (\<lambda>i (c, v).
              do { x \<leftarrow> rd cap i; c' \<leftarrow> wr c i x;
                   b \<leftarrow> (case ovf of Some a \<Rightarrow> rd a i | None \<Rightarrow> Some False); v' \<leftarrow> wr v i b;
                   Some (c', v') }) [0..<n] (replicate n 0, replicate n False);
          Some \<lparr>rnum = n, capacity = c, usage = replicate n 0, allowoverflow = v\<rparr> }"

definition resource_canuse :: "resource \<Rightarrow> le \<Rightarrow> bool option" where
  "resource_canuse r e =
     for_each (\<lambda>i ok.
       do { ovf \<leftarrow> rd (allowoverflow r) i;
            fits \<leftarrow> (if ovf then Some True
                     else do { d \<leftarrow> rd (le_getdemand e) i; c \<leftarrow> rd (capacity r) i; u \<leftarrow> rd (usage r) i;
                               Some (d \<le> s32 (c - u)) });
            Some (ok \<and> fits) }) [0..<rnum r] True"

definition resource_use :: "resource \<Rightarrow> le \<Rightarrow> (bool \<times> resource) option" where
  "resource_use r e =
     do { (us, normal) \<leftarrow> for_each (\<lambda>i (us, normal).
              do { u \<leftarrow> rd us i; d \<leftarrow> rd (le_getdemand e) i; us' \<leftarrow> wr us i (s32 (u + d));
                   c \<leftarrow> rd (capacity r) i; u' \<leftarrow> rd us' i;
                   Some (us', if c < u' then False else normal) }) [0..<rnum r] (usage r, True);
          Some (normal, r\<lparr>usage := us\<rparr>) }"

definition resource_release :: "resource \<Rightarrow> le \<Rightarrow> (bool \<times> resource) option" where
  "resource_release r e =
     do { (us, normal) \<leftarrow> for_each (\<lambda>i (us, normal).
              do { u \<leftarrow> rd us i; d \<leftarrow> rd (le_getdemand e) i; us' \<leftarrow> wr us i (s32 (u - d));
                   u' \<leftarrow> rd us' i;
                   if u' < 0 then do { us'' \<leftarrow> wr us' i 0; Some (us'', False) } else Some (us', normal) })
            [0..<rnum r] (usage r, True);
          Some (normal, r\<lparr>usage := us\<rparr>) }"

definition resource_getnum :: "resource \<Rightarrow> nat" where
  "resource_getnum r = rnum r"

text \<open>A fraction of two \<open>int\<close>s in \<open>float\<close> arithmetic.\<close>

definition float_ratio :: "int \<Rightarrow> int \<Rightarrow> real" where
  "float_ratio u c = sgl (sgl (of_int u) / sgl (of_int c))"

definition resource_getutilization :: "resource \<Rightarrow> real list option" where
  "resource_getutilization r =
     for_each (\<lambda>i us.
       do { c \<leftarrow> rd (capacity r) i; u \<leftarrow> rd (usage r) i;
            wr us i (if c = 0 then if u = 0 then 0 else 1
                     else let x = float_ratio u c; x = (if x > 1 then 1 else x) in if x < 0 then 0 else x) })
       [0..<rnum r] (replicate (rnum r) 0)"

definition resource_getoverutilization :: "resource \<Rightarrow> real list option" where
  "resource_getoverutilization r =
     for_each (\<lambda>i us.
       do { c \<leftarrow> rd (capacity r) i; u \<leftarrow> rd (usage r) i;
            wr us i (if c = 0 then if u = 0 then 0 else 1
                     else let x = float_ratio u c in if x > 1 then sgl (x - 1) else 0) })
       [0..<rnum r] (replicate (rnum r) 0)"

definition resource_getcapacity :: "resource \<Rightarrow> int list" where
  "resource_getcapacity r = capacity r"

definition resource_setcapacity :: "resource \<Rightarrow> int list \<Rightarrow> resource option" where
  "resource_setcapacity r cap =
     do { cs \<leftarrow> for_each (\<lambda>i cs. do { x \<leftarrow> rd cap i; wr cs i (if 0 \<le> x then x else 0) }) [0..<rnum r] (capacity r);
          Some (r\<lparr>capacity := cs\<rparr>) }"

definition resource_getusage :: "resource \<Rightarrow> int list" where
  "resource_getusage r = usage r"

definition resource_setusage :: "resource \<Rightarrow> int list \<Rightarrow> resource option" where
  "resource_setusage r use =
     do { us \<leftarrow> for_each (\<lambda>i us. do { x \<leftarrow> rd use i; wr us i (if 0 \<le> x then x else 0) }) [0..<rnum r] (usage r);
          Some (r\<lparr>usage := us\<rparr>) }"

definition resource_incrementusage :: "resource \<Rightarrow> int list \<Rightarrow> resource option" where
  "resource_incrementusage r delta =
     do { us \<leftarrow> for_each (\<lambda>i us. do { u \<leftarrow> rd us i; x \<leftarrow> rd delta i; us' \<leftarrow> wr us i (s32 (u + x));
                                    u' \<leftarrow> rd us' i; if u' < 0 then wr us' i 0 else Some us' })
                 [0..<rnum r] (usage r);
          Some (r\<lparr>usage := us\<rparr>) }"

definition resource_getavailability :: "resource \<Rightarrow> int list option" where
  "resource_getavailability r =
     for_each (\<lambda>i a. do { c \<leftarrow> rd (capacity r) i; u \<leftarrow> rd (usage r) i;
                         let avail = s32 (c - u) in wr a i (if 0 \<le> avail then avail else 0) })
       [0..<rnum r] (replicate (rnum r) 0)"

definition resource_isnormalload :: "resource \<Rightarrow> bool option" where
  "resource_isnormalload r =
     for_each (\<lambda>i normal. do { u \<leftarrow> rd (usage r) i; c \<leftarrow> rd (capacity r) i;
                              Some (if c < u then False else normal) }) [0..<rnum r] True"

definition resource_allowoverflow :: "resource \<Rightarrow> bool list" where
  "resource_allowoverflow r = allowoverflow r"

subsection \<open>Invariant\<close>

text \<open>\<open>res_wf\<close>: the three arrays have \<open>rnum\<close> elements, which every operation keeps. \<open>res_ok\<close>: moreover
  amounts are \<open>int\<close>s and not negative, which the setters establish whatever they are given.\<close>

definition amounts_ok :: "int list \<Rightarrow> bool" where
  "amounts_ok xs \<longleftrightarrow> (\<forall>x\<in>set xs. 0 \<le> x \<and> in_s32 x)"

definition res_wf :: "resource \<Rightarrow> bool" where
  "res_wf r \<longleftrightarrow> length (capacity r) = rnum r \<and> length (usage r) = rnum r \<and> length (allowoverflow r) = rnum r"

definition res_ok :: "resource \<Rightarrow> bool" where
  "res_ok r \<longleftrightarrow> res_wf r \<and> amounts_ok (capacity r) \<and> amounts_ok (usage r)"

definition le_fits :: "nat \<Rightarrow> le \<Rightarrow> bool" where
  "le_fits n e \<longleftrightarrow> n \<le> length (demand e)"

lemma amounts_okD: "amounts_ok xs \<Longrightarrow> i < length xs \<Longrightarrow> 0 \<le> xs ! i \<and> in_s32 (xs ! i)"
  by (simp add: amounts_ok_def)

lemma amounts_ok_nth: "amounts_ok xs \<longleftrightarrow> (\<forall>i<length xs. 0 \<le> xs ! i \<and> in_s32 (xs ! i))"
  by (simp add: amounts_ok_def all_set_conv_all_nth)

lemma res_okD:
  assumes "res_ok r"
  shows "length (capacity r) = rnum r" "length (usage r) = rnum r" "length (allowoverflow r) = rnum r"
    "i < rnum r \<Longrightarrow> 0 \<le> capacity r ! i" "i < rnum r \<Longrightarrow> in_s32 (capacity r ! i)"
    "i < rnum r \<Longrightarrow> 0 \<le> usage r ! i" "i < rnum r \<Longrightarrow> in_s32 (usage r ! i)"
  using assms by (auto simp: res_ok_def res_wf_def amounts_ok_nth)

lemma res_wfD:
  assumes "res_wf r"
  shows "length (capacity r) = rnum r" "length (usage r) = rnum r" "length (allowoverflow r) = rnum r"
  using assms by (simp_all add: res_wf_def)

lemma res_ok_wf [simp]: "res_ok r \<Longrightarrow> res_wf r"
  by (simp add: res_ok_def)

lemma res_wf_upd [simp]:
  "length us = rnum r \<Longrightarrow> res_wf r \<Longrightarrow> res_wf (r\<lparr>usage := us\<rparr>)"
  "length cs = rnum r \<Longrightarrow> res_wf r \<Longrightarrow> res_wf (r\<lparr>capacity := cs\<rparr>)"
  by (simp_all add: res_wf_def)

lemmas res_defs = le_getdemand_def resource_getnum_def resource_getcapacity_def resource_getusage_def

subsection \<open>What the operations compute\<close>


lemma map_nth_take: "n \<le> length xs \<Longrightarrow> map (\<lambda>i. f (xs ! i)) [0..<n] = map f (take n xs)"
  by (auto simp: list_eq_iff_nth_eq)

lemma le_create_eq:
  "n \<le> length dem \<Longrightarrow>
     le_create name dem n = Some \<lparr>le_label = name, demand = take n dem, numdemand = n, host = None\<rparr>"
  by (simp add: le_create_def for_each_update [where g = "\<lambda>i _. dem ! i"] map_nth_take [where f = id, simplified])

definition ovf_flags :: "nat \<Rightarrow> bool list option \<Rightarrow> bool list" where
  "ovf_flags n ovf = (case ovf of Some a \<Rightarrow> take n a | None \<Rightarrow> replicate n False)"

lemma resource_create_eq:
  assumes "n \<le> length cap" "\<And>a. ovf = Some a \<Longrightarrow> n \<le> length a"
  shows "resource_create n cap ovf =
    Some \<lparr>rnum = n, capacity = take n cap, usage = replicate n 0, allowoverflow = ovf_flags n ovf\<rparr>"
proof -
  let ?h = "\<lambda>i. case ovf of Some a \<Rightarrow> a ! i | None \<Rightarrow> False"
  have "map ?h [0..<n] = ovf_flags n ovf"
    using assms(2) by (auto simp: ovf_flags_def list_eq_iff_nth_eq split: option.split)
  moreover have "map ((!) cap) [0..<n] = take n cap"
    using assms(1) by (auto simp: list_eq_iff_nth_eq)
  ultimately show ?thesis
    using assms unfolding resource_create_def
    by (subst for_each_fill2 [where g = "(!) cap" and h = ?h]) (auto split: option.split)
qed

lemma resource_canuse_eq:
  assumes "res_ok r" "le_fits (rnum r) e"
  shows "resource_canuse r e =
    Some (\<forall>i<rnum r. allowoverflow r ! i \<or> demand e ! i \<le> capacity r ! i - usage r ! i)"
proof -
  have "s32 (capacity r ! i - usage r ! i) = capacity r ! i - usage r ! i" if "i < rnum r" for i
    using res_okD [OF assms(1)] that by (intro s32_sub_nonneg) auto
  then show ?thesis
    unfolding resource_canuse_def using assms res_okD(1-3) [OF assms(1)]
    by (subst for_each_conj [where P = "\<lambda>i. allowoverflow r ! i \<or> demand e ! i \<le> capacity r ! i - usage r ! i"])
      (auto simp: res_defs le_fits_def)
qed

definition used :: "resource \<Rightarrow> le \<Rightarrow> int list" where
  "used r e = map (\<lambda>i. s32 (usage r ! i + demand e ! i)) [0..<rnum r]"

definition released :: "resource \<Rightarrow> le \<Rightarrow> int list" where
  "released r e = map (\<lambda>i. max 0 (s32 (usage r ! i - demand e ! i))) [0..<rnum r]"

lemma resource_use_eq:
  assumes "res_wf r" "le_fits (rnum r) e"
  shows "resource_use r e = Some (\<forall>i<rnum r. used r e ! i \<le> capacity r ! i, r\<lparr>usage := used r e\<rparr>)"
  unfolding resource_use_def using assms res_wfD [OF assms(1)]
  by (subst for_each_update_flag [where g = "\<lambda>i u. s32 (u + demand e ! i)"
        and P = "\<lambda>i. s32 (usage r ! i + demand e ! i) \<le> capacity r ! i"])
    (auto simp: res_defs le_fits_def used_def)

lemma resource_release_eq:
  assumes "res_wf r" "le_fits (rnum r) e"
  shows "resource_release r e =
    Some (\<forall>i<rnum r. 0 \<le> s32 (usage r ! i - demand e ! i), r\<lparr>usage := released r e\<rparr>)"
  unfolding resource_release_def using assms res_wfD [OF assms(1)]
  by (subst for_each_update_flag [where g = "\<lambda>i u. max 0 (s32 (u - demand e ! i))"
        and P = "\<lambda>i. 0 \<le> s32 (usage r ! i - demand e ! i)"])
    (auto simp: res_defs le_fits_def released_def max_def)

lemma resource_setcapacity_eq:
  "length (capacity r) = rnum r \<Longrightarrow> rnum r \<le> length cap \<Longrightarrow>
   resource_setcapacity r cap = Some (r\<lparr>capacity := map (max 0) (take (rnum r) cap)\<rparr>)"
  unfolding resource_setcapacity_def
  by (subst for_each_update [where g = "\<lambda>i _. max 0 (cap ! i)"])
    (auto simp: map_nth_take [of _ _ "max 0"] max.absorb1 max.absorb2)

lemma resource_setusage_eq:
  "length (usage r) = rnum r \<Longrightarrow> rnum r \<le> length use \<Longrightarrow>
   resource_setusage r use = Some (r\<lparr>usage := map (max 0) (take (rnum r) use)\<rparr>)"
  unfolding resource_setusage_def
  by (subst for_each_update [where g = "\<lambda>i _. max 0 (use ! i)"])
    (auto simp: map_nth_take [of _ _ "max 0"] max.absorb1 max.absorb2)

lemma resource_incrementusage_eq:
  assumes "length (usage r) = rnum r" "rnum r \<le> length delta"
  shows "resource_incrementusage r delta =
    Some (r\<lparr>usage := map (\<lambda>i. max 0 (s32 (usage r ! i + delta ! i))) [0..<rnum r]\<rparr>)"
  unfolding resource_incrementusage_def using assms
  by (subst for_each_update [where g = "\<lambda>i u. max 0 (s32 (u + delta ! i))"]) (auto simp: max_def)

lemma resource_isnormalload_eq:
  "res_wf r \<Longrightarrow> resource_isnormalload r = Some (\<forall>i<rnum r. usage r ! i \<le> capacity r ! i)"
  unfolding resource_isnormalload_def using res_wfD(1-2) [of r]
  by (subst for_each_conj [where P = "\<lambda>i. usage r ! i \<le> capacity r ! i"]) auto

lemma resource_getavailability_eq:
  assumes "res_ok r"
  shows "resource_getavailability r = Some (map (\<lambda>i. max 0 (capacity r ! i - usage r ! i)) [0..<rnum r])"
proof -
  have "s32 (capacity r ! i - usage r ! i) = capacity r ! i - usage r ! i" if "i < rnum r" for i
    using res_okD [OF assms(1)] that by (intro s32_sub_nonneg) auto
  then show ?thesis
    unfolding resource_getavailability_def using res_okD(1-2) [OF assms]
    by (subst for_each_update [where g = "\<lambda>i _. max 0 (capacity r ! i - usage r ! i)"]) (auto simp: max_def)
qed

text \<open>The utilisation of one resource, and by how much it is over-utilised.\<close>

definition util1 :: "int \<Rightarrow> int \<Rightarrow> real" where
  "util1 u c = (if c = 0 then if u = 0 then 0 else 1 else max 0 (min 1 (float_ratio u c)))"

definition overutil1 :: "int \<Rightarrow> int \<Rightarrow> real" where
  "overutil1 u c = (if c = 0 then if u = 0 then 0 else 1 else if float_ratio u c > 1 then sgl (float_ratio u c - 1) else 0)"

lemma resource_getutilization_eq:
  assumes "length (capacity r) = rnum r" "length (usage r) = rnum r"
  shows "resource_getutilization r = Some (map (\<lambda>i. util1 (usage r ! i) (capacity r ! i)) [0..<rnum r])"
  unfolding resource_getutilization_def using assms
  by (subst for_each_update [where g = "\<lambda>i _. util1 (usage r ! i) (capacity r ! i)"])
    (auto simp: util1_def Let_def max_def min_def)

lemma resource_getoverutilization_eq:
  assumes "length (capacity r) = rnum r" "length (usage r) = rnum r"
  shows "resource_getoverutilization r = Some (map (\<lambda>i. overutil1 (usage r ! i) (capacity r ! i)) [0..<rnum r])"
  unfolding resource_getoverutilization_def using assms
  by (subst for_each_update [where g = "\<lambda>i _. overutil1 (usage r ! i) (capacity r ! i)"])
    (auto simp: overutil1_def Let_def)

subsection \<open>The invariant is kept\<close>

lemma amounts_ok_max [simp]: "\<forall>x\<in>set xs. in_s32 x \<Longrightarrow> amounts_ok (map (max 0) xs)"
  by (auto simp: amounts_ok_def max_def)

lemma res_ok_usage:
  "res_ok r \<Longrightarrow> length us = rnum r \<Longrightarrow> amounts_ok us \<Longrightarrow> res_ok (r\<lparr>usage := us\<rparr>)"
  by (simp add: res_ok_def res_wf_def)

lemma res_ok_capacity:
  "res_ok r \<Longrightarrow> length cs = rnum r \<Longrightarrow> amounts_ok cs \<Longrightarrow> res_ok (r\<lparr>capacity := cs\<rparr>)"
  by (simp add: res_ok_def res_wf_def)

lemma released_ok: "res_ok r \<Longrightarrow> res_ok (r\<lparr>usage := released r e\<rparr>)"
  by (rule res_ok_usage) (auto simp: released_def amounts_ok_def max_def)

text \<open>Usage plus demand as an \<open>int\<close>, when no sum overflows.\<close>

definition sum_ok :: "resource \<Rightarrow> le \<Rightarrow> bool" where
  "sum_ok r e \<longleftrightarrow> (\<forall>i<rnum r. 0 \<le> usage r ! i + demand e ! i \<and> in_s32 (usage r ! i + demand e ! i))"

lemma used_sum: "sum_ok r e \<Longrightarrow> i < rnum r \<Longrightarrow> used r e ! i = usage r ! i + demand e ! i"
  by (simp add: used_def sum_ok_def)

lemma used_ok: "res_ok r \<Longrightarrow> sum_ok r e \<Longrightarrow> res_ok (r\<lparr>usage := used r e\<rparr>)"
  by (rule res_ok_usage) (auto simp: amounts_ok_nth used_sum sum_ok_def, simp_all add: used_def)

lemma used_length [simp]: "length (used r e) = rnum r" "length (released r e) = rnum r"
  by (simp_all add: used_def released_def)

text \<open>Releasing what was used, also when the sum wrapped around.\<close>

lemma released_used:
  assumes "res_ok r"
  shows "released (r\<lparr>usage := used r e\<rparr>) e = usage r"
proof (rule nth_equalityI)
  fix i assume "i < length (released (r\<lparr>usage := used r e\<rparr>) e)"
  then have i: "i < rnum r" by simp
  then have "s32 (s32 (usage r ! i + demand e ! i) - demand e ! i) = usage r ! i"
    using res_okD(7) [OF assms] by (simp add: s32_add_sub_cancel)
  then show "released (r\<lparr>usage := used r e\<rparr>) e ! i = usage r ! i"
    using i res_okD(6) [OF assms i] by (simp add: released_def used_def)
qed (use res_okD(2) [OF assms] in simp)

text \<open>\<open>resource_release\<close> after \<open>resource_use\<close>, whatever the invariant says of the state between.\<close>

lemma resource_release_used:
  assumes "res_ok r" "le_fits (rnum r) e"
  shows "resource_release (r\<lparr>usage := used r e\<rparr>) e = Some (True, r)"
proof -
  let ?r = "r\<lparr>usage := used r e\<rparr>"
  have eq: "s32 (used r e ! i - demand e ! i) = usage r ! i" if "i < rnum r" for i
    using res_okD(7) [OF assms(1) that] that by (simp add: used_def s32_add_sub_cancel)
  have nn: "\<not> s32 (used r e ! i - demand e ! i) < 0" if "i < rnum r" for i
    using eq [OF that] res_okD(6) [OF assms(1) that] by simp
  have "for_each (\<lambda>i (us, normal).
      do { u \<leftarrow> rd us i; d \<leftarrow> rd (le_getdemand e) i; us' \<leftarrow> wr us i (s32 (u - d)); u' \<leftarrow> rd us' i;
           if u' < 0 then do { us'' \<leftarrow> wr us' i 0; Some (us'', False) } else Some (us', normal) })
      [0..<rnum r] (used r e, True)
    = Some (map (\<lambda>i. s32 (used r e ! i - demand e ! i)) [0..<rnum r] @ drop (rnum r) (used r e),
        True \<and> (\<forall>i<rnum r. True))"
    using assms(2)
    by (intro for_each_update_flag [where g = "\<lambda>i u. s32 (u - demand e ! i)" and P = "\<lambda>_. True"])
      (auto simp: res_defs le_fits_def nn)
  moreover have "map (\<lambda>i. s32 (used r e ! i - demand e ! i)) [0..<rnum r] = usage r"
    using eq res_okD(2) [OF assms(1)] by (auto simp: list_eq_iff_nth_eq)
  ultimately show ?thesis by (simp add: resource_release_def)
qed

lemma float_ratio_nonneg: "0 \<le> u \<Longrightarrow> 0 \<le> c \<Longrightarrow> 0 \<le> float_ratio u c"
  by (simp add: float_ratio_def sgl.nonneg)

lemma float_ratio_le_one:
  assumes "0 \<le> u" "u \<le> c"
  shows "float_ratio u c \<le> 1"
proof -
  have "0 \<le> sgl (of_int u)" "sgl (of_int u) \<le> sgl (of_int c)"
    using assms by (simp_all add: sgl.nonneg sgl.mono)
  then show ?thesis unfolding float_ratio_def by (rule sgl.div_le_one)
qed

lemma util1_unit: "0 \<le> util1 u c" "util1 u c \<le> 1"
  by (simp_all add: util1_def)

subsection \<open>Properties of resources\<close>

text \<open>\<open>resource_release\<close> undoes \<open>resource_use\<close>: after an LE is given its demand and gives it back,
  the resource is exactly as before, also when the sum of usage and demand wrapped around.\<close>

theorem resource_use_release:
  assumes "res_ok r" "le_fits (rnum r) e"
  shows "\<exists>normal r'. resource_use r e = Some (normal, r') \<and> resource_release r' e = Some (True, r)"
  using resource_use_eq [OF res_ok_wf [OF assms(1)] assms(2)] resource_release_used [OF assms] by blast

definition sample_res :: resource where
  "sample_res = \<lparr>rnum = 2, capacity = [4, 16], usage = [1, 10], allowoverflow = [False, True]\<rparr>"

definition sample_le :: le where
  "sample_le = \<lparr>le_label = ''pod'', demand = [2, 8], numdemand = 2, host = None\<rparr>"

lemma sample_ok: "res_ok sample_res" "le_fits (rnum sample_res) sample_le" "rnum sample_res = 2"
  by (simp_all add: res_ok_def res_wf_def sample_res_def sample_le_def le_fits_def amounts_ok_def in_s32_def)

theorem resource_use_release_witness:
  "\<exists>normal r'. resource_use sample_res sample_le = Some (normal, r') \<and>
    resource_release r' sample_le = Some (True, sample_res)"
  using resource_use_release [OF sample_ok(1,2)] .

text \<open>C11: an LE admitted by \<open>resource_canuse\<close> is given its full demand by \<open>resource_use\<close>, and then no
  resource exceeds its capacity unless it allows overflow.\<close>

theorem resource_admission_safe:
  assumes "res_ok r" "le_fits (rnum r) e" "amounts_ok (demand e)" "resource_canuse r e = Some True"
    and "resource_use r e = Some (normal, r')" "i < rnum r" "\<not> allowoverflow r ! i"
  shows "usage r' ! i = usage r ! i + demand e ! i \<and> usage r' ! i \<le> capacity r ! i"
proof -
  have fit: "demand e ! i \<le> capacity r ! i - usage r ! i"
    using assms(4,6,7) resource_canuse_eq [OF assms(1,2)] by auto
  have "0 \<le> demand e ! i" using assms(2,3,6) by (simp add: amounts_okD le_fits_def)
  then have "in_s32 (usage r ! i + demand e ! i)"
    using fit res_okD(5,6) [OF assms(1,6)] by (simp add: in_s32_def)
  moreover have "usage r' ! i = s32 (usage r ! i + demand e ! i)"
    using assms(5,6) resource_use_eq [OF res_ok_wf [OF assms(1)] assms(2)] by (auto simp: used_def)
  ultimately show ?thesis using fit by simp
qed

theorem resource_admission_safe_witness:
  "usage (sample_res\<lparr>usage := used sample_res sample_le\<rparr>) ! 0 = 3 \<and>
   usage (sample_res\<lparr>usage := used sample_res sample_le\<rparr>) ! 0 \<le> capacity sample_res ! 0"
proof -
  have can: "resource_canuse sample_res sample_le = Some True"
    unfolding resource_canuse_eq [OF sample_ok(1,2)]
    by (auto simp: sample_res_def sample_le_def less_Suc_eq numeral_2_eq_2)
  have dem: "amounts_ok (demand sample_le)" by (simp add: sample_le_def amounts_ok_def in_s32_def)
  show ?thesis
    using resource_admission_safe [OF sample_ok(1,2) dem can resource_use_eq [OF res_ok_wf [OF sample_ok(1)] sample_ok(2)], of 0]
    by (simp add: sample_res_def sample_le_def)
qed

text \<open>C24: \<open>resource_canuse\<close> is exactly admission against \<open>resource_getavailability\<close>: an LE can be used when each of its demands is
  at most what is available of a resource that does not allow overflow. This needs, for each resource, that its usage is within its
  capacity or that the demand is positive: of an overloaded resource the availability reported is 0, which a demand of 0 does
  not exceed, while \<open>resource_canuse\<close> refuses it.\<close>

theorem resource_canuse_availability:
  assumes "res_ok r" "le_fits (rnum r) e" "\<forall>i<rnum r. usage r ! i \<le> capacity r ! i \<or> 0 < demand e ! i"
  shows "\<exists>avail. resource_getavailability r = Some avail \<and> length avail = rnum r \<and>
    resource_canuse r e = Some (\<forall>i<rnum r. allowoverflow r ! i \<or> demand e ! i \<le> avail ! i)"
proof -
  let ?a = "map (\<lambda>i. max 0 (capacity r ! i - usage r ! i)) [0..<rnum r]"
  have "demand e ! i \<le> ?a ! i \<longleftrightarrow> demand e ! i \<le> capacity r ! i - usage r ! i" if "i < rnum r" for i
    using that assms(3) by fastforce
  then have "resource_canuse r e = Some (\<forall>i<rnum r. allowoverflow r ! i \<or> demand e ! i \<le> ?a ! i)"
    unfolding resource_canuse_eq [OF assms(1,2)] by simp
  then show ?thesis using resource_getavailability_eq [OF assms(1)] by auto
qed

theorem resource_canuse_availability_witness:
  "\<exists>avail. resource_getavailability sample_res = Some avail \<and> length avail = 2 \<and>
    resource_canuse sample_res sample_le
      = Some (\<forall>i<2. allowoverflow sample_res ! i \<or> demand sample_le ! i \<le> avail ! i)"
proof -
  have "\<forall>i<rnum sample_res. usage sample_res ! i \<le> capacity sample_res ! i \<or> 0 < demand sample_le ! i"
    by (auto simp: sample_res_def less_Suc_eq numeral_2_eq_2)
  from resource_canuse_availability [OF sample_ok(1,2) this] show ?thesis by (simp add: sample_ok)
qed

text \<open>C25: utilisations are fractions between 0 and 1 for any capacities and usages, and a resource
  whose usage is within its capacity is not over-utilised; over-utilisation is never negative.\<close>

theorem resource_utilization_bounds:
  assumes "length (capacity r) = rnum r" "length (usage r) = rnum r"
  shows "\<exists>us os. resource_getutilization r = Some us \<and> resource_getoverutilization r = Some os \<and>
    (\<forall>i<rnum r. 0 \<le> us ! i \<and> us ! i \<le> 1 \<and> 0 \<le> os ! i \<and>
       (0 \<le> usage r ! i \<longrightarrow> usage r ! i \<le> capacity r ! i \<longrightarrow> os ! i = 0))"
proof (intro exI conjI)
  let ?us = "map (\<lambda>i. util1 (usage r ! i) (capacity r ! i)) [0..<rnum r]"
  let ?os = "map (\<lambda>i. overutil1 (usage r ! i) (capacity r ! i)) [0..<rnum r]"
  show "resource_getutilization r = Some ?us" using assms by (rule resource_getutilization_eq)
  show "resource_getoverutilization r = Some ?os" using assms by (rule resource_getoverutilization_eq)
  have "0 \<le> overutil1 u c" for u c by (auto simp: overutil1_def sgl.nonneg)
  moreover have "overutil1 u c = 0" if "0 \<le> u" "u \<le> c" for u c
    using that float_ratio_le_one [OF that] by (auto simp: overutil1_def)
  ultimately show "\<forall>i<rnum r. 0 \<le> ?us ! i \<and> ?us ! i \<le> 1 \<and> 0 \<le> ?os ! i \<and>
       (0 \<le> usage r ! i \<longrightarrow> usage r ! i \<le> capacity r ! i \<longrightarrow> ?os ! i = 0)"
    by (simp add: util1_unit)
qed

theorem resource_utilization_bounds_witness:
  "\<exists>us os. resource_getutilization sample_res = Some us \<and> resource_getoverutilization sample_res = Some os \<and>
    (\<forall>i<2. 0 \<le> us ! i \<and> us ! i \<le> 1 \<and> 0 \<le> os ! i)"
  using resource_utilization_bounds [of sample_res] by (auto simp: sample_res_def)

text \<open>The setters clamp negative amounts to zero, so \<open>resource_setcapacity\<close> and
  \<open>resource_setusage\<close> keep the invariant for any observed values, and reading the usage back gives
  the observed values themselves when they were not negative.\<close>

theorem resource_set_roundtrip:
  assumes "res_ok r" "rnum r = length cap" "rnum r = length use"
    and "\<forall>x\<in>set cap. in_s32 x" "\<forall>x\<in>set use. in_s32 x"
  shows "\<exists>r1 r2. resource_setcapacity r cap = Some r1 \<and> resource_setusage r1 use = Some r2 \<and> res_ok r2 \<and>
    resource_getcapacity r2 = map (max 0) cap \<and> resource_getusage r2 = map (max 0) use"
proof (intro exI conjI)
  let ?r1 = "r\<lparr>capacity := map (max 0) cap\<rparr>"
  let ?r2 = "?r1\<lparr>usage := map (max 0) use\<rparr>"
  show "resource_setcapacity r cap = Some ?r1"
    using assms(2) resource_setcapacity_eq [of r cap] res_okD(1) [OF assms(1)] by simp
  show "resource_setusage ?r1 use = Some ?r2"
    using assms(3) resource_setusage_eq [of ?r1 use] res_okD(2) [OF assms(1)] by simp
  show "res_ok ?r2" using assms by (auto intro!: res_ok_usage res_ok_capacity)
qed (simp_all add: res_defs)

theorem resource_set_roundtrip_witness:
  "\<exists>r1 r2. resource_setcapacity sample_res [8, 32] = Some r1 \<and> resource_setusage r1 [- 1, 4] = Some r2 \<and>
    res_ok r2 \<and> resource_getcapacity r2 = [8, 32] \<and> resource_getusage r2 = [0, 4]"
  using resource_set_roundtrip [OF sample_ok(1), of "[8, 32]" "[- 1, 4]"] by (simp add: sample_ok in_s32_def)

end
