(* ===== verification/Entities.thy ===== *)
theory Entities
  imports Vector Hashing Resource
begin

section \<open>Physical entities (system/pe.c)\<close>

text \<open>
  LEs and PEs point at each other (\<open>host\<close> and \<open>hostedLE\<close>), so they live in an explicit memory: two
  maps from addresses to structs, the next free address, and the state of \<open>rand()\<close>. A pointer is an
  address option. The \<open>resource\<close> and the vector a PE owns are private to it and are stored inside.

  The theory shows what placing and removing an LE does to the memory, that both keep the
  invariant \<open>heap_ok\<close> (an LE is hosted by at most one PE, the one it points to), that removing a
  placed LE restores the memory, and that \<open>pe_clear\<close> unhosts every LE and releases its demands.
\<close>

record pe =
  pe_label :: string
  pe_resource :: "resource option"
  hostedLE :: "nat vector"
  indexinsystem :: int

record mem =
  h_le :: "nat \<rightharpoonup> le"
  h_pe :: "nat \<rightharpoonup> pe"
  h_next :: nat
  h_rng :: rng

definition put_le :: "mem \<Rightarrow> nat \<Rightarrow> le \<Rightarrow> mem" where
  "put_le m a e = m\<lparr>h_le := (h_le m)(a \<mapsto> e)\<rparr>"

definition put_pe :: "mem \<Rightarrow> nat \<Rightarrow> pe \<Rightarrow> mem" where
  "put_pe m a p = m\<lparr>h_pe := (h_pe m)(a \<mapsto> p)\<rparr>"

definition new_le :: "mem \<Rightarrow> le \<Rightarrow> nat \<times> mem" where
  "new_le m e = (h_next m, put_le (m\<lparr>h_next := Suc (h_next m)\<rparr>) (h_next m) e)"

definition new_pe :: "mem \<Rightarrow> pe \<Rightarrow> nat \<times> mem" where
  "new_pe m p = (h_next m, put_pe (m\<lparr>h_next := Suc (h_next m)\<rparr>) (h_next m) p)"

definition le_destroy :: "mem \<Rightarrow> nat option \<Rightarrow> mem option" where
  "le_destroy m e = (case e of None \<Rightarrow> Some m
     | Some a \<Rightarrow> do { _ \<leftarrow> h_le m a; Some (m\<lparr>h_le := (h_le m)(a := None)\<rparr>) })"

definition pe_create :: "mem \<Rightarrow> string \<Rightarrow> resource option \<Rightarrow> nat \<times> mem" where
  "pe_create m name r =
     new_pe m \<lparr>pe_label = name, pe_resource = r, hostedLE = vector_create, indexinsystem = - 1\<rparr>"

definition pe_destroy :: "mem \<Rightarrow> nat option \<Rightarrow> mem option" where
  "pe_destroy m p = (case p of None \<Rightarrow> Some m
     | Some a \<Rightarrow> do { P \<leftarrow> h_pe m a;
         m' \<leftarrow> for_each (\<lambda>i m. le_destroy m (vector_get (hostedLE P) (int i))) [0..<vector_getsize (hostedLE P)] m;
         Some (m'\<lparr>h_pe := (h_pe m')(a := None)\<rparr>) })"

definition pe_getname :: "pe \<Rightarrow> string" where
  "pe_getname P = pe_label P"

text \<open>\<open>strcmp\<close> on the bytes of two strings; only its sign is specified.\<close>

fun strcmp :: "string \<Rightarrow> string \<Rightarrow> int" where
  "strcmp [] [] = 0"
| "strcmp [] (d # t) = - 1"
| "strcmp (c # s) [] = 1"
| "strcmp (c # s) (d # t) =
     (if (of_char c :: nat) < of_char d then - 1 else if (of_char d :: nat) < of_char c then 1 else strcmp s t)"

lemma strcmp_eq_0: "strcmp s t = 0 \<longleftrightarrow> s = t"
  by (induction s t rule: strcmp.induct) (auto simp: not_less_iff_gr_or_eq)

definition pe_comparePEs :: "mem \<Rightarrow> nat \<Rightarrow> nat \<Rightarrow> int option" where
  "pe_comparePEs m p q = do { P \<leftarrow> h_pe m p; Q \<leftarrow> h_pe m q; Some (strcmp (pe_getname P) (pe_getname Q)) }"

definition pe_canplaceLE :: "mem \<Rightarrow> nat \<Rightarrow> nat \<Rightarrow> bool option" where
  "pe_canplaceLE m p e =
     do { P \<leftarrow> h_pe m p; R \<leftarrow> pe_resource P; E \<leftarrow> h_le m e;
          ok \<leftarrow> resource_canuse R E; if \<not> ok then Some False else Some True }"

definition pe_placeLE :: "mem \<Rightarrow> nat \<Rightarrow> nat \<Rightarrow> bool \<Rightarrow> (bool \<times> mem) option" where
  "pe_placeLE m p e update_resource =
     do { P \<leftarrow> h_pe m p;
          if vector_contains (hostedLE P) (Some e) then Some (True, m)
          else do {
            R \<leftarrow> pe_resource P;
            E \<leftarrow> h_le m e;
            (normal, R') \<leftarrow> (if update_resource then resource_use R E
                            else do { b \<leftarrow> resource_isnormalload R; Some (b, R) });
            let m1 = put_pe m p (P\<lparr>pe_resource := Some R', hostedLE := vector_append (hostedLE P) (Some e)\<rparr>);
            Some (normal, put_le m1 e (le_sethost E (Some p))) } }"

definition pe_removeLE :: "mem \<Rightarrow> nat \<Rightarrow> nat \<Rightarrow> bool \<Rightarrow> (bool \<times> mem) option" where
  "pe_removeLE m p e update_resource =
     do { P \<leftarrow> h_pe m p;
          let i = vector_getindex (hostedLE P) (Some e);
          if i < 0 then Some (True, m)
          else do {
            R \<leftarrow> pe_resource P;
            E \<leftarrow> h_le m e;
            (normal, R') \<leftarrow> (if update_resource then resource_release R E
                            else do { b \<leftarrow> resource_isnormalload R; Some (b, R) });
            let m1 = put_pe m p (P\<lparr>pe_resource := Some R', hostedLE := snd (vector_remove (hostedLE P) i)\<rparr>);
            Some (normal, put_le m1 e (le_sethost E None)) } }"

definition pe_gethostedLE :: "pe \<Rightarrow> nat vector" where
  "pe_gethostedLE P = hostedLE P"

definition pe_clear :: "mem \<Rightarrow> nat \<Rightarrow> bool \<Rightarrow> mem option" where
  "pe_clear m p update_resource =
     do { P \<leftarrow> h_pe m p;
          let temp = vector_appendall vector_create (hostedLE P);
          for_each (\<lambda>i m. do { e \<leftarrow> vector_get temp (int i); (_, m') \<leftarrow> pe_removeLE m p e update_resource; Some m' })
            [0..<vector_getsize temp] m }"

definition pe_getresource :: "pe \<Rightarrow> resource option" where
  "pe_getresource P = pe_resource P"

definition pe_update :: "mem \<Rightarrow> nat \<Rightarrow> int list option \<Rightarrow> int list option \<Rightarrow> mem option" where
  "pe_update m p cap use =
     do { P \<leftarrow> h_pe m p;
          R1 \<leftarrow> (case cap of None \<Rightarrow> Some (pe_resource P)
                 | Some c \<Rightarrow> do { R \<leftarrow> pe_resource P; R' \<leftarrow> resource_setcapacity R c; Some (Some R') });
          R2 \<leftarrow> (case use of None \<Rightarrow> Some R1
                 | Some u \<Rightarrow> do { R \<leftarrow> R1; R' \<leftarrow> resource_setusage R u; Some (Some R') });
          Some (put_pe m p (P\<lparr>pe_resource := R2\<rparr>)) }"

definition pe_getprimeutilization :: "mem \<Rightarrow> nat \<Rightarrow> int \<Rightarrow> real option" where
  "pe_getprimeutilization m p index =
     do { P \<leftarrow> h_pe m p;
          (case pe_resource P of None \<Rightarrow> Some 0
           | Some R \<Rightarrow> do { u \<leftarrow> resource_getutilization R; rdi u index }) }"

definition pe_getindexinsystem :: "pe \<Rightarrow> int" where
  "pe_getindexinsystem P = indexinsystem P"

definition pe_setindexinsystem :: "mem \<Rightarrow> nat \<Rightarrow> int \<Rightarrow> mem option" where
  "pe_setindexinsystem m p i = do { P \<leftarrow> h_pe m p; Some (put_pe m p (P\<lparr>indexinsystem := i\<rparr>)) }"

subsection \<open>Invariant\<close>

text \<open>
  Every PE has a sound resource and a duplicate-free list of hosted LEs. The host pointer of an LE
  and the hosted list of a PE agree: an LE points to a PE exactly when that PE lists it. Every
  hosted LE has a demand for each of its host's resources.
\<close>

definition pe_ok :: "pe \<Rightarrow> bool" where
  "pe_ok P \<longleftrightarrow> vec_ok (hostedLE P) \<and> distinct (vec_list (hostedLE P)) \<and> None \<notin> set (vec_list (hostedLE P)) \<and>
     (\<exists>R. pe_resource P = Some R \<and> res_wf R)"

definition hosts :: "mem \<Rightarrow> nat \<Rightarrow> nat \<Rightarrow> bool" where
  "hosts m p e \<longleftrightarrow> (\<exists>P. h_pe m p = Some P \<and> Some e \<in> set (vec_list (hostedLE P)))"

definition heap_ok :: "mem \<Rightarrow> bool" where
  "heap_ok m \<longleftrightarrow>
     (\<forall>p P. h_pe m p = Some P \<longrightarrow> pe_ok P) \<and>
     (\<forall>p e. hosts m p e \<longleftrightarrow> (\<exists>E. h_le m e = Some E \<and> host E = Some p)) \<and>
     (\<forall>p e P R E. hosts m p e \<longrightarrow> h_pe m p = Some P \<longrightarrow> pe_resource P = Some R \<longrightarrow> h_le m e = Some E \<longrightarrow>
        le_fits (rnum R) E) \<and>
     (\<forall>a\<ge>h_next m. h_le m a = None \<and> h_pe m a = None)"

lemma put_simps [simp]:
  "h_le (put_le m a e) = (h_le m)(a \<mapsto> e)" "h_pe (put_le m a e) = h_pe m"
  "h_pe (put_pe m a p) = (h_pe m)(a \<mapsto> p)" "h_le (put_pe m a p) = h_le m"
  "h_next (put_le m a e) = h_next m" "h_next (put_pe m a p) = h_next m"
  "h_rng (put_le m a e) = h_rng m" "h_rng (put_pe m a p) = h_rng m"
  by (simp_all add: put_le_def put_pe_def)

lemma put_le_same [simp]: "h_le m a = Some e \<Longrightarrow> put_le m a e = m"
  by (simp add: put_le_def fun_upd_idem)

lemma put_pe_same [simp]: "h_pe m a = Some p \<Longrightarrow> put_pe m a p = m"
  by (simp add: put_pe_def fun_upd_idem)

lemma put_twice [simp]:
  "put_le (put_le m a e) a e' = put_le m a e'" "put_pe (put_pe m a p) a p' = put_pe m a p'"
  "put_pe (put_le m b e) a p = put_le (put_pe m a p) b e"
  by (simp_all add: put_le_def put_pe_def)

lemma pe_okD:
  assumes "pe_ok P"
  shows "vec_ok (hostedLE P)" "distinct (vec_list (hostedLE P))" "None \<notin> set (vec_list (hostedLE P))"
    "\<exists>R. pe_resource P = Some R \<and> res_wf R"
  using assms by (auto simp: pe_ok_def)

lemma heap_okD:
  assumes "heap_ok m"
  shows "h_pe m p = Some P \<Longrightarrow> pe_ok P"
    "hosts m p e \<longleftrightarrow> (\<exists>E. h_le m e = Some E \<and> host E = Some p)"
    "hosts m p e \<Longrightarrow> h_pe m p = Some P \<Longrightarrow> pe_resource P = Some R \<Longrightarrow> h_le m e = Some E \<Longrightarrow> le_fits (rnum R) E"
    "h_next m \<le> a \<Longrightarrow> h_le m a = None" "h_next m \<le> a \<Longrightarrow> h_pe m a = None"
  using assms unfolding heap_ok_def by blast+

text \<open>The three cases of the invariant when a PE or an LE struct is overwritten.\<close>

lemma hosts_put_le [simp]: "hosts (put_le m a E) p e = hosts m p e"
  by (simp add: hosts_def)

lemma hosts_put_pe:
  "hosts (put_pe m a P) p e \<longleftrightarrow> (if p = a then Some e \<in> set (vec_list (hostedLE P)) else hosts m p e)"
  by (simp add: hosts_def)

lemmas pe_ops = pe_placeLE_def pe_removeLE_def pe_canplaceLE_def le_sethost_def Let_def

subsection \<open>Placing and removing\<close>

text \<open>The memory after placing the LE at \<open>e\<close> on the PE at \<open>p\<close>.\<close>

definition placed :: "mem \<Rightarrow> nat \<Rightarrow> pe \<Rightarrow> resource \<Rightarrow> nat \<Rightarrow> le \<Rightarrow> mem" where
  "placed m p P R e E = put_le (put_pe m p
     (P\<lparr>pe_resource := Some (R\<lparr>usage := used R E\<rparr>), hostedLE := vector_append (hostedLE P) (Some e)\<rparr>))
     e (E\<lparr>host := Some p\<rparr>)"

definition unplaced :: "mem \<Rightarrow> nat \<Rightarrow> pe \<Rightarrow> resource \<Rightarrow> nat \<Rightarrow> le \<Rightarrow> mem" where
  "unplaced m p P R e E = put_le (put_pe m p
     (P\<lparr>pe_resource := Some (R\<lparr>usage := released R E\<rparr>),
        hostedLE := snd (vector_remove (hostedLE P) (vector_getindex (hostedLE P) (Some e)))\<rparr>))
     e (E\<lparr>host := None\<rparr>)"

lemma pe_placeLE_eq:
  assumes "h_pe m p = Some P" "pe_ok P" "pe_resource P = Some R" "h_le m e = Some E" "le_fits (rnum R) E"
    "\<not> hosts m p e"
  shows "pe_placeLE m p e True = Some (\<forall>i<rnum R. used R E ! i \<le> capacity R ! i, placed m p P R e E)"
proof -
  have "res_wf R" using assms(2,3) by (auto simp: pe_ok_def)
  moreover have "\<not> vector_contains (hostedLE P) (Some e)"
    using assms(1,2,6) by (simp add: vec_contains pe_okD hosts_def)
  ultimately show ?thesis using assms by (simp add: pe_ops resource_use_eq placed_def)
qed

lemma pe_placeLE_hosted:
  "h_pe m p = Some P \<Longrightarrow> pe_ok P \<Longrightarrow> hosts m p e \<Longrightarrow> pe_placeLE m p e upd = Some (True, m)"
  by (simp add: pe_placeLE_def vec_contains pe_okD hosts_def)

lemma pe_removeLE_eq:
  assumes "h_pe m p = Some P" "pe_ok P" "pe_resource P = Some R" "h_le m e = Some E" "le_fits (rnum R) E"
    "hosts m p e"
  shows "pe_removeLE m p e True =
    Some (\<forall>i<rnum R. 0 \<le> s32 (usage R ! i - demand E ! i), unplaced m p P R e E)"
proof -
  have "res_wf R" using assms(2,3) by (auto simp: pe_ok_def)
  moreover have "\<not> vector_getindex (hostedLE P) (Some e) < 0"
    using assms(1,2,6) by (simp add: vec.index_neg_iff pe_okD hosts_def)
  ultimately show ?thesis using assms by (simp add: pe_ops resource_release_eq unplaced_def)
qed

lemma pe_removeLE_absent:
  "h_pe m p = Some P \<Longrightarrow> pe_ok P \<Longrightarrow> \<not> hosts m p e \<Longrightarrow> pe_removeLE m p e upd = Some (True, m)"
  by (simp add: pe_removeLE_def vec.index_neg_iff pe_okD hosts_def)

text \<open>The hosting relation and the invariant afterwards.\<close>

lemma heap_okI:
  assumes "\<And>p P. h_pe m p = Some P \<Longrightarrow> pe_ok P"
    and "\<And>p e. hosts m p e \<longleftrightarrow> (\<exists>E. h_le m e = Some E \<and> host E = Some p)"
    and "\<And>p e P R E. hosts m p e \<Longrightarrow> h_pe m p = Some P \<Longrightarrow> pe_resource P = Some R \<Longrightarrow> h_le m e = Some E \<Longrightarrow>
        le_fits (rnum R) E"
    and "\<And>a. h_next m \<le> a \<Longrightarrow> h_le m a = None \<and> h_pe m a = None"
  shows "heap_ok m"
  using assms unfolding heap_ok_def by blast

lemma le_fits_host [simp]: "le_fits n (E\<lparr>host := h\<rparr>) = le_fits n E"
  by (simp add: le_fits_def)

lemma hosts_placed:
  assumes "h_pe m p = Some P" "pe_ok P"
  shows "hosts (placed m p P R e E) q f \<longleftrightarrow> hosts m q f \<or> (q = p \<and> f = e)"
  using assms by (auto simp: placed_def hosts_put_pe hosts_def pe_okD)

lemma hosts_unplaced:
  assumes "h_pe m p = Some P" "pe_ok P" "hosts m p e"
  shows "hosts (unplaced m p P R e E) q f \<longleftrightarrow> hosts m q f \<and> \<not> (q = p \<and> f = e)"
proof -
  have "vec_list (snd (vector_remove (hostedLE P) (vector_getindex (hostedLE P) (Some e)))) = remove1 (Some e) (vec_list (hostedLE P))"
    using assms by (intro vec.remove_index) (auto simp: pe_okD hosts_def)
  then show ?thesis using assms by (auto simp: unplaced_def hosts_put_pe hosts_def pe_okD)
qed

lemma pe_ok_placed:
  assumes "h_pe m p = Some P" "pe_ok P" "pe_resource P = Some R" "\<not> hosts m p e"
  shows "pe_ok (P\<lparr>pe_resource := Some (R\<lparr>usage := used R E\<rparr>), hostedLE := vector_append (hostedLE P) (Some e)\<rparr>)"
  using assms by (auto simp: pe_ok_def hosts_def)

lemma pe_ok_unplaced:
  assumes "h_pe m p = Some P" "pe_ok P" "pe_resource P = Some R" "hosts m p e"
  shows "pe_ok (P\<lparr>pe_resource := Some (R\<lparr>usage := released R E\<rparr>),
     hostedLE := snd (vector_remove (hostedLE P) (vector_getindex (hostedLE P) (Some e)))\<rparr>)"
proof -
  let ?v = "snd (vector_remove (hostedLE P) (vector_getindex (hostedLE P) (Some e)))"
  have "vec_list ?v = remove1 (Some e) (vec_list (hostedLE P))"
    using assms by (intro vec.remove_index) (auto simp: pe_okD hosts_def)
  moreover have "vec_ok ?v" using assms by (intro vec.remove) (simp add: pe_okD)
  ultimately show ?thesis using assms by (auto simp: pe_ok_def dest: notin_set_remove1)
qed

lemma placed_ok:
  assumes ok: "heap_ok m" and at: "h_pe m p = Some P" "pe_resource P = Some R" "h_le m e = Some E"
    and free: "host E = None" and fits: "le_fits (rnum R) E"
  shows "heap_ok (placed m p P R e E)"
proof (rule heap_okI)
  note P = heap_okD(1) [OF ok at(1)]
  have nh: "\<not> hosts m q e" for q using heap_okD(2) [OF ok] at(3) free by simp
  note H = hosts_placed [OF at(1) P, of R e E]
  show "pe_ok Q" if "h_pe (placed m p P R e E) q = Some Q" for q Q
    using that heap_okD(1) [OF ok] pe_ok_placed [OF at(1) P at(2) nh]
    by (auto simp: placed_def split: if_splits)
  show "hosts (placed m p P R e E) q f \<longleftrightarrow> (\<exists>E'. h_le (placed m p P R e E) f = Some E' \<and> host E' = Some q)" for q f
    unfolding H heap_okD(2) [OF ok] using at(3) free by (auto simp: placed_def)
  show "le_fits (rnum R') E'" if "hosts (placed m p P R e E) q f" "h_pe (placed m p P R e E) q = Some Q"
    "pe_resource Q = Some R'" "h_le (placed m p P R e E) f = Some E'" for q f Q R' E'
    using that heap_okD(3) [OF ok, of q f] at fits nh unfolding H
    by (auto simp: placed_def split: if_splits)
  show "h_le (placed m p P R e E) a = None \<and> h_pe (placed m p P R e E) a = None" if "h_next (placed m p P R e E) \<le> a" for a
    using that heap_okD(4,5) [OF ok, of a] at by (auto simp: placed_def)
qed

lemma unplaced_ok:
  assumes ok: "heap_ok m" and at: "h_pe m p = Some P" "pe_resource P = Some R" "h_le m e = Some E"
    and h: "hosts m p e"
  shows "heap_ok (unplaced m p P R e E)"
proof (rule heap_okI)
  note P = heap_okD(1) [OF ok at(1)]
  have only: "q = p" if "hosts m q e" for q using heap_okD(2) [OF ok] that h by auto
  note H = hosts_unplaced [OF at(1) P h, of R E]
  show "pe_ok Q" if "h_pe (unplaced m p P R e E) q = Some Q" for q Q
    using that heap_okD(1) [OF ok] pe_ok_unplaced [OF at(1) P at(2) h]
    by (auto simp: unplaced_def split: if_splits)
  show "hosts (unplaced m p P R e E) q f \<longleftrightarrow> (\<exists>E'. h_le (unplaced m p P R e E) f = Some E' \<and> host E' = Some q)" for q f
    unfolding H using only heap_okD(2) [OF ok, of q f] by (auto simp: unplaced_def)
  show "le_fits (rnum R') E'" if "hosts (unplaced m p P R e E) q f" "h_pe (unplaced m p P R e E) q = Some Q"
    "pe_resource Q = Some R'" "h_le (unplaced m p P R e E) f = Some E'" for q f Q R' E'
    using that heap_okD(3) [OF ok, of q f] at only unfolding H
    by (auto simp: unplaced_def split: if_splits)
  show "h_le (unplaced m p P R e E) a = None \<and> h_pe (unplaced m p P R e E) a = None" if "h_next (unplaced m p P R e E) \<le> a" for a
    using that heap_okD(4,5) [OF ok, of a] at by (auto simp: unplaced_def)
qed

text \<open>Overwriting a PE with one that hosts the same LEs and has as many resources.\<close>

lemma put_pe_ok:
  assumes ok: "heap_ok m" and at: "h_pe m p = Some P" and P': "pe_ok P'" "vec_list (hostedLE P') = vec_list (hostedLE P)"
    and num: "map_option rnum (pe_resource P') = map_option rnum (pe_resource P)"
  shows "heap_ok (put_pe m p P')"
proof (rule heap_okI)
  have H: "hosts (put_pe m p P') q f \<longleftrightarrow> hosts m q f" for q f
    using at P'(2) by (auto simp: hosts_put_pe hosts_def)
  show "pe_ok Q" if "h_pe (put_pe m p P') q = Some Q" for q Q
    using that heap_okD(1) [OF ok] P' by (auto split: if_splits)
  show "hosts (put_pe m p P') q f \<longleftrightarrow> (\<exists>E'. h_le (put_pe m p P') f = Some E' \<and> host E' = Some q)" for q f
    unfolding H heap_okD(2) [OF ok] by simp
  show "le_fits (rnum R') E'" if "hosts (put_pe m p P') q f" "h_pe (put_pe m p P') q = Some Q"
    "pe_resource Q = Some R'" "h_le (put_pe m p P') f = Some E'" for q f Q R' E'
    using that heap_okD(3) [OF ok, of q f] at num unfolding H
    by (cases "pe_resource P") (auto split: if_splits)
  show "h_le (put_pe m p P') a = None \<and> h_pe (put_pe m p P') a = None" if "h_next (put_pe m p P') \<le> a" for a
    using that heap_okD(4,5) [OF ok, of a] at by auto
qed

lemma fresh_address: "heap_ok m \<Longrightarrow> h_le m (h_next m) = None \<and> h_pe m (h_next m) = None"
  by (simp add: heap_okD)

lemma new_le_ok:
  assumes ok: "heap_ok m" and E: "host E = None"
  shows "heap_ok (snd (new_le m E))"
proof (rule heap_okI)
  let ?m = "snd (new_le m E)"
  have eq: "h_le ?m = (h_le m)(h_next m \<mapsto> E)" "h_pe ?m = h_pe m" "h_next ?m = Suc (h_next m)"
    by (simp_all add: new_le_def)
  have H: "hosts ?m q f \<longleftrightarrow> hosts m q f" for q f by (simp add: hosts_def eq)
  show "pe_ok Q" if "h_pe ?m q = Some Q" for q Q using that heap_okD(1) [OF ok] by (simp add: eq)
  have nh: "\<not> hosts m q (h_next m)" for q using heap_okD(2) [OF ok] fresh_address [OF ok] by simp
  show "hosts ?m q f \<longleftrightarrow> (\<exists>E'. h_le ?m f = Some E' \<and> host E' = Some q)" for q f
    unfolding H using heap_okD(2) [OF ok, of q f] nh E by (auto simp: eq)
  show "le_fits (rnum R') E'" if "hosts ?m q f" "h_pe ?m q = Some Q" "pe_resource Q = Some R'" "h_le ?m f = Some E'" for q f Q R' E'
    using that heap_okD(3) [OF ok, of q f] nh unfolding H by (auto simp: eq split: if_splits)
  show "h_le ?m a = None \<and> h_pe ?m a = None" if "h_next ?m \<le> a" for a
    using that heap_okD(4,5) [OF ok, of a] by (auto simp: eq)
qed

lemma new_pe_ok:
  assumes ok: "heap_ok m" and P: "pe_ok P" "vec_list (hostedLE P) = []"
  shows "heap_ok (snd (new_pe m P))"
proof (rule heap_okI)
  let ?m = "snd (new_pe m P)"
  have eq: "h_pe ?m = (h_pe m)(h_next m \<mapsto> P)" "h_le ?m = h_le m" "h_next ?m = Suc (h_next m)"
    by (simp_all add: new_pe_def)
  have H: "hosts ?m q f \<longleftrightarrow> hosts m q f" for q f
    using P(2) fresh_address [OF ok] by (auto simp: hosts_def eq)
  show "pe_ok Q" if "h_pe ?m q = Some Q" for q Q
    using that heap_okD(1) [OF ok] P by (auto simp: eq split: if_splits)
  show "hosts ?m q f \<longleftrightarrow> (\<exists>E'. h_le ?m f = Some E' \<and> host E' = Some q)" for q f
    unfolding H heap_okD(2) [OF ok] by (simp add: eq)
  show "le_fits (rnum R') E'" if "hosts ?m q f" "h_pe ?m q = Some Q" "pe_resource Q = Some R'" "h_le ?m f = Some E'" for q f Q R' E'
    using that heap_okD(3) [OF ok, of q f] fresh_address [OF ok] unfolding H by (auto simp: eq hosts_def split: if_splits)
  show "h_le ?m a = None \<and> h_pe ?m a = None" if "h_next ?m \<le> a" for a
    using that heap_okD(4,5) [OF ok, of a] by (auto simp: eq)
qed

subsection \<open>What placing and removing leave alone\<close>

definition le_id :: "le \<Rightarrow> string \<times> int list \<times> nat" where
  "le_id E = (le_label E, demand E, numdemand E)"

definition pe_id :: "pe \<Rightarrow> string \<times> int \<times> (nat \<times> int list \<times> bool list) option" where
  "pe_id P = (pe_label P, indexinsystem P,
     map_option (\<lambda>R. (rnum R, capacity R, allowoverflow R)) (pe_resource P))"

definition same_frame :: "mem \<Rightarrow> mem \<Rightarrow> bool" where
  "same_frame m m' \<longleftrightarrow> h_next m' = h_next m \<and> h_rng m' = h_rng m \<and>
     (\<forall>a. map_option le_id (h_le m' a) = map_option le_id (h_le m a)) \<and>
     (\<forall>a. map_option pe_id (h_pe m' a) = map_option pe_id (h_pe m a))"

lemma same_frame_refl [simp]: "same_frame m m"
  by (simp add: same_frame_def)

lemma same_frame_trans: "same_frame m m1 \<Longrightarrow> same_frame m1 m2 \<Longrightarrow> same_frame m m2"
  by (simp add: same_frame_def)

lemma same_frameD:
  assumes "same_frame m m'"
  shows "h_pe m p = Some P \<Longrightarrow> \<exists>P'. h_pe m' p = Some P' \<and> pe_id P' = pe_id P"
    "h_le m e = Some E \<Longrightarrow> \<exists>E'. h_le m' e = Some E' \<and> le_id E' = le_id E"
    "h_next m' = h_next m" "h_rng m' = h_rng m"
proof -
  show "\<exists>P'. h_pe m' p = Some P' \<and> pe_id P' = pe_id P" if "h_pe m p = Some P"
  proof -
    have "map_option pe_id (h_pe m' p) = Some (pe_id P)" using assms that by (simp add: same_frame_def)
    then show ?thesis by auto
  qed
  show "\<exists>E'. h_le m' e = Some E' \<and> le_id E' = le_id E" if "h_le m e = Some E"
  proof -
    have "map_option le_id (h_le m' e) = Some (le_id E)" using assms that by (simp add: same_frame_def)
    then show ?thesis by auto
  qed
qed (use assms in \<open>simp_all add: same_frame_def\<close>)

lemma pe_id_eqD:
  assumes "pe_id P' = pe_id P" "pe_resource P' = Some R'"
  obtains R where "pe_resource P = Some R" "rnum R' = rnum R" "capacity R' = capacity R" "allowoverflow R' = allowoverflow R"
  using assms by (cases "pe_resource P") (auto simp: pe_id_def)

lemma same_frame_back:
  assumes "same_frame m m'" "h_pe m' p = Some P'" "pe_resource P' = Some R'"
  obtains P R where "h_pe m p = Some P" "pe_resource P = Some R" "rnum R' = rnum R" "capacity R' = capacity R"
proof -
  have "map_option pe_id (h_pe m p) = Some (pe_id P')"
    using assms(1,2) by (metis option.simps(9) same_frame_def)
  then obtain P where P: "h_pe m p = Some P" "pe_id P' = pe_id P" by auto
  then show thesis using that pe_id_eqD [OF P(2) assms(3)] by metis
qed

lemma placed_frame:
  "h_pe m p = Some P \<Longrightarrow> pe_resource P = Some R \<Longrightarrow> h_le m e = Some E \<Longrightarrow> same_frame m (placed m p P R e E)"
  by (simp add: same_frame_def placed_def le_id_def pe_id_def)

lemma unplaced_frame:
  "h_pe m p = Some P \<Longrightarrow> pe_resource P = Some R \<Longrightarrow> h_le m e = Some E \<Longrightarrow> same_frame m (unplaced m p P R e E)"
  by (simp add: same_frame_def unplaced_def le_id_def pe_id_def)

lemma remove_step:
  assumes ok: "heap_ok m" and h: "hosts m p e"
  obtains b m' where "pe_removeLE m p e True = Some (b, m')" "heap_ok m'" "same_frame m m'"
    "\<And>q f. hosts m' q f \<longleftrightarrow> hosts m q f \<and> \<not> (q = p \<and> f = e)"
    "\<And>q. q \<noteq> p \<Longrightarrow> h_pe m' q = h_pe m q" "\<And>f. f \<noteq> e \<Longrightarrow> h_le m' f = h_le m f"
    "\<And>E'. h_le m' e = Some E' \<Longrightarrow> host E' = None"
proof -
  obtain P where P: "h_pe m p = Some P" using h by (auto simp: hosts_def)
  note Pok = heap_okD(1) [OF ok P]
  obtain R where R: "pe_resource P = Some R" using Pok by (auto simp: pe_ok_def)
  obtain E where E: "h_le m e = Some E" using h heap_okD(2) [OF ok] by auto
  note fits = heap_okD(3) [OF ok h P R E]
  show thesis
  proof (rule that)
    show "pe_removeLE m p e True = Some (\<forall>i<rnum R. 0 \<le> s32 (usage R ! i - demand E ! i), unplaced m p P R e E)"
      by (rule pe_removeLE_eq [OF P Pok R E fits h])
    show "heap_ok (unplaced m p P R e E)" by (rule unplaced_ok [OF ok P R E h])
    show "same_frame m (unplaced m p P R e E)" by (rule unplaced_frame [OF P R E])
    show "hosts (unplaced m p P R e E) q f \<longleftrightarrow> hosts m q f \<and> \<not> (q = p \<and> f = e)" for q f
      by (rule hosts_unplaced [OF P Pok h])
  qed (auto simp: unplaced_def)
qed

lemma place_step:
  assumes ok: "heap_ok m" and at: "h_pe m p = Some P" "pe_resource P = Some R" "h_le m e = Some E"
    and free: "host E = None" and fits: "le_fits (rnum R) E"
  obtains b m' where "pe_placeLE m p e True = Some (b, m')" "heap_ok m'" "same_frame m m'"
    "\<And>q f. hosts m' q f \<longleftrightarrow> hosts m q f \<or> (q = p \<and> f = e)"
    "\<And>q. q \<noteq> p \<Longrightarrow> h_pe m' q = h_pe m q" "\<And>f. f \<noteq> e \<Longrightarrow> h_le m' f = h_le m f"
proof -
  note Pok = heap_okD(1) [OF ok at(1)]
  have nh: "\<not> hosts m p e" using heap_okD(2) [OF ok] at(3) free by simp
  show thesis
  proof (rule that)
    show "pe_placeLE m p e True = Some (\<forall>i<rnum R. used R E ! i \<le> capacity R ! i, placed m p P R e E)"
      by (rule pe_placeLE_eq [OF at(1) Pok at(2,3) fits nh])
    show "heap_ok (placed m p P R e E)" by (rule placed_ok [OF ok at free fits])
    show "same_frame m (placed m p P R e E)" by (rule placed_frame [OF at])
    show "hosts (placed m p P R e E) q f \<longleftrightarrow> hosts m q f \<or> (q = p \<and> f = e)" for q f
      by (rule hosts_placed [OF at(1) Pok])
  qed (auto simp: placed_def)
qed

subsection \<open>Clearing a PE\<close>

lemma clear_loop:
  assumes "heap_ok m" "distinct es" "\<forall>e\<in>set es. hosts m p e"
  shows "\<exists>m'. for_each (\<lambda>e m. do { (_, m') \<leftarrow> pe_removeLE m p e True; Some m' }) es m = Some m' \<and>
    heap_ok m' \<and> same_frame m m' \<and> (\<forall>q f. hosts m' q f \<longleftrightarrow> hosts m q f \<and> \<not> (q = p \<and> f \<in> set es)) \<and>
    (\<forall>q. q \<noteq> p \<longrightarrow> h_pe m' q = h_pe m q) \<and> (\<forall>f. f \<notin> set es \<longrightarrow> h_le m' f = h_le m f)"
  using assms
proof (induction es arbitrary: m)
  case Nil
  then show ?case by simp
next
  case (Cons e es)
  have h: "hosts m p e" using Cons.prems(3) by simp
  obtain b m1 where m1: "pe_removeLE m p e True = Some (b, m1)" "heap_ok m1" "same_frame m m1"
    "\<And>q f. hosts m1 q f \<longleftrightarrow> hosts m q f \<and> \<not> (q = p \<and> f = e)"
    "\<And>q. q \<noteq> p \<Longrightarrow> h_pe m1 q = h_pe m q" "\<And>f. f \<noteq> e \<Longrightarrow> h_le m1 f = h_le m f"
    using remove_step [OF Cons.prems(1) h] by metis
  have "\<forall>f\<in>set es. hosts m1 p f" using Cons.prems(2,3) m1(4) by auto
  from Cons.IH [OF m1(2) _ this] Cons.prems(2) obtain m' where
    m': "for_each (\<lambda>e m. do { (_, m') \<leftarrow> pe_removeLE m p e True; Some m' }) es m1 = Some m'"
    "heap_ok m'" "same_frame m1 m'" "\<And>q f. hosts m' q f \<longleftrightarrow> hosts m1 q f \<and> \<not> (q = p \<and> f \<in> set es)"
    "\<And>q. q \<noteq> p \<Longrightarrow> h_pe m' q = h_pe m1 q" "\<And>f. f \<notin> set es \<Longrightarrow> h_le m' f = h_le m1 f" by auto
  then show ?case using m1 same_frame_trans [OF m1(3) m'(3)] by auto
qed

text \<open>A loop over the positions of a vector without null elements is a loop over its elements.\<close>

lemma for_each_elements:
  assumes "vec_ok v" "None \<notin> set (vec_list v)"
  shows "for_each (\<lambda>i. f (vector_get v (int i))) [0..<vector_getsize v] s = for_each (\<lambda>x. f (Some x)) (map the (vec_list v)) s"
proof -
  have get: "vector_get v (int i) = Some (the (vec_list v ! i))" if "i < length (vec_list v)" for i
  proof -
    have "vec_list v ! i \<noteq> None" using assms(2) nth_mem [OF that] by metis
    then show ?thesis using assms(1) that by (auto simp: vec_get)
  qed
  have "for_each (\<lambda>i. f (vector_get v (int i))) [0..<length (vec_list v)] s
      = for_each (\<lambda>i. f (Some (the (vec_list v ! i)))) [0..<length (vec_list v)] s"
    using get by (intro for_each_cong) simp_all
  also have "\<dots> = for_each (\<lambda>x. f (Some x)) (map (\<lambda>i. the (vec_list v ! i)) [0..<length (vec_list v)]) s"
    by (simp add: for_each_map)
  finally show ?thesis using assms(1) by (simp add: map_nth_upt_eq)
qed

lemma for_each_vector:
  assumes "vec_ok v" "None \<notin> set (vec_list v)"
  shows "for_each (\<lambda>i s. do { x \<leftarrow> vector_get v (int i); f x s }) [0..<vector_getsize v] s
    = for_each f (map the (vec_list v)) s"
  using for_each_elements [OF assms, of "\<lambda>x s. do { x \<leftarrow> x; f x s }"] by simp

lemma map_Some_the: "None \<notin> set xs \<Longrightarrow> map Some (map the xs) = xs"
  by (induction xs) auto

lemma filter_Some: "None \<notin> set xs \<Longrightarrow> filter (\<lambda>x. x \<noteq> None) xs = xs"
  by (rule filter_True) (metis)

lemma clear_step:
  assumes ok: "heap_ok m" and P: "h_pe m p = Some P"
  shows "\<exists>m'. pe_clear m p True = Some m' \<and> heap_ok m' \<and> same_frame m m' \<and>
    (\<forall>q f. hosts m' q f \<longleftrightarrow> hosts m q f \<and> q \<noteq> p) \<and>
    (\<forall>q. q \<noteq> p \<longrightarrow> h_pe m' q = h_pe m q) \<and> (\<forall>f. \<not> hosts m p f \<longrightarrow> h_le m' f = h_le m f)"
proof -
  note Pok = pe_okD [OF heap_okD(1) [OF ok P]]
  let ?temp = "vector_appendall vector_create (hostedLE P)"
  let ?es = "map the (vec_list (hostedLE P))"
  have "filter (\<lambda>x. x \<noteq> None) (vec_list (hostedLE P)) = vec_list (hostedLE P)"
    using Pok(3) by (rule filter_Some)
  then have temp: "vec_ok ?temp" "vec_list ?temp = vec_list (hostedLE P)"
    using vec_appendall [of vector_create "hostedLE P"] Pok(1) by auto
  have es: "map Some ?es = vec_list (hostedLE P)"
    using Pok(3) by (rule map_Some_the)
  have mem: "f \<in> set ?es \<longleftrightarrow> hosts m p f" for f
  proof -
    have "f \<in> set ?es \<longleftrightarrow> Some f \<in> set (map Some ?es)" by (metis image_eqI imageE list.set_map option.inject)
    then show ?thesis unfolding es using P by (simp add: hosts_def)
  qed
  have dist: "distinct ?es" using Pok(2) distinct_map [of Some ?es] unfolding es by blast
  have eq: "pe_clear m p True = for_each (\<lambda>e m. do { (_, m') \<leftarrow> pe_removeLE m p e True; Some m' }) ?es m"
    using for_each_vector [OF temp(1), where f = "\<lambda>e m. do { (_, m') \<leftarrow> pe_removeLE m p e True; Some m' }"] Pok(3)
    by (simp add: pe_clear_def P temp(2))
  have all: "\<forall>e\<in>set ?es. hosts m p e" using mem by blast
  show ?thesis unfolding eq using clear_loop [OF ok dist all] unfolding mem by blast
qed

subsection \<open>Properties of physical entities\<close>

text \<open>What the program can observe of the memory: everything but the spare capacity of vectors.\<close>

definition pe_view :: "pe \<Rightarrow> string \<times> resource option \<times> nat option list \<times> int" where
  "pe_view P = (pe_label P, pe_resource P, vec_list (hostedLE P), indexinsystem P)"

definition mem_view :: "mem \<Rightarrow> (nat \<rightharpoonup> le) \<times> (nat \<Rightarrow> (string \<times> resource option \<times> nat option list \<times> int) option)" where
  "mem_view m = (h_le m, \<lambda>p. map_option pe_view (h_pe m p))"

lemma removed_placed_list:
  "pe_ok P \<Longrightarrow> Some e \<notin> set (vec_list (hostedLE P)) \<Longrightarrow>
   vec_list (snd (vector_remove (vector_append (hostedLE P) (Some e))
     (vector_getindex (vector_append (hostedLE P) (Some e)) (Some e)))) = vec_list (hostedLE P)"
  by (intro vec.append_remove) (simp_all add: pe_okD)

lemma remove_placed:
  assumes ok: "heap_ok m" and at: "h_pe m p = Some P" "pe_resource P = Some R" "h_le m e = Some E"
    and free: "host E = None" and fits: "le_fits (rnum R) E" and R: "res_ok R"
  shows "\<exists>m2. pe_removeLE (placed m p P R e E) p e True = Some (True, m2) \<and> mem_view m2 = mem_view m \<and>
    h_next m2 = h_next m \<and> h_rng m2 = h_rng m \<and> heap_ok m2"
proof -
  let ?m1 = "placed m p P R e E"
  let ?P1 = "P\<lparr>pe_resource := Some (R\<lparr>usage := used R E\<rparr>), hostedLE := vector_append (hostedLE P) (Some e)\<rparr>"
  let ?E1 = "E\<lparr>host := Some p\<rparr>"
  let ?m2 = "unplaced ?m1 p ?P1 (R\<lparr>usage := used R E\<rparr>) e ?E1"
  note Pok = heap_okD(1) [OF ok at(1)]
  have nh: "Some e \<notin> set (vec_list (hostedLE P))"
    using heap_okD(2) [OF ok, of p e] at free by (auto simp: hosts_def)
  have at1: "h_pe ?m1 p = Some ?P1" "h_le ?m1 e = Some ?E1" by (simp_all add: placed_def)
  have ok1: "heap_ok ?m1" by (rule placed_ok [OF ok at free fits])
  have h1: "hosts ?m1 p e" using hosts_placed [OF at(1) Pok] by simp
  have dem: "used R E = used R ?E1" "released (R\<lparr>usage := used R E\<rparr>) ?E1 = released (R\<lparr>usage := used R E\<rparr>) E"
    by (simp_all add: used_def released_def)
  have rel: "resource_release (R\<lparr>usage := used R E\<rparr>) ?E1 = Some (True, R)"
    using resource_release_used [OF R, of ?E1] fits dem by simp
  have "pe_removeLE ?m1 p e True = Some (True, ?m2)"
  proof -
    have "\<not> vector_getindex (hostedLE ?P1) (Some e) < 0"
      using h1 at1(1) vec.index_neg_iff [OF pe_okD(1) [OF heap_okD(1) [OF ok1 at1(1)]]]
      by (auto simp: hosts_def)
    then show ?thesis
      using at1 rel released_used [OF R, of E] dem by (simp add: pe_ops unplaced_def)
  qed
  moreover have "mem_view ?m2 = mem_view m"
  proof -
    have "pe_view (P\<lparr>pe_resource := Some (R\<lparr>usage := usage R\<rparr>), hostedLE := snd (vector_remove
        (vector_append (hostedLE P) (Some e)) (vector_getindex (vector_append (hostedLE P) (Some e)) (Some e)))\<rparr>) = pe_view P"
      using removed_placed_list [OF Pok nh] at(2) by (simp add: pe_view_def)
    moreover have "E\<lparr>host := None\<rparr> = E" using free by simp
    ultimately show ?thesis
      using at released_used [OF R, of E] dem by (auto simp: mem_view_def unplaced_def placed_def fun_eq_iff)
  qed
  moreover have "heap_ok ?m2" by (rule unplaced_ok [OF ok1 at1(1) _ at1(2) h1]) simp
  moreover have "h_next ?m2 = h_next m" "h_rng ?m2 = h_rng m" by (simp_all add: unplaced_def placed_def)
  ultimately show ?thesis by blast
qed

text \<open>C10: placing an LE that is not hosted on a PE and removing it again succeeds and leaves every LE,
  every resource, every hosted list and every index as it was.\<close>

theorem pe_place_remove_roundtrip:
  assumes "heap_ok m" "h_pe m p = Some P" "pe_resource P = Some R" "h_le m e = Some E"
    and "host E = None" "le_fits (rnum R) E" "res_ok R"
  shows "\<exists>normal m1 m2. pe_placeLE m p e True = Some (normal, m1) \<and> hosts m1 p e \<and>
    pe_removeLE m1 p e True = Some (True, m2) \<and> mem_view m2 = mem_view m"
proof -
  have nh: "\<not> hosts m p e" using heap_okD(2) [OF assms(1)] assms(4,5) by simp
  note Pok = heap_okD(1) [OF assms(1,2)]
  have "hosts (placed m p P R e E) p e" using hosts_placed [OF assms(2) Pok] by simp
  then show ?thesis
    using pe_placeLE_eq [OF assms(2) Pok assms(3,4,6) nh] remove_placed [OF assms] by blast
qed

definition sample_pe :: pe where
  "sample_pe = \<lparr>pe_label = ''node'', pe_resource = Some sample_res, hostedLE = vector_create, indexinsystem = 0\<rparr>"

definition sample_mem :: mem where
  "sample_mem = \<lparr>h_le = [1 \<mapsto> sample_le], h_pe = [0 \<mapsto> sample_pe], h_next = 2, h_rng = (\<lambda>_. 0)\<rparr>"

lemma sample_heap:
  "heap_ok sample_mem" "h_pe sample_mem 0 = Some sample_pe" "pe_resource sample_pe = Some sample_res"
  "h_le sample_mem 1 = Some sample_le" "host sample_le = None"
  by (auto simp: heap_ok_def sample_mem_def sample_pe_def pe_ok_def hosts_def sample_ok sample_le_def
      split: if_splits)

theorem pe_place_remove_roundtrip_witness:
  "\<exists>normal m1 m2. pe_placeLE sample_mem 0 1 True = Some (normal, m1) \<and> hosts m1 0 1 \<and>
    pe_removeLE m1 0 1 True = Some (True, m2) \<and> mem_view m2 = mem_view sample_mem"
  using pe_place_remove_roundtrip [OF sample_heap sample_ok(2,1)] .

text \<open>C17: \<open>pe_placeLE\<close> keeps the memory consistent: it succeeds for every LE that is not hosted and has
  enough demands, keeps the invariant, makes the PE the host of the LE, and changes no other
  hosting, no name, no capacity and no demand.\<close>

theorem pe_placeLE_invariant:
  assumes "heap_ok m" "h_pe m p = Some P" "pe_resource P = Some R" "h_le m e = Some E"
    and "host E = None" "le_fits (rnum R) E"
  shows "\<exists>normal m'. pe_placeLE m p e True = Some (normal, m') \<and> heap_ok m' \<and> same_frame m m' \<and>
    (\<forall>q f. hosts m' q f \<longleftrightarrow> hosts m q f \<or> (q = p \<and> f = e))"
  using place_step [OF assms] by metis

theorem pe_placeLE_invariant_witness:
  "\<exists>normal m'. pe_placeLE sample_mem 0 1 True = Some (normal, m') \<and> heap_ok m' \<and> same_frame sample_mem m' \<and>
    (\<forall>q f. hosts m' q f \<longleftrightarrow> hosts sample_mem q f \<or> (q = 0 \<and> f = 1))"
  using pe_placeLE_invariant [OF sample_heap sample_ok(2)] .

text \<open>C18: \<open>pe_clear\<close> terminates, keeps the invariant, and leaves the PE without hosted LEs. Every other PE is what it was, its
  usage and hosted list included, and so is every LE that the PE did not host; names, capacities and demands are kept throughout.
  Iterating over a copy of the hosted list matters, because each removal shifts the list itself.\<close>

theorem pe_clear_unhosts_all:
  assumes "heap_ok m" "h_pe m p = Some P"
  shows "\<exists>m'. pe_clear m p True = Some m' \<and> heap_ok m' \<and> same_frame m m' \<and>
    (\<forall>q f. hosts m' q f \<longleftrightarrow> hosts m q f \<and> q \<noteq> p) \<and>
    (\<forall>q. q \<noteq> p \<longrightarrow> h_pe m' q = h_pe m q) \<and> (\<forall>f. \<not> hosts m p f \<longrightarrow> h_le m' f = h_le m f)"
  by (rule clear_step [OF assms])

theorem pe_clear_unhosts_all_witness:
  "\<exists>normal m m'. pe_placeLE sample_mem 0 1 True = Some (normal, m) \<and> hosts m 0 1 \<and>
    pe_clear m 0 True = Some m' \<and> \<not> hosts m' 0 1"
proof -
  obtain b m where m: "pe_placeLE sample_mem 0 1 True = Some (b, m)" "heap_ok m" "same_frame sample_mem m"
    "\<And>q f. hosts m q f \<longleftrightarrow> hosts sample_mem q f \<or> (q = 0 \<and> f = 1)"
    using place_step [OF sample_heap sample_ok(2)] by metis
  obtain P where "h_pe m 0 = Some P" using same_frameD(1) [OF m(3) sample_heap(2)] by blast
  from pe_clear_unhosts_all [OF m(2) this] show ?thesis using m(1,4) by blast
qed

end
