(* ===== verification/Hashmap.thy ===== *)
theory Hashmap
  imports Vector Hashing
begin

unbundle bit_operations_syntax

section \<open>The hash map (utils/hashmap.c)\<close>

text \<open>
  An open-addressing hash table with double hashing. An entry holds a data pointer, a flag word
  and a key string; removal clears the \<open>ACTIVE\<close> flag and leaves data and key behind (a tombstone).
  The table is a list of entries, a key is the contents of its C string (two keys are equal when
  \<open>strcmp\<close> says so), and a data pointer is an option.

  \<open>hashmap_insert\<close> and \<open>rehash\<close> call each other, and neither is known to return for every sequence
  of random numbers, so the group is one \<^theory_text>\<open>partial_function\<close> over a datatype of calls whose
  value \<^term>\<open>None\<close> stands for a call that does not return.

  The theory shows that a table without tombstones is a finite map: \<open>hashmap_get\<close> computes the
  abstraction \<open>hm_map\<close>, \<open>hashmap_insert\<close> updates it, \<open>hashmap_remove\<close> deletes from it, and
  \<open>hashmap_count\<close>, \<open>hashmap_getkeys\<close> and \<open>hashmap_getvalues\<close> agree with it; and that inserting
  into a table of prime size with a free slot always returns without rehashing.
\<close>

record 'a hEntry =
  hdata :: "'a option"
  flags :: "32 word"
  keystring :: "string option"

record 'a hashmap =
  table :: "'a hEntry list"
  hsize :: nat
  hcount :: nat

definition ACTIVE :: "32 word" where "ACTIVE = 1"

definition TABLE_STARTSIZE :: nat where "TABLE_STARTSIZE = 1021"

definition empty_entry :: "'a hEntry" where
  "empty_entry = \<lparr>hdata = None, flags = 0, keystring = None\<rparr>"

text \<open>\<open>calloc\<close> gives a table of zeroed entries.\<close>

definition fresh_table :: "nat \<Rightarrow> 'a hashmap" where
  "fresh_table n = \<lparr>table = replicate n empty_entry, hsize = n, hcount = 0\<rparr>"

definition is_active :: "'a hEntry \<Rightarrow> bool" where
  "is_active e \<longleftrightarrow> flags e AND ACTIVE \<noteq> 0"

definition hm_index :: "'a hashmap \<Rightarrow> string \<Rightarrow> nat" where
  "hm_index hm k = unat (hashfunction k) mod hsize hm"

definition hm_step :: "'a hashmap \<Rightarrow> string \<Rightarrow> nat" where
  "hm_step hm k = unat (hashfunction k) mod (hsize hm - 2) + 1"

subsection \<open>Insertion and rehashing\<close>

text \<open>The \<open>for\<close> loop of \<open>hashmap_insert\<close>: at most \<open>n\<close> more slots are looked at, from \<open>index\<close> on;
  \<^term>\<open>None\<close> means that no slot was found.\<close>

fun insert_probe :: "nat \<Rightarrow> nat \<Rightarrow> nat \<Rightarrow> 'a hashmap \<Rightarrow> 'a option \<Rightarrow> string \<Rightarrow> 'a hashmap option" where
  "insert_probe 0 index step hm d k = None"
| "insert_probe (Suc n) index step hm d k =
     (let e = table hm ! index
      in if is_active e
         then if keystring e = Some k
              then Some (hm\<lparr>table := (table hm)[index := e\<lparr>hdata := d\<rparr>]\<rparr>)
              else insert_probe n ((index + step) mod hsize hm) step hm d k
         else Some (hm\<lparr>table := (table hm)[index :=
                 e\<lparr>flags := flags e OR ACTIVE, hdata := d, keystring := Some k\<rparr>],
               hcount := hcount hm + 1\<rparr>))"

datatype 'a hm_call =
    CallInsert "'a hashmap" "'a option" string rng
  | CallLoop "'a hashmap" "'a option" string rng
  | CallRehash "'a hashmap" rng
  | CallReinsert "'a hashmap" "'a hEntry list" rng

partial_function (option) hm_run :: "'a hm_call \<Rightarrow> ('a hashmap \<times> rng) option" where
  "hm_run c =
     (case c of
       CallInsert hm d k r \<Rightarrow>
         if hsize hm \<le> hcount hm
         then do { (hm', r') \<leftarrow> hm_run (CallRehash hm r); hm_run (CallLoop hm' d k r') }
         else hm_run (CallLoop hm d k r)
     | CallLoop hm d k r \<Rightarrow>
         (case insert_probe (hsize hm) (hm_index hm k) (hm_step hm k) hm d k of
            Some hm' \<Rightarrow> Some (hm', r)
          | None \<Rightarrow> do { (hm', r') \<leftarrow> hm_run (CallRehash hm r); hm_run (CallLoop hm' d k r') })
     | CallRehash hm r \<Rightarrow>
         do { (n, r') \<leftarrow> findPrimeGreaterThan (s32 (2 * int (hsize hm))) r;
              hm_run (CallReinsert (fresh_table (nat n)) (rev (table hm)) r') }
     | CallReinsert hm es r \<Rightarrow>
         (case es of
            [] \<Rightarrow> Some (hm, r)
          | e # es' \<Rightarrow>
              if flags e = ACTIVE
              then do { k \<leftarrow> keystring e;
                        (hm', r') \<leftarrow> hm_run (CallInsert hm (hdata e) k r);
                        hm_run (CallReinsert hm' es' r') }
              else hm_run (CallReinsert hm es' r)))"

declare hm_run.simps [code]

definition hashmap_insert :: "'a hashmap \<Rightarrow> 'a option \<Rightarrow> string \<Rightarrow> rng \<Rightarrow> ('a hashmap \<times> rng) option" where
  "hashmap_insert hm d k r = hm_run (CallInsert hm d k r)"

definition rehash :: "'a hashmap \<Rightarrow> rng \<Rightarrow> ('a hashmap \<times> rng) option" where
  "rehash hm r = hm_run (CallRehash hm r)"

definition hashmap_create :: "int \<Rightarrow> rng \<Rightarrow> ('a hashmap \<times> rng) option" where
  "hashmap_create n r =
     (if n = 0 then Some (fresh_table TABLE_STARTSIZE, r)
      else do { (p, r') \<leftarrow> findPrimeGreaterThan (s32 (n - 2)) r; Some (fresh_table (nat p), r') })"

subsection \<open>Removal and lookup\<close>

fun remove_probe :: "nat \<Rightarrow> nat \<Rightarrow> nat \<Rightarrow> 'a hashmap \<Rightarrow> string \<Rightarrow> 'a option \<times> 'a hashmap" where
  "remove_probe 0 index step hm k = (None, hm)"
| "remove_probe (Suc n) index step hm k =
     (let e = table hm ! index
      in if hdata e \<noteq> None
         then if keystring e = Some k
              then if is_active e
                   then (hdata e, hm\<lparr>table := (table hm)[index := e\<lparr>flags := flags e AND NOT ACTIVE\<rparr>],
                                     hcount := hcount hm - 1\<rparr>)
                   else (None, hm)
              else remove_probe n ((index + step) mod hsize hm) step hm k
         else (None, hm))"

definition hashmap_remove :: "'a hashmap \<Rightarrow> string \<Rightarrow> 'a option \<times> 'a hashmap" where
  "hashmap_remove hm k = remove_probe (hsize hm) (hm_index hm k) (hm_step hm k) hm k"

fun get_probe :: "nat \<Rightarrow> nat \<Rightarrow> nat \<Rightarrow> 'a hashmap \<Rightarrow> string \<Rightarrow> 'a option" where
  "get_probe 0 index step hm k = None"
| "get_probe (Suc n) index step hm k =
     (let e = table hm ! index
      in if keystring e = Some k
         then if is_active e then hdata e else None
         else if hdata e = None then None
         else get_probe n ((index + step) mod hsize hm) step hm k)"

definition hashmap_get :: "'a hashmap \<Rightarrow> string \<Rightarrow> 'a option" where
  "hashmap_get hm k =
     (if hcount hm \<noteq> 0 then get_probe (hsize hm) (hm_index hm k) (hm_step hm k) hm k else None)"

definition hashmap_count :: "'a hashmap \<Rightarrow> nat" where
  "hashmap_count hm = hcount hm"

definition hashmap_getvalues :: "'a hashmap \<Rightarrow> 'a vector" where
  "hashmap_getvalues hm =
     (if hcount hm \<noteq> 0
      then fold (\<lambda>i v. let e = table hm ! i in
                  if is_active e then case hdata e of Some x \<Rightarrow> vector_append v (Some x) | None \<Rightarrow> v
                  else v) [0..<hsize hm] vector_create
      else vector_create)"

definition hashmap_getkeys :: "'a hashmap \<Rightarrow> string vector" where
  "hashmap_getkeys hm =
     (if hcount hm \<noteq> 0
      then fold (\<lambda>i v. let e = table hm ! i in
                  if is_active e then vector_append v (keystring e) else v)
             [0..<hsize hm] vector_create
      else vector_create)"

subsection \<open>Probe sequences\<close>

text \<open>The slots a probe loop visits, in order; each loop is then a search in this list.\<close>

fun probes :: "nat \<Rightarrow> nat \<Rightarrow> nat \<Rightarrow> nat \<Rightarrow> nat list" where
  "probes 0 i s z = []"
| "probes (Suc n) i s z = i # probes n ((i + s) mod z) s z"

definition probe_seq :: "'a hashmap \<Rightarrow> string \<Rightarrow> nat list" where
  "probe_seq hm k = probes (hsize hm) (hm_index hm k) (hm_step hm k) (hsize hm)"

definition slot_insert :: "'a hashmap \<Rightarrow> nat \<Rightarrow> 'a option \<Rightarrow> string \<Rightarrow> 'a hashmap" where
  "slot_insert hm j d k =
     (let e = table hm ! j
      in if is_active e then hm\<lparr>table := (table hm)[j := e\<lparr>hdata := d\<rparr>]\<rparr>
         else hm\<lparr>table := (table hm)[j := e\<lparr>flags := flags e OR ACTIVE, hdata := d, keystring := Some k\<rparr>],
                 hcount := hcount hm + 1\<rparr>)"

definition slot_remove :: "'a hashmap \<Rightarrow> nat \<Rightarrow> 'a hashmap" where
  "slot_remove hm j =
     (let e = table hm ! j
      in hm\<lparr>table := (table hm)[j := e\<lparr>flags := flags e AND NOT ACTIVE\<rparr>], hcount := hcount hm - 1\<rparr>)"

text \<open>A slot at which an insertion of \<open>k\<close> stops, and one at which a lookup of \<open>k\<close> stops.\<close>

definition ins_stop :: "'a hashmap \<Rightarrow> string \<Rightarrow> nat \<Rightarrow> bool" where
  "ins_stop hm k j \<longleftrightarrow> \<not> is_active (table hm ! j) \<or> keystring (table hm ! j) = Some k"

definition get_stop :: "'a hashmap \<Rightarrow> string \<Rightarrow> nat \<Rightarrow> bool" where
  "get_stop hm k j \<longleftrightarrow> keystring (table hm ! j) = Some k \<or> hdata (table hm ! j) = None"

lemma insert_probe_find:
  "insert_probe n i s hm d k =
     map_option (\<lambda>j. slot_insert hm j d k) (List.find (ins_stop hm k) (probes n i s (hsize hm)))"
  by (induction n arbitrary: i) (auto simp: slot_insert_def ins_stop_def Let_def)

lemma remove_probe_find:
  "remove_probe n i s hm k =
     (case List.find (get_stop hm k) (probes n i s (hsize hm)) of
        None \<Rightarrow> (None, hm)
      | Some j \<Rightarrow> let e = table hm ! j in
          if hdata e \<noteq> None \<and> is_active e then (hdata e, slot_remove hm j) else (None, hm))"
  by (induction n arbitrary: i) (auto simp: slot_remove_def get_stop_def Let_def)

lemma get_probe_find:
  "get_probe n i s hm k =
     (case List.find (get_stop hm k) (probes n i s (hsize hm)) of
        None \<Rightarrow> None
      | Some j \<Rightarrow> let e = table hm ! j in if keystring e = Some k \<and> is_active e then hdata e else None)"
  by (induction n arbitrary: i) (auto simp: get_stop_def Let_def)

lemma probes_less: "i < z \<Longrightarrow> j \<in> set (probes n i s z) \<Longrightarrow> j < z"
proof (induction n arbitrary: i)
  case 0
  then show ?case by simp
next
  case (Suc n)
  have "(i + s) mod z < z" using Suc.prems(1) by simp
  then show ?case using Suc.prems Suc.IH [of "(i + s) mod z"] by auto
qed

lemma probe_seq_less: "j \<in> set (probe_seq hm k) \<Longrightarrow> j < hsize hm"
  unfolding probe_seq_def
  by (cases "hsize hm = 0") (auto simp: hm_index_def intro: probes_less [of "_ mod hsize hm"])

lemma probes_eq: "i < z \<Longrightarrow> probes n i s z = map (\<lambda>t. (i + t * s) mod z) [0..<n]"
proof (induction n arbitrary: i)
  case 0
  then show ?case by simp
next
  case (Suc n)
  have "[0..<Suc n] = 0 # map Suc [0..<n]" by (simp add: upt_conv_Cons map_Suc_upt del: upt_Suc)
  moreover have "((i + s) mod z + t * s) mod z = (i + Suc t * s) mod z" for t
    by (simp add: mod_add_left_eq add.assoc)
  ultimately show ?case using Suc by (simp del: upt_Suc)
qed

text \<open>With a step that is coprime to the size, the loop visits every slot.\<close>

lemma probes_complete:
  assumes "i < z" "coprime s z"
  shows "set (probes z i s z) = {..<z}"
proof -
  have "inj_on (\<lambda>t. (i + t * s) mod z) {..<z}"
  proof (rule linorder_inj_onI')
    fix t u assume tu: "t \<in> {..<z}" "u \<in> {..<z}" "t < u"
    show "(i + t * s) mod z \<noteq> (i + u * s) mod z"
    proof
      assume "(i + t * s) mod z = (i + u * s) mod z"
      then have "z dvd (i + u * s) - (i + t * s)"
        using tu(3) by (metis mod_eq_dvd_iff_nat add_le_mono le_refl mult_le_mono order_less_imp_le)
      then have "z dvd (u - t) * s" by (simp add: diff_mult_distrib)
      then have "z dvd u - t" using assms(2) by (simp add: coprime_dvd_mult_left_iff coprime_commute)
      moreover have "0 < u - t" "u - t < z" using tu by auto
      ultimately show False using nat_dvd_not_less by blast
    qed
  qed
  moreover have "(\<lambda>t. (i + t * s) mod z) ` {..<z} \<subseteq> {..<z}" using assms(1) by auto
  ultimately have "(\<lambda>t. (i + t * s) mod z) ` {..<z} = {..<z}" by (simp add: endo_inj_surj)
  then show ?thesis using assms(1) by (simp add: probes_eq atLeast0LessThan)
qed

lemma probe_seq_complete:
  assumes "is_prime (hsize hm)" "3 \<le> hsize hm"
  shows "set (probe_seq hm k) = {..<hsize hm}"
proof -
  have "hm_step hm k < hsize hm"
  proof -
    have "unat (hashfunction k) mod (hsize hm - 2) < hsize hm - 2" using assms(2) by simp
    then show ?thesis unfolding hm_step_def by linarith
  qed
  moreover have "0 < hm_step hm k" by (simp add: hm_step_def)
  ultimately have "coprime (hm_step hm k) (hsize hm)"
    using is_prime_coprime_less [OF assms(1)] by (metis coprime_commute)
  then show ?thesis
    unfolding probe_seq_def using assms(2) by (intro probes_complete) (simp_all add: hm_index_def)
qed

subsection \<open>Invariant and abstraction\<close>

lemma active_flags [simp]:
  "flags e = ACTIVE \<Longrightarrow> is_active e" "flags e = 0 \<Longrightarrow> \<not> is_active e"
  "is_active (e\<lparr>hdata := d\<rparr>) \<longleftrightarrow> is_active e" "is_active (e\<lparr>keystring := ks\<rparr>) \<longleftrightarrow> is_active e"
  "is_active (e\<lparr>flags := flags e OR ACTIVE\<rparr>)" "\<not> is_active (e\<lparr>flags := flags e AND NOT ACTIVE\<rparr>)"
  by (simp_all add: is_active_def ACTIVE_def bit.conj_disj_distrib2 and.assoc)

text \<open>The occupied slots, the key-value pairs in table order, and the finite map they form.\<close>

definition hm_slots :: "'a hashmap \<Rightarrow> nat list" where
  "hm_slots hm = filter (\<lambda>j. is_active (table hm ! j)) [0..<hsize hm]"

definition hm_entries :: "'a hashmap \<Rightarrow> (string \<times> 'a) list" where
  "hm_entries hm = map (\<lambda>j. (the (keystring (table hm ! j)), the (hdata (table hm ! j)))) (hm_slots hm)"

definition hm_map :: "'a hashmap \<Rightarrow> string \<rightharpoonup> 'a" where
  "hm_map hm = map_of (hm_entries hm)"

text \<open>A slot is virgin, or it has been used and holds data and a key. The last clause of \<open>hm_ok\<close> is
  the probe-chain invariant: a lookup of an active key stops at its slot, because every earlier
  slot of its probe sequence is used and holds another key.\<close>

definition entry_ok :: "'a hEntry \<Rightarrow> bool" where
  "entry_ok e \<longleftrightarrow> e = empty_entry \<or>
     (hdata e \<noteq> None \<and> keystring e \<noteq> None \<and> (flags e = 0 \<or> flags e = ACTIVE))"

definition hm_ok :: "'a hashmap \<Rightarrow> bool" where
  "hm_ok hm \<longleftrightarrow> length (table hm) = hsize hm \<and> (\<forall>e\<in>set (table hm). entry_ok e) \<and>
     hcount hm = length (hm_slots hm) \<and>
     (\<forall>j<hsize hm. \<forall>k. is_active (table hm ! j) \<longrightarrow> keystring (table hm ! j) = Some k \<longrightarrow>
        List.find (get_stop hm k) (probe_seq hm k) = Some j)"

definition no_tombstones :: "'a hashmap \<Rightarrow> bool" where
  "no_tombstones hm \<longleftrightarrow> (\<forall>e\<in>set (table hm). is_active e \<or> e = empty_entry)"

definition hm_clean :: "'a hashmap \<Rightarrow> bool" where
  "hm_clean hm \<longleftrightarrow> hm_ok hm \<and> no_tombstones hm"

lemma empty_entry_simps [simp]:
  "hdata empty_entry = None" "flags empty_entry = 0" "keystring empty_entry = None"
  "\<not> is_active empty_entry" "entry_ok empty_entry"
  by (simp_all add: empty_entry_def is_active_def entry_ok_def)

lemma hm_okD:
  assumes "hm_ok hm"
  shows "length (table hm) = hsize hm" "j < hsize hm \<Longrightarrow> entry_ok (table hm ! j)"
    "hcount hm = length (hm_slots hm)"
    "j < hsize hm \<Longrightarrow> is_active (table hm ! j) \<Longrightarrow> keystring (table hm ! j) = Some k \<Longrightarrow>
       List.find (get_stop hm k) (probe_seq hm k) = Some j"
  using assms by (auto simp: hm_ok_def)

lemma active_slot:
  assumes "hm_ok hm" "j < hsize hm" "is_active (table hm ! j)"
  obtains k x where "keystring (table hm ! j) = Some k" "hdata (table hm ! j) = Some x"
    "flags (table hm ! j) = ACTIVE"
proof -
  have "entry_ok (table hm ! j)" using assms by (simp add: hm_okD)
  then show ?thesis using assms(3) that by (auto simp: entry_ok_def)
qed

lemma active_the:
  assumes "hm_ok hm" "j < hsize hm" "is_active (table hm ! j)"
  shows "(keystring (table hm ! j) = Some k) = (the (keystring (table hm ! j)) = k)"
    "(hdata (table hm ! j) = Some x) = (the (hdata (table hm ! j)) = x)"
  using active_slot [OF assms] by force+

lemma active_hdata: "hm_ok hm \<Longrightarrow> j < hsize hm \<Longrightarrow> is_active (table hm ! j) \<Longrightarrow> hdata (table hm ! j) \<noteq> None"
  by (metis active_slot option.distinct(1))

lemma distinct_hm_keys:
  assumes "hm_ok hm"
  shows "distinct (map fst (hm_entries hm))"
proof -
  have "inj_on (\<lambda>j. the (keystring (table hm ! j))) (set (hm_slots hm))"
  proof (rule inj_onI)
    fix i j
    assume ij: "i \<in> set (hm_slots hm)" "j \<in> set (hm_slots hm)"
      and eq: "the (keystring (table hm ! i)) = the (keystring (table hm ! j))"
    obtain k where "keystring (table hm ! i) = Some k" "keystring (table hm ! j) = Some k"
      using ij eq active_slot [OF assms] by (auto simp: hm_slots_def) (metis option.sel)
    then show "i = j" using ij hm_okD(4) [OF assms, of i k] hm_okD(4) [OF assms, of j k]
      by (simp add: hm_slots_def)
  qed
  then show ?thesis by (simp add: hm_entries_def distinct_map comp_def hm_slots_def)
qed

text \<open>The abstraction, read off the table: a key is bound exactly by its active slot.\<close>

lemma hm_map_Some_iff:
  assumes "hm_ok hm"
  shows "hm_map hm k = Some x \<longleftrightarrow>
     (\<exists>j<hsize hm. is_active (table hm ! j) \<and> keystring (table hm ! j) = Some k \<and> hdata (table hm ! j) = Some x)"
proof -
  have "hm_map hm k = Some x \<longleftrightarrow> (k, x) \<in> set (hm_entries hm)"
    unfolding hm_map_def using distinct_hm_keys [OF assms] by (rule map_of_eq_Some_iff)
  also have "\<dots> \<longleftrightarrow> (\<exists>j<hsize hm. is_active (table hm ! j) \<and>
      keystring (table hm ! j) = Some k \<and> hdata (table hm ! j) = Some x)"
    by (auto simp: hm_entries_def hm_slots_def active_the [OF assms] cong: conj_cong)
  finally show ?thesis .
qed

lemma map_eqI: "(\<And>k x. m k = Some x \<longleftrightarrow> m' k = Some x) \<Longrightarrow> m = m'"
  by (rule ext) (metis option.exhaust)

lemma card_dom_hm_map: "hm_ok hm \<Longrightarrow> card (dom (hm_map hm)) = hcount hm"
  using distinct_card [OF distinct_hm_keys, of hm]
  by (simp add: hm_map_def dom_map_of_conv_image_fst hm_okD(3) hm_entries_def image_image)

lemma fresh_table_clean [simp]: "hm_clean (fresh_table n)" "hm_map (fresh_table n) = Map.empty"
  by (auto simp: hm_clean_def hm_ok_def no_tombstones_def fresh_table_def hm_slots_def hm_map_def
      hm_entries_def filter_empty_conv)

subsection \<open>Lookup\<close>

lemma hashmap_get_map:
  assumes "hm_ok hm"
  shows "hashmap_get hm k = hm_map hm k"
proof (cases "hm_map hm k")
  case None
  have "get_probe (hsize hm) (hm_index hm k) (hm_step hm k) hm k = None"
  proof (cases "List.find (get_stop hm k) (probe_seq hm k)")
    case (Some j)
    then have "j < hsize hm" using find_SomeD probe_seq_less by metis
    then have "\<not> (keystring (table hm ! j) = Some k \<and> is_active (table hm ! j))"
      using None hm_map_Some_iff [OF assms] active_slot [OF assms] by (metis option.distinct(1))
    then show ?thesis using Some by (auto simp: get_probe_find probe_seq_def Let_def)
  qed (simp add: get_probe_find probe_seq_def)
  then show ?thesis using None by (simp add: hashmap_get_def)
next
  case (Some x)
  then obtain j where j: "j < hsize hm" "is_active (table hm ! j)" "keystring (table hm ! j) = Some k"
    "hdata (table hm ! j) = Some x" using hm_map_Some_iff [OF assms] by auto
  then have "j \<in> set (hm_slots hm)" by (simp add: hm_slots_def)
  then have "hcount hm \<noteq> 0" using hm_okD(3) [OF assms] by (metis length_0_conv list.set(1) empty_iff)
  then show ?thesis
    using j Some hm_okD(4) [OF assms j(1-3)]
    by (simp add: hashmap_get_def get_probe_find probe_seq_def Let_def)
qed

subsection \<open>Insertion into a clean table\<close>

lemma length_filter_insert:
  assumes "distinct xs" "j \<in> set xs" "\<not> P j" "\<And>i. i \<in> set xs \<Longrightarrow> Q i = (i = j \<or> P i)"
  shows "length (filter Q xs) = Suc (length (filter P xs))"
proof -
  have "set (filter Q xs) = insert j (set (filter P xs))" using assms(2,4) by auto
  moreover have "card (set (filter Q xs)) = length (filter Q xs)"
    "card (set (filter P xs)) = length (filter P xs)"
    using assms(1) by (simp_all only: distinct_card distinct_filter)
  moreover have "j \<notin> set (filter P xs)" using assms(3) by simp
  ultimately show ?thesis by (metis card_insert_disjoint finite_set)
qed

lemma find_drop_stop:
  "List.find P xs = Some i \<Longrightarrow> i \<noteq> j \<Longrightarrow> (\<And>l. l \<in> set xs \<Longrightarrow> Q l = (P l \<and> l \<noteq> j)) \<Longrightarrow>
   List.find Q xs = Some i"
  by (induction xs) (auto split: if_splits)

text \<open>The slot an insertion of \<open>k\<close> picks is the slot of \<open>k\<close> when \<open>k\<close> is bound, and otherwise a
  virgin slot before which a lookup of \<open>k\<close> does not stop.\<close>

lemma insert_slot_cases:
  assumes "hm_clean hm" "List.find (ins_stop hm k) (probe_seq hm k) = Some j"
  obtains (bound) "j < hsize hm" "is_active (table hm ! j)" "keystring (table hm ! j) = Some k"
  | (free) "j < hsize hm" "table hm ! j = empty_entry" "k \<notin> dom (hm_map hm)"
      "List.find (get_stop hm k) (probe_seq hm k) = Some j"
proof -
  have ok: "hm_ok hm" and nt: "no_tombstones hm" using assms(1) by (auto simp: hm_clean_def)
  have j: "j < hsize hm" "ins_stop hm k j" using assms(2) find_SomeD probe_seq_less by metis+
  have stops: "ins_stop hm k i = get_stop hm k i" if "i \<in> set (probe_seq hm k)" for i
  proof -
    have i: "i < hsize hm" using that by (rule probe_seq_less)
    then have "is_active (table hm ! i) \<or> table hm ! i = empty_entry"
      using nt hm_okD(1) [OF ok] by (auto simp: no_tombstones_def)
    then show ?thesis using active_hdata [OF ok i] by (auto simp: ins_stop_def get_stop_def)
  qed
  have get: "List.find (get_stop hm k) (probe_seq hm k) = Some j"
    using assms(2) stops by (metis find_cong)
  show thesis
  proof (cases "is_active (table hm ! j)")
    case True
    then show ?thesis using j that(1) by (simp add: ins_stop_def)
  next
    case False
    then have "table hm ! j = empty_entry" using nt j hm_okD(1) [OF ok] by (auto simp: no_tombstones_def)
    moreover have "k \<notin> dom (hm_map hm)"
    proof
      assume "k \<in> dom (hm_map hm)"
      then obtain i where "i < hsize hm" "is_active (table hm ! i)" "keystring (table hm ! i) = Some k"
        using hm_map_Some_iff [OF ok] by auto
      then show False using hm_okD(4) [OF ok] get False by (metis option.inject)
    qed
    ultimately show ?thesis using that(2) j get by blast
  qed
qed

lemma probe_seq_cong: "hsize hm' = hsize hm \<Longrightarrow> probe_seq hm' k = probe_seq hm k"
  by (simp add: probe_seq_def hm_index_def hm_step_def)

text \<open>
  One lemma for the three ways a slot changes (new data, a new key, the flag cleared): the slot \<open>j\<close>
  is the one a lookup of \<open>k\<close> stops at, it was virgin or held \<open>k\<close>, and it holds \<open>k\<close> afterwards.
\<close>

text \<open>Overwriting the slot at which the search for \<open>k\<close> stops with an entry for \<open>k\<close>: the search for an active entry
  still stops at it.\<close>

lemma slot_chain:
  fixes hm :: "'a hashmap" and c :: nat
  assumes ok: "hm_ok hm" and j: "j < hsize hm" and e: "entry_ok e" "keystring e = Some k"
    and stop: "List.find (get_stop hm k) (probe_seq hm k) = Some j"
  defines "hm' \<equiv> hm\<lparr>table := (table hm)[j := e], hcount := c\<rparr>"
  assumes i: "i < hsize hm" "is_active (table hm' ! i)" "keystring (table hm' ! i) = Some k'"
  shows "List.find (get_stop hm' k') (probe_seq hm' k') = Some i"
proof (cases "k' = k")
  have nth: "table hm' ! i = (if i = j then e else table hm ! i)" if "i < hsize hm" for i
    using that hm_okD(1) [OF ok] j by (simp add: hm'_def nth_list_update)
  {
    case True
    have "i = j"
    proof (rule ccontr)
      assume "i \<noteq> j"
      then show False using i True hm_okD(4) [OF ok, of i k] stop by (simp add: nth)
    qed
    moreover have "get_stop hm' k l = get_stop hm k l" if "l \<in> set (probe_seq hm k)" for l
      using probe_seq_less [OF that] find_SomeD [OF stop] e by (auto simp: get_stop_def nth)
    ultimately show ?thesis
      using stop True probe_seq_cong [of hm' hm k] by (simp add: hm'_def cong: find_cong)
  next
    case False
    have e': "hdata e \<noteq> None" using e by (auto simp: entry_ok_def)
    have ij: "i \<noteq> j" using False i e by (auto simp: nth split: if_splits)
    then have "List.find (get_stop hm k') (probe_seq hm k') = Some i"
      using i hm_okD(4) [OF ok] by (auto simp: nth)
    then have "List.find (get_stop hm' k') (probe_seq hm k') = Some i"
    proof (rule find_drop_stop [OF _ ij])
      fix l assume "l \<in> set (probe_seq hm k')"
      then have "l < hsize hm" by (rule probe_seq_less)
      then show "get_stop hm' k' l = (get_stop hm k' l \<and> l \<noteq> j)"
        using False e e' by (auto simp: get_stop_def nth)
    qed
    then show ?thesis using probe_seq_cong [of hm' hm k'] by (simp add: hm'_def)
  }
qed

lemma slot_update:
  fixes hm :: "'a hashmap" and c :: nat
  assumes ok: "hm_ok hm" and j: "j < hsize hm" and e: "entry_ok e" "keystring e = Some k"
    and stop: "List.find (get_stop hm k) (probe_seq hm k) = Some j"
    and old: "table hm ! j = empty_entry \<or> keystring (table hm ! j) = Some k"
  defines "hm' \<equiv> hm\<lparr>table := (table hm)[j := e], hcount := c\<rparr>"
  assumes c: "c = length (hm_slots hm')"
  shows "hm_ok hm'" "hm_map hm' = (hm_map hm)(k := if is_active e then hdata e else None)"
proof -
  have len: "length (table hm) = hsize hm" by (rule hm_okD(1) [OF ok])
  have nth: "table hm' ! i = (if i = j then e else table hm ! i)" if "i < hsize hm" for i
    using that len j by (simp add: hm'_def nth_list_update)
  have oldk: "keystring (table hm ! j) \<noteq> Some k'" if "k' \<noteq> k" for k' using old that by auto
  have "length (table hm') = hsize hm" using len by (simp add: hm'_def)
  then have "\<forall>x\<in>set (table hm'). entry_ok x"
    using hm_okD(2) [OF ok] e(1) by (simp add: all_set_conv_all_nth nth)
  moreover have "hsize hm' = hsize hm" "hcount hm' = length (hm_slots hm')"
    using c by (simp_all add: hm'_def)
  ultimately show ok': "hm_ok hm'"
    using slot_chain [OF ok j e stop, of _ c, folded hm'_def] \<open>length (table hm') = hsize hm\<close> by (simp add: hm_ok_def)
  have sz: "hsize hm' = hsize hm" by (simp add: hm'_def)
  have uniq: "i = j" if "i < hsize hm" "is_active (table hm ! i)" "keystring (table hm ! i) = Some k" for i
    using hm_okD(4) [OF ok that] stop by simp
  show "hm_map hm' = (hm_map hm)(k := if is_active e then hdata e else None)"
  proof (rule map_eqI)
    fix k' z
    show "hm_map hm' k' = Some z \<longleftrightarrow> ((hm_map hm)(k := if is_active e then hdata e else None)) k' = Some z"
    proof (cases "k' = k")
      case True
      have at_j: "table hm' ! j = e" using nth [OF j] by simp
      have only_j: "i = j" if "i < hsize hm" "is_active (table hm' ! i)" "keystring (table hm' ! i) = Some k" for i
        using that uniq nth by (metis (full_types))
      have "hm_map hm' k = Some z \<longleftrightarrow> is_active e \<and> hdata e = Some z"
        unfolding hm_map_Some_iff [OF ok'] sz using j e(2) at_j only_j by metis
      then show ?thesis using True by auto
    next
      case False
      have at_i: "is_active (table hm' ! i) \<and> keystring (table hm' ! i) = Some k' \<and> hdata (table hm' ! i) = Some z
        \<longleftrightarrow> is_active (table hm ! i) \<and> keystring (table hm ! i) = Some k' \<and> hdata (table hm ! i) = Some z"
        if "i < hsize hm" for i
        using that oldk [OF False] e(2) False nth [OF that] by (cases "i = j") simp_all
      have "hm_map hm' k' = Some z \<longleftrightarrow> hm_map hm k' = Some z"
        unfolding hm_map_Some_iff [OF ok'] hm_map_Some_iff [OF ok] sz using at_i by blast
      then show ?thesis using False by simp
    qed
  qed
qed

lemma hm_slots_upd:
  "hm_ok hm \<Longrightarrow> j < hsize hm \<Longrightarrow>
   hm_slots (hm\<lparr>table := (table hm)[j := e], hcount := c\<rparr>)
     = filter (\<lambda>i. if i = j then is_active e else is_active (table hm ! i)) [0..<hsize hm]"
  using hm_okD(1) by (force simp: hm_slots_def nth_list_update intro!: filter_cong)

lemma no_tombstones_upd:
  "no_tombstones hm \<Longrightarrow> is_active e \<Longrightarrow> no_tombstones (hm\<lparr>table := (table hm)[j := e], hcount := c\<rparr>)"
  by (auto simp: no_tombstones_def dest!: set_update_subset_insert [THEN subsetD])

lemma slot_insert_clean:
  assumes clean: "hm_clean hm" and find: "List.find (ins_stop hm k) (probe_seq hm k) = Some j"
  shows "hm_clean (slot_insert hm j (Some x) k)"
    "hm_map (slot_insert hm j (Some x) k) = (hm_map hm)(k \<mapsto> x)"
    "hsize (slot_insert hm j (Some x) k) = hsize hm"
proof -
  have ok: "hm_ok hm" and nt: "no_tombstones hm" using clean by (auto simp: hm_clean_def)
  show "hsize (slot_insert hm j (Some x) k) = hsize hm" by (simp add: slot_insert_def Let_def)
  have "hm_clean (slot_insert hm j (Some x) k) \<and>
        hm_map (slot_insert hm j (Some x) k) = (hm_map hm)(k \<mapsto> x)"
  proof (cases rule: insert_slot_cases [OF clean find, case_names bound free])
    case bound
    let ?e = "(table hm ! j)\<lparr>hdata := Some x\<rparr>"
    have e: "entry_ok ?e" "keystring ?e = Some k" "is_active ?e"
      using bound active_slot [OF ok bound(1,2)] by (auto simp: entry_ok_def)
    have eq: "slot_insert hm j (Some x) k = hm\<lparr>table := (table hm)[j := ?e], hcount := hcount hm\<rparr>"
      using bound by (simp add: slot_insert_def Let_def)
    have c: "hcount hm = length (hm_slots (hm\<lparr>table := (table hm)[j := ?e], hcount := hcount hm\<rparr>))"
    proof -
      have "(\<lambda>i. if i = j then is_active ?e else is_active (table hm ! i)) = (\<lambda>i. is_active (table hm ! i))"
        using bound by auto
      then show ?thesis
        using bound ok hm_okD(3) [OF ok] by (simp only: hm_slots_upd) (simp add: hm_slots_def)
    qed
    show ?thesis
      using slot_update [OF ok bound(1) e(1,2) hm_okD(4) [OF ok bound] _ c] bound e
        no_tombstones_upd [OF nt e(3), of "hcount hm" j]
      unfolding eq by (simp add: hm_clean_def)
  next
    case free
    let ?e = "\<lparr>hdata = Some x, flags = ACTIVE, keystring = Some k\<rparr>"
    have e: "entry_ok ?e" "is_active ?e" by (simp_all add: entry_ok_def)
    have eq: "slot_insert hm j (Some x) k = hm\<lparr>table := (table hm)[j := ?e], hcount := hcount hm + 1\<rparr>"
      using free by (simp add: slot_insert_def Let_def empty_entry_def)
    have "length (filter (\<lambda>i. if i = j then is_active ?e else is_active (table hm ! i)) [0..<hsize hm])
        = Suc (length (filter (\<lambda>i. is_active (table hm ! i)) [0..<hsize hm]))"
      using free e by (intro length_filter_insert [where j = j]) auto
    then have c: "hcount hm + 1 = length (hm_slots (hm\<lparr>table := (table hm)[j := ?e], hcount := hcount hm + 1\<rparr>))"
      using free ok hm_okD(3) [OF ok] by (simp add: hm_slots_upd) (simp add: hm_slots_def)
    show ?thesis
      using slot_update [OF ok free(1) e(1) _ free(4) _ c] free e
        no_tombstones_upd [OF nt e(2), of "hcount hm + 1" j]
      unfolding eq by (simp add: hm_clean_def)
  qed
  then show "hm_clean (slot_insert hm j (Some x) k)"
    "hm_map (slot_insert hm j (Some x) k) = (hm_map hm)(k \<mapsto> x)" by auto
qed

subsection \<open>Removal\<close>

lemma hashmap_remove_map:
  assumes ok: "hm_ok hm"
  shows "fst (hashmap_remove hm k) = hm_map hm k" "hm_ok (snd (hashmap_remove hm k))"
    "hm_map (snd (hashmap_remove hm k)) = (hm_map hm)(k := None)"
proof -
  have "fst (hashmap_remove hm k) = hm_map hm k \<and> hm_ok (snd (hashmap_remove hm k)) \<and>
    hm_map (snd (hashmap_remove hm k)) = (hm_map hm)(k := None)"
  proof (cases "hm_map hm k")
    case None
    have "hashmap_remove hm k = (None, hm)"
    proof (cases "List.find (get_stop hm k) (probe_seq hm k)")
      case (Some j)
      then have j: "j < hsize hm" "get_stop hm k j" using find_SomeD probe_seq_less by metis+
      then have "\<not> (hdata (table hm ! j) \<noteq> None \<and> is_active (table hm ! j))"
        using None hm_map_Some_iff [OF ok, of k] by (fastforce simp: get_stop_def)
      then show ?thesis
        using Some by (auto simp: hashmap_remove_def remove_probe_find Let_def simp flip: probe_seq_def)
    qed (simp add: hashmap_remove_def remove_probe_find flip: probe_seq_def)
    then show ?thesis using None ok by (simp add: fun_upd_idem)
  next
    case (Some x)
    then obtain j where j: "j < hsize hm" "is_active (table hm ! j)" "keystring (table hm ! j) = Some k"
      "hdata (table hm ! j) = Some x" using hm_map_Some_iff [OF ok] by auto
    note stop = hm_okD(4) [OF ok j(1-3)]
    let ?e = "(table hm ! j)\<lparr>flags := flags (table hm ! j) AND NOT ACTIVE\<rparr>"
    have "flags (table hm ! j) = ACTIVE" using active_slot [OF ok j(1,2)] by metis
    then have e: "entry_ok ?e" "keystring ?e = Some k" using j by (simp_all add: entry_ok_def)
    have eq: "hashmap_remove hm k = (Some x, hm\<lparr>table := (table hm)[j := ?e], hcount := hcount hm - 1\<rparr>)"
      using j stop by (simp add: hashmap_remove_def remove_probe_find slot_remove_def Let_def flip: probe_seq_def)
    have "length (filter (\<lambda>i. is_active (table hm ! i)) [0..<hsize hm])
        = Suc (length (filter (\<lambda>i. if i = j then is_active ?e else is_active (table hm ! i)) [0..<hsize hm]))"
      using j by (intro length_filter_insert [where j = j]) auto
    then have c: "hcount hm - 1 = length (hm_slots (hm\<lparr>table := (table hm)[j := ?e], hcount := hcount hm - 1\<rparr>))"
      using j ok hm_okD(3) [OF ok] by (simp add: hm_slots_upd) (simp add: hm_slots_def)
    show ?thesis
      using slot_update [OF ok j(1) e stop _ c] j Some unfolding eq by simp
  qed
  then show "fst (hashmap_remove hm k) = hm_map hm k" "hm_ok (snd (hashmap_remove hm k))"
    "hm_map (snd (hashmap_remove hm k)) = (hm_map hm)(k := None)" by auto
qed

subsection \<open>Insertion with rehashing: whatever returns is right\<close>

definition reinsert_entry :: "'a hEntry \<Rightarrow> (string \<rightharpoonup> 'a) \<Rightarrow> (string \<rightharpoonup> 'a)" where
  "reinsert_entry e m = (if flags e = ACTIVE then m(the (keystring e) \<mapsto> the (hdata e)) else m)"

lemma reinsert_all:
  assumes "hm_ok hm"
  shows "fold reinsert_entry (rev (table hm)) Map.empty = hm_map hm"
proof -
  have "map (\<lambda>j. (the (keystring (table hm ! j)), the (hdata (table hm ! j)))) (hm_slots hm)
      = map (\<lambda>e. (the (keystring e), the (hdata e))) (filter is_active (map ((!) (table hm)) [0..<hsize hm]))"
    by (simp add: hm_slots_def filter_map comp_def)
  then have "hm_entries hm = map (\<lambda>e. (the (keystring e), the (hdata e))) (filter is_active (table hm))"
    using hm_okD(1) [OF assms] map_nth [of "table hm"] by (simp add: hm_entries_def)
  moreover have "\<forall>e\<in>set es. entry_ok e \<Longrightarrow> fold reinsert_entry (rev es) Map.empty
      = map_of (map (\<lambda>e. (the (keystring e), the (hdata e))) (filter is_active es))" for es :: "'a hEntry list"
    by (induction es) (auto simp: reinsert_entry_def entry_ok_def)
  ultimately show ?thesis using assms by (simp add: hm_map_def hm_ok_def)
qed

fun hm_post :: "'a hm_call \<Rightarrow> 'a hashmap \<Rightarrow> bool" where
  "hm_post (CallInsert hm d k r) hm' \<longleftrightarrow>
     (\<forall>x. d = Some x \<longrightarrow> hm_clean hm \<longrightarrow> hm_clean hm' \<and> hm_map hm' = (hm_map hm)(k \<mapsto> x))"
| "hm_post (CallLoop hm d k r) hm' \<longleftrightarrow>
     (\<forall>x. d = Some x \<longrightarrow> hm_clean hm \<longrightarrow> hm_clean hm' \<and> hm_map hm' = (hm_map hm)(k \<mapsto> x))"
| "hm_post (CallRehash hm r) hm' \<longleftrightarrow> (hm_ok hm \<longrightarrow> hm_clean hm' \<and> hm_map hm' = hm_map hm)"
| "hm_post (CallReinsert hm es r) hm' \<longleftrightarrow>
     (hm_clean hm \<longrightarrow> (\<forall>e\<in>set es. entry_ok e) \<longrightarrow>
        hm_clean hm' \<and> hm_map hm' = fold reinsert_entry es (hm_map hm))"

lemma hm_clean_ok: "hm_clean hm \<Longrightarrow> hm_ok hm"
  by (simp add: hm_clean_def)

text \<open>One round of the calls keeps the postcondition, for any implementation \<open>f\<close> of the calls.\<close>

lemma insert_probe_clean:
  assumes "insert_probe (hsize hm) (hm_index hm k) (hm_step hm k) hm (Some x) k = Some hm'" "hm_clean hm"
  shows "hm_clean hm'" "hm_map hm' = (hm_map hm)(k \<mapsto> x)" "hsize hm' = hsize hm"
  using assms slot_insert_clean [OF assms(2)] by (auto simp: insert_probe_find simp flip: probe_seq_def)

lemma reinsert_step:
  assumes IH: "\<And>c hm r. f c = Some (hm, r) \<Longrightarrow> hm_post c hm" and e: "entry_ok e" "flags e = ACTIVE" "hm_clean hm"
    and run: "do { k \<leftarrow> keystring e; (hm1, r1) \<leftarrow> f (CallInsert hm (hdata e) k r); f (CallReinsert hm1 es r1) } = Some (hm', r')"
    and es: "\<forall>e\<in>set es. entry_ok e"
  shows "hm_clean hm' \<and> hm_map hm' = fold reinsert_entry es (reinsert_entry e (hm_map hm))"
proof -
  from run obtain k hm1 r1 where k: "keystring e = Some k" and i: "f (CallInsert hm (hdata e) k r) = Some (hm1, r1)"
    and j: "f (CallReinsert hm1 es r1) = Some (hm', r')" by (auto simp: bind_eq_Some_conv)
  have "e \<noteq> empty_entry" using e(2) by (auto simp: ACTIVE_def)
  then obtain x where x: "hdata e = Some x" using e by (auto simp: entry_ok_def)
  have "hm_clean hm1" "hm_map hm1 = (hm_map hm)(k \<mapsto> x)" using IH [OF i] x e(3) by auto
  then show ?thesis using IH [OF j] es k x e(2) by (simp add: reinsert_entry_def)
qed

lemma hm_run_post:
  assumes "hm_run c = Some y"
  shows "hm_post c (fst y)"
proof (rule hm_run.raw_induct [where P = "\<lambda>c y. hm_post c (fst y)", OF _ assms], goal_cases)
  case (1 f c y)
  have IH: "\<And>c hm r. f c = Some (hm, r) \<Longrightarrow> hm_post c hm" using 1(1) by (metis fst_conv)
  obtain hm' r' where y: "y = (hm', r')" by (cases y)
  note step = 1(2) [unfolded y]
  have IH_loop: "hm_clean hm1 \<and> hm_map hm1 = (hm_map hm)(k \<mapsto> x)"
    if "do { (hm', r') \<leftarrow> f (CallRehash hm r); f (CallLoop hm' (Some x) k r') } = Some (hm1, r1)" "hm_clean hm"
    for hm hm1 k x r r1
  proof -
    from that(1) obtain hm2 r2 where a: "f (CallRehash hm r) = Some (hm2, r2)"
      and b: "f (CallLoop hm2 (Some x) k r2) = Some (hm1, r1)" by (auto simp: bind_eq_Some_conv)
    show ?thesis using IH [OF a] IH [OF b] hm_clean_ok [OF that(2)] by simp
  qed
  have "hm_post c hm'"
  proof (cases c)
    case (CallInsert hm d k r)
    then show ?thesis using step IH_loop IH by (fastforce split: if_splits)
  next
    case (CallLoop hm d k r)
    then show ?thesis using step IH_loop insert_probe_clean by (fastforce split: option.splits)
  next
    case (CallRehash hm r)
    then obtain n r1 where "f (CallReinsert (fresh_table n) (rev (table hm)) r1) = Some (hm', r')"
      using step by (auto simp: bind_eq_Some_conv)
    from IH [OF this] show ?thesis using reinsert_all [of hm] CallRehash by (auto simp: hm_ok_def)
  next
    case (CallReinsert hm es r)
    then show ?thesis
    proof (cases es)
      case (Cons e es')
      show ?thesis
      proof (cases "flags e = ACTIVE")
        case True
        then have run: "do { k \<leftarrow> keystring e; (hm1, r1) \<leftarrow> f (CallInsert hm (hdata e) k r);
            f (CallReinsert hm1 es' r1) } = Some (hm', r')"
          using CallReinsert Cons step by simp
        show ?thesis
          using reinsert_step [where f = f, OF IH _ True _ run] CallReinsert Cons by simp
      next
        case False
        then have "f (CallReinsert hm es' r) = Some (hm', r')" using CallReinsert Cons step by simp
        from IH [OF this] show ?thesis using CallReinsert Cons False by (simp add: reinsert_entry_def)
      qed
    qed (use CallReinsert step in auto)
  qed
  then show ?case by (simp add: y)
qed

lemma hm_run_sound: "hm_run c = Some (hm', r') \<Longrightarrow> hm_post c hm'"
  using hm_run_post [of c "(hm', r')"] by simp

lemma hashmap_insert_map:
  "hashmap_insert hm (Some x) k r = Some (hm', r') \<Longrightarrow> hm_clean hm \<Longrightarrow>
     hm_clean hm' \<and> hm_map hm' = (hm_map hm)(k \<mapsto> x)"
  using hm_run_sound [of "CallInsert hm (Some x) k r"] by (simp add: hashmap_insert_def)

subsection \<open>Insertion returns while there is room\<close>

text \<open>The number of insertions a table takes without rehashing, whatever the keys.\<close>

definition hm_room :: "'a hashmap \<Rightarrow> nat" where
  "hm_room hm = (if is_prime (hsize hm) \<and> 3 \<le> hsize hm then hsize hm - hcount hm else 0)"

lemma free_slot:
  assumes "hm_ok hm" "hcount hm < hsize hm"
  shows "\<exists>j<hsize hm. \<not> is_active (table hm ! j)"
proof (rule ccontr)
  assume "\<not> ?thesis"
  then have "hm_slots hm = [0..<hsize hm]" by (simp add: hm_slots_def filter_id_conv)
  then show False using assms hm_okD(3) [OF assms(1)] by simp
qed

lemma hashmap_insert_returns:
  assumes "hm_clean hm" "0 < hm_room hm"
  shows "\<exists>hm'. hashmap_insert hm (Some x) k r = Some (hm', r) \<and> hm_room hm - 1 \<le> hm_room hm' \<and> hsize hm' = hsize hm"
proof -
  have ok: "hm_ok hm" using assms(1) by (rule hm_clean_ok)
  have room: "is_prime (hsize hm)" "3 \<le> hsize hm" "hcount hm < hsize hm"
    using assms(2) by (auto simp: hm_room_def split: if_splits)
  obtain i where "i \<in> set (probe_seq hm k)" "ins_stop hm k i"
    using free_slot [OF ok room(3)] probe_seq_complete [OF room(1,2)] by (auto simp: ins_stop_def)
  then obtain j where j: "List.find (ins_stop hm k) (probe_seq hm k) = Some j"
    using find_not_None [of i] by blast
  let ?hm' = "slot_insert hm j (Some x) k"
  have "hashmap_insert hm (Some x) k r = Some (?hm', r)"
    using j room(3) unfolding hashmap_insert_def
    by (subst hm_run.simps, simp, subst hm_run.simps)
      (simp add: insert_probe_find flip: probe_seq_def)
  moreover have "hm_room hm - 1 \<le> hm_room ?hm'" "hsize ?hm' = hsize hm"
    by (auto simp: hm_room_def slot_insert_def Let_def)
  ultimately show ?thesis by blast
qed

lemma hm_room_fresh: "hm_room (fresh_table TABLE_STARTSIZE) = 1021"
  by (simp add: hm_room_def fresh_table_def TABLE_STARTSIZE_def is_prime_1021)

subsection \<open>Enumeration\<close>

lemma fold_vector_append:
  assumes "vec_ok v"
  shows "vec_ok (fold (\<lambda>i v. case f i of Some y \<Rightarrow> vector_append v (Some y) | None \<Rightarrow> v) is v) \<and>
    vec_list (fold (\<lambda>i v. case f i of Some y \<Rightarrow> vector_append v (Some y) | None \<Rightarrow> v) is v)
      = vec_list v @ map f (filter (\<lambda>i. f i \<noteq> None) is)"
  using assms by (induction "is" arbitrary: v) (auto split: option.splits)

lemma hm_enumerate:
  assumes ok: "hm_ok hm"
  shows "vec_ok (hashmap_getkeys hm)" "vec_list (hashmap_getkeys hm) = map (\<lambda>e. Some (fst e)) (hm_entries hm)"
    "vec_ok (hashmap_getvalues hm)" "vec_list (hashmap_getvalues hm) = map (\<lambda>e. Some (snd e)) (hm_entries hm)"
proof -
  let ?fk = "\<lambda>i. if is_active (table hm ! i) then keystring (table hm ! i) else None"
  let ?fv = "\<lambda>i. if is_active (table hm ! i) then hdata (table hm ! i) else None"
  have act: "keystring (table hm ! i) \<noteq> None \<and> hdata (table hm ! i) \<noteq> None"
    if "i < hsize hm" "is_active (table hm ! i)" for i
    using active_slot [OF ok that] by (metis option.distinct(1))
  have filters: "filter (\<lambda>i. ?fk i \<noteq> None) [0..<hsize hm] = hm_slots hm"
    "filter (\<lambda>i. ?fv i \<noteq> None) [0..<hsize hm] = hm_slots hm"
    using act by (auto simp: hm_slots_def intro!: filter_cong split: if_splits)
  have maps: "map ?fk (hm_slots hm) = map (\<lambda>e. Some (fst e)) (hm_entries hm)"
    "map ?fv (hm_slots hm) = map (\<lambda>e. Some (snd e)) (hm_entries hm)"
    using act by (auto simp: hm_entries_def hm_slots_def)
  have "hcount hm = 0 \<Longrightarrow> hm_entries hm = []" using hm_okD(3) [OF ok] by (simp add: hm_entries_def)
  moreover have "hashmap_getkeys hm =
     (if hcount hm \<noteq> 0 then fold (\<lambda>i v. case ?fk i of Some y \<Rightarrow> vector_append v (Some y) | None \<Rightarrow> v)
        [0..<hsize hm] vector_create else vector_create)"
    using act by (fastforce simp: hashmap_getkeys_def Let_def split: option.split intro!: fold_cong ext)
  moreover have "hashmap_getvalues hm =
     (if hcount hm \<noteq> 0 then fold (\<lambda>i v. case ?fv i of Some y \<Rightarrow> vector_append v (Some y) | None \<Rightarrow> v)
        [0..<hsize hm] vector_create else vector_create)"
    by (auto simp: hashmap_getvalues_def Let_def split: option.splits intro!: fold_cong)
  ultimately show "vec_ok (hashmap_getkeys hm)" "vec_ok (hashmap_getvalues hm)"
    "vec_list (hashmap_getkeys hm) = map (\<lambda>e. Some (fst e)) (hm_entries hm)"
    "vec_list (hashmap_getvalues hm) = map (\<lambda>e. Some (snd e)) (hm_entries hm)"
    using fold_vector_append [of vector_create ?fk "[0..<hsize hm]"]
      fold_vector_append [of vector_create ?fv "[0..<hsize hm]"] filters maps
    by simp_all
qed

subsection \<open>Rehashing returns\<close>

lemma hm_roomD: "0 < hm_room hm \<Longrightarrow> is_prime (hsize hm) \<and> 3 \<le> hsize hm \<and> hcount hm < hsize hm"
  by (auto simp: hm_room_def split: if_splits)

text \<open>When the prime search yields a real prime, every entry of the old table fits into the new one
  and no nested rehash takes place.\<close>

lemma reinsert_returns:
  assumes "hm_clean hm" "\<forall>e\<in>set es. entry_ok e" "length (filter is_active es) \<le> hm_room hm"
  shows "\<exists>hm'. hm_run (CallReinsert hm es r) = Some (hm', r) \<and>
    hm_room hm - length (filter is_active es) \<le> hm_room hm'"
  using assms
proof (induction es arbitrary: hm)
  case Nil
  then show ?case by (subst hm_run.simps) simp
next
  case (Cons e es)
  show ?case
  proof (cases "is_active e")
    case True
    then have fl: "flags e = ACTIVE" using Cons.prems(2) by (auto simp: entry_ok_def)
    obtain k x where kx: "keystring e = Some k" "hdata e = Some x"
      using True Cons.prems(2) by (auto simp: entry_ok_def)
    obtain hm1 where hm1: "hashmap_insert hm (Some x) k r = Some (hm1, r)" "hm_room hm - 1 \<le> hm_room hm1"
      using hashmap_insert_returns [OF Cons.prems(1), of x k r] Cons.prems(3) True by auto
    then have "hm_clean hm1" using hashmap_insert_map [OF hm1(1) Cons.prems(1)] by simp
    moreover have "length (filter is_active es) \<le> hm_room hm1" using Cons.prems(3) True hm1(2) by simp
    ultimately obtain hm' where "hm_run (CallReinsert hm1 es r) = Some (hm', r)"
      "hm_room hm1 - length (filter is_active es) \<le> hm_room hm'"
      using Cons.IH [of hm1] Cons.prems by auto
    then show ?thesis
      using hm1 kx fl True by (subst hm_run.simps) (auto simp flip: hashmap_insert_def)
  next
    case False
    then have "flags e \<noteq> ACTIVE" by auto
    then show ?thesis using Cons False by (subst hm_run.simps) auto
  qed
qed

lemma filter_active_table:
  assumes "hm_ok hm"
  shows "length (filter is_active (table hm)) = hcount hm"
proof -
  have "filter is_active (table hm) = filter is_active (map ((!) (table hm)) [0..<hsize hm])"
    using map_nth [of "table hm"] hm_okD(1) [OF assms] by simp
  then show ?thesis using hm_okD(3) [OF assms] by (simp add: filter_map hm_slots_def comp_def)
qed

lemma hm_room_fresh_prime: "is_prime p \<Longrightarrow> 3 \<le> p \<Longrightarrow> hm_room (fresh_table p) = p"
  by (simp add: hm_room_def fresh_table_def)

lemma rehash_returns:
  assumes ok: "hm_ok hm" and p: "is_prime p" "3 \<le> p" "hcount hm < p"
    and find: "findPrimeGreaterThan (s32 (2 * int (hsize hm))) r = Some (int p, r')"
  shows "\<exists>hm'. rehash hm r = Some (hm', r') \<and> p - hcount hm \<le> hm_room hm'"
proof -
  let ?es = "rev (table hm)"
  have "\<forall>e\<in>set ?es. entry_ok e" using ok by (simp add: hm_ok_def)
  moreover have n: "length (filter is_active ?es) = hcount hm"
    using filter_active_table [OF ok] by (simp flip: rev_filter)
  ultimately obtain hm' where "hm_run (CallReinsert (fresh_table p) ?es r') = Some (hm', r')"
    "p - hcount hm \<le> hm_room hm'"
    using reinsert_returns [of "fresh_table p" ?es r'] p by (auto simp: hm_room_fresh_prime)
  then show ?thesis unfolding rehash_def by (subst hm_run.simps) (simp add: find)
qed

lemma rehash_map: "rehash hm r = Some (hm', r') \<Longrightarrow> hm_ok hm \<Longrightarrow> hm_clean hm' \<and> hm_map hm' = hm_map hm"
  using hm_run_sound [of "CallRehash hm r"] by (simp add: rehash_def)

lemma insert_loop_returns:
  assumes "hm_clean hm" "0 < hm_room hm"
  shows "\<exists>hm'. hm_run (CallLoop hm (Some x) k r) = Some (hm', r)"
  using hashmap_insert_returns [OF assms, of x k r] hm_roomD [OF assms(2)]
  by (auto simp: hashmap_insert_def hm_run.simps [of "CallInsert hm (Some x) k r"])

subsection \<open>The contract of a string-keyed map\<close>

text \<open>
  What the hash set, the map array, the cloud system and the state updater rely on. A map is
  \<open>clean\<close> while nothing has been removed from it since it was created or rebuilt; insertion is
  only promised to be correct on clean maps. \<open>room\<close> bounds the insertions that are certain to
  return.
\<close>

locale string_map =
  fixes get :: "'h \<Rightarrow> string \<Rightarrow> 'v option"
    and ins :: "'h \<Rightarrow> 'v option \<Rightarrow> string \<Rightarrow> rng \<Rightarrow> ('h \<times> rng) option"
    and del :: "'h \<Rightarrow> string \<Rightarrow> 'v option \<times> 'h"
    and abs :: "'h \<Rightarrow> string \<rightharpoonup> 'v"
    and ok :: "'h \<Rightarrow> bool"
    and clean :: "'h \<Rightarrow> bool"
    and room :: "'h \<Rightarrow> nat"
  assumes get_abs: "ok h \<Longrightarrow> get h k = abs h k"
    and clean_imp_ok: "clean h \<Longrightarrow> ok h"
    and ins_sound: "clean h \<Longrightarrow> ins h (Some x) k r = Some (h', r') \<Longrightarrow>
      clean h' \<and> abs h' = (abs h)(k \<mapsto> x)"
    and ins_total: "clean h \<Longrightarrow> 0 < room h \<Longrightarrow>
      \<exists>h'. ins h (Some x) k r = Some (h', r) \<and> room h - 1 \<le> room h'"
    and del_sound: "ok h \<Longrightarrow> fst (del h k) = abs h k \<and> ok (snd (del h k)) \<and>
      abs (snd (del h k)) = (abs h)(k := None)"
begin

lemma ins_returns:
  assumes "clean h" "0 < room h"
  obtains h' where "ins h (Some x) k r = Some (h', r)" "clean h'" "abs h' = (abs h)(k \<mapsto> x)"
    "room h - 1 \<le> room h'"
  using ins_total [OF assms, of x k r] ins_sound [OF assms(1)] that by metis

lemma get_after_ins:
  assumes "clean h" "ins h (Some x) k r = Some (h', r')"
  shows "get h' k' = (if k' = k then Some x else get h k')"
proof -
  have "clean h'" "abs h' = (abs h)(k \<mapsto> x)" using ins_sound [OF assms] by auto
  then show ?thesis using assms(1) by (simp add: get_abs clean_imp_ok)
qed

lemma get_after_del: "ok h \<Longrightarrow> get (snd (del h k)) k' = (if k' = k then None else get h k')"
  using del_sound [of h k] by (simp add: get_abs)

lemma del_result: "ok h \<Longrightarrow> fst (del h k) = get h k"
  using del_sound [of h k] by (simp add: get_abs)

text \<open>A loop that inserts a list of pairs, the later ones replacing the earlier ones.\<close>

lemma ins_all:
  assumes "clean h" "length kvs \<le> room h"
  shows "\<exists>h'. for_each (\<lambda>(k, x) (h, r). ins h (Some x) k r) kvs (h, r) = Some (h', r) \<and> clean h' \<and>
    abs h' = abs h ++ map_of (rev kvs) \<and> room h - length kvs \<le> room h'"
  using assms
proof (induction kvs arbitrary: h)
  case Nil
  then show ?case by simp
next
  case (Cons kv kvs)
  obtain k x where kv: "kv = (k, x)" by force
  obtain h1 where h1: "ins h (Some x) k r = Some (h1, r)" "clean h1" "abs h1 = (abs h)(k \<mapsto> x)"
    "room h - 1 \<le> room h1" using Cons.prems by (auto intro: ins_returns [of h x k r])
  then have "length kvs \<le> room h1" using Cons.prems(2) by simp
  from Cons.IH [OF h1(2) this] obtain h' where h': "for_each (\<lambda>(k, x) (h, r). ins h (Some x) k r) kvs (h1, r) = Some (h', r)"
    "clean h'" "abs h' = abs h1 ++ map_of (rev kvs)" "room h1 - length kvs \<le> room h'" by blast
  have "abs h' = abs h ++ map_of (rev (kv # kvs))"
    using h' h1 by (simp add: kv map_of_append map_add_upd_left flip: map_add_upd)
      (simp add: fun_eq_iff map_add_def split: option.split)
  then show ?case using h' h1 kv by auto
qed

end

interpretation hm: string_map hashmap_get hashmap_insert hashmap_remove hm_map hm_ok hm_clean hm_room
proof unfold_locales
  show "hashmap_get h k = hm_map h k" if "hm_ok h" for h :: "'a hashmap" and k
    using that by (rule hashmap_get_map)
  show "hm_ok h" if "hm_clean h" for h :: "'a hashmap" using that by (rule hm_clean_ok)
  show "hm_clean h' \<and> hm_map h' = (hm_map h)(k \<mapsto> x)"
    if "hm_clean h" "hashmap_insert h (Some x) k r = Some (h', r')" for h h' :: "'a hashmap" and x k r r'
    using that(2,1) by (rule hashmap_insert_map)
  show "\<exists>h'. hashmap_insert h (Some x) k r = Some (h', r) \<and> hm_room h - 1 \<le> hm_room h'"
    if "hm_clean h" "0 < hm_room h" for h :: "'a hashmap" and x k r
    using hashmap_insert_returns [OF that] by blast
  show "fst (hashmap_remove h k) = hm_map h k \<and> hm_ok (snd (hashmap_remove h k)) \<and>
      hm_map (snd (hashmap_remove h k)) = (hm_map h)(k := None)" if "hm_ok h" for h :: "'a hashmap" and k
    using hashmap_remove_map [OF that] by blast
qed

subsection \<open>Properties of the hash map\<close>

text \<open>C12: as long as a table of prime size has a free slot and nothing has been removed from it,
  \<open>hashmap_insert\<close> returns without rehashing, and afterwards \<open>hashmap_get\<close> finds the new value
  under its key and every other key as before.\<close>

theorem hashmap_insert_then_get:
  assumes "hm_clean hm" "0 < hm_room hm"
  shows "\<exists>hm'. hashmap_insert hm (Some x) k r = Some (hm', r) \<and> hm_clean hm' \<and>
    (\<forall>k'. hashmap_get hm' k' = (if k' = k then Some x else hashmap_get hm k'))"
  using hm.ins_returns [OF assms, of x k r] hm.get_after_ins [OF assms(1)] by metis

theorem hashmap_insert_then_get_witness:
  "\<exists>hm'. hashmap_insert (fresh_table TABLE_STARTSIZE) (Some (5::nat)) ''node-1'' (\<lambda>_. 0) = Some (hm', \<lambda>_. 0) \<and>
    hm_clean hm' \<and> (\<forall>k'. hashmap_get hm' k' = (if k' = ''node-1'' then Some 5 else hashmap_get (fresh_table TABLE_STARTSIZE) k'))"
  by (rule hashmap_insert_then_get) (simp_all add: hm_room_fresh)

text \<open>C19: \<open>hashmap_remove\<close> returns what \<open>hashmap_get\<close> found under the key, and afterwards the key is
  gone and every other key is found as before; the probe chains of the other keys stay intact
  because the removed entry stays behind as a tombstone.\<close>

theorem hashmap_remove_then_get:
  assumes "hm_ok hm"
  shows "fst (hashmap_remove hm k) = hashmap_get hm k \<and> hm_ok (snd (hashmap_remove hm k)) \<and>
    hashmap_get (snd (hashmap_remove hm k)) k' = (if k' = k then None else hashmap_get hm k')"
  using hm.del_result [OF assms] hm.del_sound [OF assms] hm.get_after_del [OF assms] by blast

theorem hashmap_remove_then_get_witness:
  "\<exists>hm'. hashmap_insert (fresh_table TABLE_STARTSIZE) (Some (5::nat)) ''node-1'' (\<lambda>_. 0) = Some (hm', \<lambda>_. 0) \<and>
    fst (hashmap_remove hm' ''node-1'') = Some 5 \<and> hashmap_get (snd (hashmap_remove hm' ''node-1'')) ''node-1'' = None"
proof -
  obtain hm' where hm': "hashmap_insert (fresh_table TABLE_STARTSIZE) (Some (5::nat)) ''node-1'' (\<lambda>_. 0) = Some (hm', \<lambda>_. 0)"
    "hm_clean hm'" "hm_map hm' = (hm_map (fresh_table TABLE_STARTSIZE))(''node-1'' \<mapsto> 5)"
    by (rule hm.ins_returns [of "fresh_table TABLE_STARTSIZE"]) (simp_all add: hm_room_fresh)
  then have "hm_ok hm'" by (simp add: hm.clean_imp_ok)
  from hashmap_remove_then_get [OF this, of "''node-1''" "''node-1''"]
  show ?thesis using hm' by (simp add: hm.get_abs hm.clean_imp_ok)
qed

text \<open>C20: rehashing. From a table of at most 23168 slots the search for a larger size returns, whatever numbers \<open>rand()\<close> delivers, with a number that is more than
  twice the old size. If that number is prime, \<open>rehash\<close> returns and the new table has room for what is left of its
  slots, so that the insertion that follows returns too. Whenever \<open>rehash\<close> returns, for a prime or not, the new
  table holds the same map, without tombstones.\<close>

theorem rehash_preserves_map:
  assumes "hm_ok hm" "2 \<le> hsize hm" "2 * hsize hm < 46337"
  shows "\<exists>p r'. findPrimeGreaterThan (s32 (2 * int (hsize hm))) r = Some (int p, r') \<and> 2 * hsize hm < p \<and> p \<le> 46337 \<and>
    (is_prime p \<longrightarrow> (\<exists>hm'. rehash hm r = Some (hm', r') \<and> p - hcount hm \<le> hm_room hm' \<and>
       (\<exists>hm''. hashmap_insert hm' (Some x) k r' = Some (hm'', r')))) \<and>
    (\<forall>hm' r''. rehash hm r = Some (hm', r'') \<longrightarrow> hm_clean hm' \<and> hm_map hm' = hm_map hm)"
proof -
  have "s32 (2 * int (hsize hm)) = 2 * int (hsize hm)" using assms(3) by (intro s32_id in_s32_range) auto
  moreover obtain w r' where w: "findPrimeGreaterThan (2 * int (hsize hm)) r = Some (w, r')" "2 * int (hsize hm) < w" "w \<le> 46337"
    using findPrimeGreaterThan_stops [OF is_prime_46337, of "2 * int (hsize hm)" r] assms(2,3) by (auto simp: PRIME_BOUND_def)
  moreover define p where "p = nat w"
  ultimately have p: "findPrimeGreaterThan (s32 (2 * int (hsize hm))) r = Some (int p, r')" "2 * hsize hm < p" "p \<le> 46337" by auto
  have "hcount hm \<le> hsize hm" using filter_active_table [OF assms(1)] hm_okD(1) [OF assms(1)] by (metis length_filter_le)
  then have c: "hcount hm < p" "3 \<le> p" using p(2) assms(2) by auto
  have "\<exists>hm'. rehash hm r = Some (hm', r') \<and> p - hcount hm \<le> hm_room hm' \<and> (\<exists>hm''. hashmap_insert hm' (Some x) k r' = Some (hm'', r'))"
    if pr: "is_prime p"
  proof -
    obtain hm' where hm': "rehash hm r = Some (hm', r')" "p - hcount hm \<le> hm_room hm'"
      using rehash_returns [OF assms(1) pr c(2,1) p(1)] by blast
    then have "hm_clean hm'" "0 < hm_room hm'" using rehash_map [OF hm'(1) assms(1)] c(1) by auto
    then show ?thesis using hm' hm.ins_returns [of hm' x k r'] by metis
  qed
  then show ?thesis using p rehash_map assms(1) by blast
qed

lemma is_prime_7: "is_prime 7"
  by (rule is_prime_trial [where b = 3]) (simp_all add: upt_rec_numeral)

lemma is_prime_3: "is_prime 3"
  by (rule is_prime_trial [where b = 2]) simp_all

theorem rehash_preserves_map_witness:
  "\<exists>hm hm' r'. hashmap_insert (fresh_table 3) (Some (5::nat)) ''a'' (\<lambda>_. 1) = Some (hm, \<lambda>_. 1) \<and> hsize hm = 3 \<and>
    rehash hm (\<lambda>_. 1) = Some (hm', r') \<and> hm_clean hm' \<and> hm_map hm' = [''a'' \<mapsto> 5]"
proof -
  have room: "0 < hm_room (fresh_table 3 :: nat hashmap)" by (simp add: hm_room_fresh_prime is_prime_3)
  have size: "hsize (fresh_table 3 :: nat hashmap) = 3" by (simp add: fresh_table_def)
  obtain hm where hm: "hashmap_insert (fresh_table 3) (Some (5::nat)) ''a'' (\<lambda>_. 1) = Some (hm, \<lambda>_. 1)" "hsize hm = 3"
    using hashmap_insert_returns [OF _ room, of 5 "''a''" "\<lambda>_. 1"] size by auto
  have cl: "hm_clean hm" "hm_map hm = [''a'' \<mapsto> 5]" using hashmap_insert_map [OF hm(1)] by auto
  obtain r1 where "isPrime 7 (\<lambda>_. 1) = Some (True, r1)"
    using isPrime_prime [OF is_prime_7, of "\<lambda>_. 1"] by (auto simp: PRIME_BOUND_def)
  then have find: "findPrimeGreaterThan (s32 (2 * int (hsize hm))) (\<lambda>_. 1) = Some (int 7, r1)"
    by (simp add: findPrimeGreaterThan_def hm(2) in_s32_def next_prime_loop.simps)
  have b: "hm_ok hm" "2 \<le> hsize hm" "2 * hsize hm < 46337" using cl(1) hm(2) by (simp_all add: hm.clean_imp_ok)
  obtain p r' where p: "findPrimeGreaterThan (s32 (2 * int (hsize hm))) (\<lambda>_. 1) = Some (int p, r')"
    "is_prime p \<longrightarrow> (\<exists>hm'. rehash hm (\<lambda>_. 1) = Some (hm', r') \<and> p - hcount hm \<le> hm_room hm' \<and>
       (\<exists>hm''. hashmap_insert hm' (Some 0) ''b'' r' = Some (hm'', r')))"
    "\<forall>hm' r''. rehash hm (\<lambda>_. 1) = Some (hm', r'') \<longrightarrow> hm_clean hm' \<and> hm_map hm' = hm_map hm"
    using rehash_preserves_map [OF b, of "\<lambda>_. 1" 0 "''b''"] by blast
  have "p = 7" using p(1) find by simp
  then show ?thesis using p(2,3) is_prime_7 hm cl(2) by auto
qed

text \<open>The three ways of looking at the whole map agree: \<open>hashmap_getkeys\<close> lists the bound keys,
  each once, \<open>hashmap_getvalues\<close> lists their values in the same order, and \<open>hashmap_count\<close> is their
  number.\<close>

theorem hashmap_enumeration:
  assumes "hm_ok hm"
  shows "\<exists>ks. vec_list (hashmap_getkeys hm) = map Some ks \<and> distinct ks \<and>
    set ks = {k. hashmap_get hm k \<noteq> None} \<and> vec_list (hashmap_getvalues hm) = map (hashmap_get hm) ks \<and>
    hashmap_count hm = length ks"
proof (intro exI conjI)
  let ?ks = "map fst (hm_entries hm)"
  show "vec_list (hashmap_getkeys hm) = map Some ?ks" using hm_enumerate(2) [OF assms] by simp
  show "distinct ?ks" by (rule distinct_hm_keys [OF assms])
  show "set ?ks = {k. hashmap_get hm k \<noteq> None}"
    unfolding hm.get_abs [OF assms] by (simp add: hm_map_def map_of_eq_None_iff)
  have "map_of (hm_entries hm) (fst e) = Some (snd e)" if "e \<in> set (hm_entries hm)" for e
    using that distinct_hm_keys [OF assms] by simp
  then show "vec_list (hashmap_getvalues hm) = map (hashmap_get hm) ?ks"
    using hm_enumerate(4) [OF assms] by (simp add: hm.get_abs [OF assms] hm_map_def)
  show "hashmap_count hm = length ?ks"
    using hm_okD(3) [OF assms] by (simp add: hashmap_count_def hm_entries_def)
qed

theorem hashmap_enumeration_witness:
  "\<exists>ks. vec_list (hashmap_getkeys (fresh_table 5 :: nat hashmap)) = map Some ks \<and> distinct ks"
proof -
  have "hm_ok (fresh_table 5 :: nat hashmap)" by (simp add: hm.clean_imp_ok)
  from hashmap_enumeration [OF this] show ?thesis by blast
qed

subsection \<open>The tombstone defect\<close>

lemma insert_probe_unfold:
  "0 < n \<Longrightarrow> insert_probe n index step hm d k =
     (if is_active (table hm ! index)
      then if keystring (table hm ! index) = Some k
           then Some (hm\<lparr>table := (table hm)[index := (table hm ! index)\<lparr>hdata := d\<rparr>]\<rparr>)
           else insert_probe (n - 1) ((index + step) mod hsize hm) step hm d k
      else Some (hm\<lparr>table := (table hm)[index := (table hm ! index)\<lparr>
              flags := flags (table hm ! index) OR ACTIVE, hdata := d, keystring := Some k\<rparr>],
            hcount := hcount hm + 1\<rparr>))"
  by (cases n) (simp, simp only: insert_probe.simps diff_Suc_1 Let_def)

lemma remove_probe_unfold:
  "0 < n \<Longrightarrow> remove_probe n index step hm k =
     (if hdata (table hm ! index) \<noteq> None
      then if keystring (table hm ! index) = Some k
           then if is_active (table hm ! index)
                then (hdata (table hm ! index), hm\<lparr>table := (table hm)[index := (table hm ! index)\<lparr>
                         flags := flags (table hm ! index) AND NOT ACTIVE\<rparr>],
                       hcount := hcount hm - 1\<rparr>)
                else (None, hm)
           else remove_probe (n - 1) ((index + step) mod hsize hm) step hm k
      else (None, hm))"
  by (cases n) (simp, simp only: remove_probe.simps diff_Suc_1 Let_def)

lemma get_probe_unfold:
  "0 < n \<Longrightarrow> get_probe n index step hm k =
     (if keystring (table hm ! index) = Some k
      then if is_active (table hm ! index) then hdata (table hm ! index) else None
      else if hdata (table hm ! index) = None then None
      else get_probe (n - 1) ((index + step) mod hsize hm) step hm k)"
  by (cases n) (simp, simp only: get_probe.simps diff_Suc_1 Let_def)

lemma hashmap_insert_here:
  "hcount hm < hsize hm \<Longrightarrow> insert_probe (hsize hm) (hm_index hm k) (hm_step hm k) hm d k = Some hm' \<Longrightarrow>
   hashmap_insert hm d k r = Some (hm', r)"
  unfolding hashmap_insert_def by (simp add: hm_run.simps [of "CallInsert hm d k r"] hm_run.simps [of "CallLoop hm d k r"])

lemma HIGH_BITS_eq: "HIGH_BITS = 0xFF00000000000000"
  by (simp add: HIGH_BITS_def ONE_EIGHTH_def mask_eq_exp_minus_1)

lemma hash_a: "hashfunction ''a'' = 97"
  by (simp add: hashfunction_def hash_step_def char_value_def HIGH_BITS_eq ONE_EIGHTH_def Let_def)

lemma hash_f: "hashfunction ''f'' = 102"
  by (simp add: hashfunction_def hash_step_def char_value_def HIGH_BITS_eq ONE_EIGHTH_def Let_def)

text \<open>The five slots of a small table, the middle two of them given.\<close>

definition table5 :: "nat hEntry \<Rightarrow> nat hEntry \<Rightarrow> nat \<Rightarrow> nat hashmap" where
  "table5 x y n = \<lparr>table = [empty_entry, empty_entry, x, y, empty_entry], hsize = 5, hcount = n\<rparr>"

definition entry :: "nat \<Rightarrow> 32 word \<Rightarrow> string \<Rightarrow> nat hEntry" where
  "entry x fl k = \<lparr>hdata = Some x, flags = fl, keystring = Some k\<rparr>"

lemma table5_simps [simp]:
  "table (table5 x y n) = [empty_entry, empty_entry, x, y, empty_entry]" "hsize (table5 x y n) = 5"
  "hcount (table5 x y n) = n"
  by (simp_all add: table5_def)

lemma entry_simps [simp]:
  "hdata (entry x fl k) = Some x" "flags (entry x fl k) = fl" "keystring (entry x fl k) = Some k"
  "is_active (entry x ACTIVE k)" "\<not> is_active (entry x 0 k)"
  by (simp_all add: entry_def is_active_def ACTIVE_def)

lemma probe5 [simp]:
  "hm_index (table5 x y n) ''a'' = 2" "hm_step (table5 x y n) ''a'' = 2"
  "hm_index (table5 x y n) ''f'' = 2" "hm_step (table5 x y n) ''f'' = 1"
  by (simp_all add: hm_index_def hm_step_def hash_a hash_f)

lemma fresh_table5: "fresh_table 5 = table5 empty_entry empty_entry 0"
  by (simp add: fresh_table_def table5_def numeral_eq_Suc)

lemma upt5: "[0..<5] = [0, 1, 2, 3, 4]"
  by (simp add: upt_rec)

text \<open>The probe loops on such a table, one after the other.\<close>

lemma tombstone_run:
  "hashmap_insert (fresh_table 5) (Some 1) ''a'' r = Some (table5 (entry 1 ACTIVE ''a'') empty_entry 1, r)"
  "hashmap_insert (table5 (entry 1 ACTIVE ''a'') empty_entry 1) (Some 2) ''f'' r
     = Some (table5 (entry 1 ACTIVE ''a'') (entry 2 ACTIVE ''f'') 2, r)"
  "hashmap_remove (table5 (entry 1 ACTIVE ''a'') (entry 2 ACTIVE ''f'') 2) ''a''
     = (Some 1, table5 (entry 1 0 ''a'') (entry 2 ACTIVE ''f'') 1)"
  "hashmap_insert (table5 (entry 1 0 ''a'') (entry 2 ACTIVE ''f'') 1) (Some 3) ''f'' r
     = Some (table5 (entry 3 ACTIVE ''f'') (entry 2 ACTIVE ''f'') 2, r)"
  "hashmap_remove (table5 (entry 3 ACTIVE ''f'') (entry 2 ACTIVE ''f'') 2) ''f''
     = (Some 3, table5 (entry 3 0 ''f'') (entry 2 ACTIVE ''f'') 1)"
  "hashmap_insert (table5 (entry 3 0 ''f'') (entry 2 ACTIVE ''f'') 1) (Some 1) ''a'' r
     = Some (table5 (entry 1 ACTIVE ''a'') (entry 2 ACTIVE ''f'') 2, r)"
  unfolding fresh_table5 atomize_conj
  by (intro conjI hashmap_insert_here;
      simp add: insert_probe_unfold hashmap_remove_def remove_probe_unfold;
      simp add: table5_def entry_def empty_entry_def ACTIVE_def)+

text \<open>C38: an insertion reuses the first tombstone on its probe path without looking further for the
  key. After a collision and a removal, inserting a bound key again therefore creates a second
  active entry for it: the count is one too high, the key is enumerated twice, and after the key
  has been removed the stale first value can come back.\<close>

theorem hashmap_tombstone_duplicate:
  "\<exists>h1 h2 h3 h4 h5 h6. hashmap_insert (fresh_table 5) (Some (1::nat)) ''a'' r = Some (h1, r) \<and>
     hashmap_insert h1 (Some 2) ''f'' r = Some (h2, r) \<and> hashmap_remove h2 ''a'' = (Some 1, h3) \<and>
     hashmap_insert h3 (Some 3) ''f'' r = Some (h4, r) \<and>
     hashmap_count h4 = 2 \<and> vec_list (hashmap_getkeys h4) = [Some ''f'', Some ''f''] \<and>
     hashmap_remove h4 ''f'' = (Some 3, h5) \<and> hashmap_insert h5 (Some 1) ''a'' r = Some (h6, r) \<and>
     hashmap_get h6 ''f'' = Some 2"
proof -
  let ?h4 = "table5 (entry 3 ACTIVE ''f'') (entry 2 ACTIVE ''f'') 2"
  let ?h6 = "table5 (entry 1 ACTIVE ''a'') (entry 2 ACTIVE ''f'') 2"
  have "vec_list (hashmap_getkeys ?h4) = [Some ''f'', Some ''f'']"
    by (simp add: hashmap_getkeys_def upt5 Let_def)
  moreover have "hashmap_get ?h6 ''f'' = Some 2"
    by (simp add: hashmap_get_def get_probe_unfold)
  moreover have "hashmap_count ?h4 = 2" by (simp add: hashmap_count_def)
  ultimately show ?thesis by (intro exI conjI) (rule tombstone_run | assumption)+
qed

end
