(* ===== verification/Hashset.thy ===== *)
theory Hashset
  imports Hashmap
begin

section \<open>Hash sets and map arrays (utils/hashset.c, utils/maparray.c)\<close>

text \<open>
  A hash set is a hash map whose data pointers are all the set itself; the model stores the unit
  value for that pointer. A map array is a pair of parallel arrays with a hash map from each key to
  the address of its value; the model stores the index of the value for that address. Both are
  clients of the map contract \<open>string_map\<close> through its interpretation \<open>hm\<close>; what the state updater
  needs of a set is the contract \<open>string_set\<close>.
\<close>

subsection \<open>Hash sets\<close>

record hashset =
  set_map :: "unit hashmap"

definition hashset_create :: "int \<Rightarrow> rng \<Rightarrow> (hashset \<times> rng) option" where
  "hashset_create n r = do { (m, r') \<leftarrow> hashmap_create n r; Some (\<lparr>set_map = m\<rparr>, r') }"

definition hashset_add :: "hashset \<Rightarrow> string \<Rightarrow> rng \<Rightarrow> (hashset \<times> rng) option" where
  "hashset_add s e r = do { (m, r') \<leftarrow> hashmap_insert (set_map s) (Some ()) e r; Some (s\<lparr>set_map := m\<rparr>, r') }"

definition hashset_delete :: "hashset \<Rightarrow> string \<Rightarrow> bool \<times> hashset" where
  "hashset_delete s e = (let (p, m) = hashmap_remove (set_map s) e in (p \<noteq> None, s\<lparr>set_map := m\<rparr>))"

definition hashset_find :: "hashset \<Rightarrow> string \<Rightarrow> bool" where
  "hashset_find s e \<longleftrightarrow> hashmap_get (set_map s) e \<noteq> None"

definition hashset_count :: "hashset \<Rightarrow> nat" where
  "hashset_count s = hashmap_count (set_map s)"

definition hashset_getelements :: "hashset \<Rightarrow> string vector" where
  "hashset_getelements s = hashmap_getkeys (set_map s)"

text \<open>The set it stands for, and its invariant.\<close>

definition hs_set :: "hashset \<Rightarrow> string set" where
  "hs_set s = dom (hm_map (set_map s))"

definition hs_clean :: "hashset \<Rightarrow> bool" where
  "hs_clean s \<longleftrightarrow> hm_clean (set_map s)"

definition hs_room :: "hashset \<Rightarrow> nat" where
  "hs_room s = hm_room (set_map s)"

lemma hashmap_create_default [simp]: "hashmap_create 0 r = Some (fresh_table TABLE_STARTSIZE, r)"
  by (simp add: hashmap_create_def)

lemma hashset_create_default [simp]:
  "hashset_create 0 r = Some (\<lparr>set_map = fresh_table TABLE_STARTSIZE\<rparr>, r)"
  by (simp add: hashset_create_def)

subsection \<open>The contract of a set of names\<close>

locale string_set =
  fixes find :: "'s \<Rightarrow> string \<Rightarrow> bool" and add :: "'s \<Rightarrow> string \<Rightarrow> rng \<Rightarrow> ('s \<times> rng) option"
    and members :: "'s \<Rightarrow> string set" and good :: "'s \<Rightarrow> bool" and space :: "'s \<Rightarrow> nat"
  assumes find_member: "good s \<Longrightarrow> find s e \<longleftrightarrow> e \<in> members s"
    and add_member: "good s \<Longrightarrow> 0 < space s \<Longrightarrow>
      \<exists>s'. add s e r = Some (s', r) \<and> good s' \<and> members s' = insert e (members s) \<and> space s - 1 \<le> space s'"
begin

lemma add_all:
  assumes "good s" "length es \<le> space s"
  shows "\<exists>s'. for_each (\<lambda>e (s, r). add s e r) es (s, r) = Some (s', r) \<and> good s' \<and>
    members s' = members s \<union> set es \<and> space s - length es \<le> space s'"
  using assms
proof (induction es arbitrary: s)
  case Nil
  then show ?case by simp
next
  case (Cons e es)
  then obtain s1 where s1: "add s e r = Some (s1, r)" "good s1" "members s1 = insert e (members s)"
    "space s - 1 \<le> space s1" using add_member [of s e r] by auto
  then have "length es \<le> space s1" using Cons.prems(2) by simp
  from Cons.IH [OF s1(2) this] obtain s' where "for_each (\<lambda>e (s, r). add s e r) es (s1, r) = Some (s', r)"
    "good s'" "members s' = members s1 \<union> set es" "space s1 - length es \<le> space s'" by blast
  then show ?case using s1 by auto
qed

text \<open>Exactly the added names are found.\<close>

lemma find_after_add_all:
  assumes "good s" "length es \<le> space s"
  shows "\<exists>s'. for_each (\<lambda>e (s, r). add s e r) es (s, r) = Some (s', r) \<and>
    (\<forall>e. find s' e \<longleftrightarrow> e \<in> set es \<or> find s e)"
  using add_all [OF assms, of r] assms(1) by (auto simp: find_member)

end

interpretation hs: string_set hashset_find hashset_add hs_set hs_clean hs_room
proof
  show "hashset_find s e \<longleftrightarrow> e \<in> hs_set s" if "hs_clean s" for s e
    using that by (auto simp: hashset_find_def hs_set_def hs_clean_def hm.get_abs hm.clean_imp_ok)
  show "\<exists>s'. hashset_add s e r = Some (s', r) \<and> hs_clean s' \<and> hs_set s' = insert e (hs_set s) \<and>
      hs_room s - 1 \<le> hs_room s'" if s: "hs_clean s" "0 < hs_room s" for s e r
  proof -
    obtain m where "hashmap_insert (set_map s) (Some ()) e r = Some (m, r)" "hm_clean m"
      "hm_map m = (hm_map (set_map s))(e \<mapsto> ())" "hm_room (set_map s) - 1 \<le> hm_room m"
      by (rule hm.ins_returns [of "set_map s" "()" e r]) (use s in \<open>simp_all add: hs_clean_def hs_room_def\<close>)
    then show ?thesis by (simp add: hashset_add_def hs_clean_def hs_set_def hs_room_def)
  qed
qed

lemma hashset_getelements_set:
  "hs_clean s \<Longrightarrow> set (vec_list (hashset_getelements s)) = Some ` hs_set s"
  by (simp add: hs_clean_def hs_set_def hashset_getelements_def hm_enumerate hm.clean_imp_ok hm_map_def
      dom_map_of_conv_image_fst image_image)

lemma fresh_hashset [simp]:
  "hs_clean \<lparr>set_map = fresh_table n\<rparr>" "hs_set \<lparr>set_map = fresh_table n\<rparr> = {}"
  "hs_room \<lparr>set_map = fresh_table TABLE_STARTSIZE\<rparr> = 1021"
  by (simp_all add: hs_clean_def hs_set_def hs_room_def hm_room_fresh)

text \<open>A hash set of the default size takes up to 1021 additions without failing, and then
  contains exactly the names that were added.\<close>

theorem hashset_add_find:
  assumes "length es \<le> 1021"
  shows "\<exists>s s'. hashset_create 0 r = Some (s, r) \<and>
    for_each (\<lambda>e (s, r). hashset_add s e r) es (s, r) = Some (s', r) \<and>
    (\<forall>e. hashset_find s' e \<longleftrightarrow> e \<in> set es) \<and> hashset_count s' = card (set es)"
proof -
  let ?s = "\<lparr>set_map = fresh_table TABLE_STARTSIZE\<rparr> :: hashset"
  obtain s' where s': "for_each (\<lambda>e (s, r). hashset_add s e r) es (?s, r) = Some (s', r)" "hs_clean s'"
    "hs_set s' = set es" using hs.add_all [of ?s es r] assms by auto
  then have "\<forall>e. hashset_find s' e \<longleftrightarrow> e \<in> set es" by (simp add: hs.find_member)
  moreover have "hashset_count s' = card (set es)"
    using s' card_dom_hm_map [of "set_map s'"]
    by (simp add: hashset_count_def hashmap_count_def hs_set_def hs_clean_def hm.clean_imp_ok)
  ultimately show ?thesis using s'(1) by auto
qed

theorem hashset_add_find_witness:
  "\<exists>s s'. hashset_create 0 (\<lambda>_. 0) = Some (s, \<lambda>_. 0) \<and>
    for_each (\<lambda>e (s, r). hashset_add s e r) [''n1'', ''n2'', ''n1''] (s, \<lambda>_. 0) = Some (s', \<lambda>_. 0) \<and>
    (\<forall>e. hashset_find s' e \<longleftrightarrow> e \<in> set [''n1'', ''n2'', ''n1'']) \<and>
    hashset_count s' = card (set [''n1'', ''n2'', ''n1''])"
  by (rule hashset_add_find) simp

subsection \<open>Map arrays\<close>

record 'a maparray =
  ma_size :: nat
  keyarray :: "string list"
  valuearray :: "'a list"
  ma_map :: "nat hashmap"

definition maparray_create :: "nat \<Rightarrow> string list \<Rightarrow> 'a list \<Rightarrow> rng \<Rightarrow> ('a maparray \<times> rng) option" where
  "maparray_create n keys vals r =
     do { (m, r0) \<leftarrow> hashmap_create 0 r;
          (m', r') \<leftarrow> for_each (\<lambda>i (m, r). do { k \<leftarrow> rd keys i; hashmap_insert m (Some i) k r }) [0..<n] (m, r0);
          Some (\<lparr>ma_size = n, keyarray = keys, valuearray = vals, ma_map = m'\<rparr>, r') }"

definition maparray_get :: "'a maparray \<Rightarrow> string \<Rightarrow> nat option" where
  "maparray_get ma k = hashmap_get (ma_map ma) k"

definition maparray_size :: "'a maparray \<Rightarrow> nat" where
  "maparray_size ma = ma_size ma"

definition maparray_keys :: "'a maparray \<Rightarrow> string list" where
  "maparray_keys ma = keyarray ma"

definition maparray_values :: "'a maparray \<Rightarrow> 'a list" where
  "maparray_values ma = valuearray ma"

text \<open>The loop of \<open>maparray_create\<close> inserts the list of pairs of key and index.\<close>

lemma maparray_loop:
  assumes "n \<le> length keys"
  shows "for_each (\<lambda>i (m, r). do { k \<leftarrow> rd keys i; hashmap_insert m (Some i) k r }) [0..<n] s
    = for_each (\<lambda>(k, x) (h, r). hashmap_insert h (Some x) k r) (map (\<lambda>i. (keys ! i, i)) [0..<n]) s"
  using assms by (auto simp: for_each_map intro!: for_each_cong)

lemma map_of_rev_index:
  "map_of (rev (map (\<lambda>i. (ks ! i, i)) [0..<n])) k = Some j \<longleftrightarrow> j < n \<and> ks ! j = k \<and> (\<forall>i<n. j < i \<longrightarrow> ks ! i \<noteq> k)"
proof (induction n)
  case (Suc n)
  then show ?case by (auto simp: less_Suc_eq)
qed simp

text \<open>\<open>maparray_create\<close> on up to 1021 keys builds a lookup that sends a key to the position of
  its last occurrence in the key array, and every other string to the null pointer.\<close>

theorem maparray_get_last_occurrence:
  assumes "n \<le> length keys" "n \<le> 1021"
  shows "\<exists>ma. maparray_create n keys vals r = Some (ma, r) \<and> maparray_size ma = n \<and>
    (\<forall>k j. maparray_get ma k = Some j \<longleftrightarrow> j < n \<and> keys ! j = k \<and> (\<forall>i<n. j < i \<longrightarrow> keys ! i \<noteq> k))"
proof -
  let ?kvs = "map (\<lambda>i. (keys ! i, i)) [0..<n]"
  let ?h = "fresh_table TABLE_STARTSIZE :: nat hashmap"
  obtain m where "for_each (\<lambda>(k, x) (h, r). hashmap_insert h (Some x) k r) ?kvs (?h, r) = Some (m, r)"
    "hm_clean m" "hm_map m = map_of (rev ?kvs)"
    using hm.ins_all [of ?h ?kvs r] assms(2) by (auto simp: hm_room_fresh)
  then show ?thesis
    using assms(1) map_of_rev_index [of keys n]
    by (simp add: maparray_create_def maparray_loop maparray_size_def maparray_get_def hm.get_abs hm.clean_imp_ok)
qed

theorem maparray_get_last_occurrence_witness:
  "\<exists>ma. maparray_create 2 [''cpu'', ''mem''] [4::int, 8] (\<lambda>_. 0) = Some (ma, \<lambda>_. 0) \<and>
    maparray_size ma = 2 \<and> (\<forall>k j. maparray_get ma k = Some j \<longleftrightarrow>
      j < 2 \<and> [''cpu'', ''mem''] ! j = k \<and> (\<forall>i<2. j < i \<longrightarrow> [''cpu'', ''mem''] ! i \<noteq> k))"
  by (rule maparray_get_last_occurrence) simp_all

end
