(* ===== verification/Numeric.thy ===== *)
theory Numeric
  imports Floats
begin

section \<open>Arrays of numbers (utils/mathhelper.c, utils/array.c)\<close>

text \<open>
  \<open>mathhelper.c\<close> works on C arrays of \<open>float\<close> given with a length; \<open>array.c\<close> wraps such an array
  with its length. Sums, means and standard deviations are accumulated in \<open>double\<close>, element by
  element and in order, so the roundings are those of the code. The theory shows that the in-place
  operations act on each element alone, that means of values in \<open>[0, 1]\<close> are in \<open>[0, 1]\<close> in spite
  of the roundings of the partial sums where this is so, that standard deviations are never
  negative, and that the index searches find a first extremal element.
\<close>

subsection \<open>mathhelper.c\<close>

definition mathhelper_arePracticallyEqual :: "real \<Rightarrow> real \<Rightarrow> real \<Rightarrow> bool" where
  "mathhelper_arePracticallyEqual new old tolerance \<longleftrightarrow>
     (let err = (if old \<noteq> 0 then fdiv (fsub new old) old else new) in \<bar>err\<bar> \<le> tolerance)"

definition mathhelper_sumarray :: "real list \<Rightarrow> nat \<Rightarrow> real option" where
  "mathhelper_sumarray x n = for_each (\<lambda>i sum. do { v \<leftarrow> rd x i; Some (dadd sum v) }) [0..<n] 0"

definition mathhelper_normalizearray :: "real list \<Rightarrow> nat \<Rightarrow> (bool \<times> real list) option" where
  "mathhelper_normalizearray x n =
     do { sum \<leftarrow> for_each (\<lambda>i sum. do { v \<leftarrow> rd x i; Some (dadd sum v) }) [0..<n] 0;
          x' \<leftarrow> (if sum \<noteq> 0
                 then for_each (\<lambda>i x. do { v \<leftarrow> rd x i; wr x i (sgl (ddiv v sum)) }) [0..<n] x
                 else Some x);
          Some (sum \<noteq> 0, x') }"

definition mathhelper_addarray :: "real list \<Rightarrow> real list \<Rightarrow> nat \<Rightarrow> real list option" where
  "mathhelper_addarray y x n = for_each (\<lambda>i y. do { a \<leftarrow> rd y i; b \<leftarrow> rd x i; wr y i (fadd a b) }) [0..<n] y"

definition mathhelper_multiplyarray :: "real list \<Rightarrow> real list \<Rightarrow> nat \<Rightarrow> real list option" where
  "mathhelper_multiplyarray y x n = for_each (\<lambda>i y. do { a \<leftarrow> rd y i; b \<leftarrow> rd x i; wr y i (fmul a b) }) [0..<n] y"

definition mathhelper_setarray :: "real list \<Rightarrow> nat \<Rightarrow> real \<Rightarrow> real list option" where
  "mathhelper_setarray x n v = for_each (\<lambda>i x. wr x i v) [0..<n] x"

definition mathhelper_scalearray :: "real list \<Rightarrow> nat \<Rightarrow> real \<Rightarrow> real list option" where
  "mathhelper_scalearray x n v = for_each (\<lambda>i x. do { a \<leftarrow> rd x i; wr x i (fmul a v) }) [0..<n] x"

definition mathhelper_shiftarray :: "real list \<Rightarrow> nat \<Rightarrow> real \<Rightarrow> real list option" where
  "mathhelper_shiftarray x n v = for_each (\<lambda>i x. do { a \<leftarrow> rd x i; wr x i (fadd a v) }) [0..<n] x"

definition mathhelper_copyarray :: "real list \<Rightarrow> nat \<Rightarrow> real list option" where
  "mathhelper_copyarray x n = for_each (\<lambda>i y. do { a \<leftarrow> rd x i; wr y i a }) [0..<n] (replicate n 0)"

definition mathhelper_array_add_scalar :: "real list \<Rightarrow> nat \<Rightarrow> real \<Rightarrow> real list option" where
  "mathhelper_array_add_scalar x n v = for_each (\<lambda>i x. do { a \<leftarrow> rd x i; wr x i (dadd a v) }) [0..<n] x"

definition mathhelper_average :: "real list \<Rightarrow> nat \<Rightarrow> real option" where
  "mathhelper_average x n = do { avg \<leftarrow> mathhelper_sumarray x n; Some (if 0 < n then ddiv avg (real n) else 0) }"

definition mathhelper_stddev :: "real list \<Rightarrow> nat \<Rightarrow> real option" where
  "mathhelper_stddev x n =
     (if n = 0 then Some 0
      else do { (mean, mean2) \<leftarrow> for_each (\<lambda>i (mean, mean2). do { v \<leftarrow> rd x i; Some (dadd mean v, dadd mean2 (fmul v v)) })
                                   [0..<n] (0, 0);
                let mean = ddiv mean (real n);
                let mean2 = ddiv mean2 (real n);
                let var = dsub mean2 (dmul mean mean);
                let var = max var 0;
                Some (dsqrt var) })"

definition mathhelper_floatcomp :: "real \<Rightarrow> real \<Rightarrow> int" where
  "mathhelper_floatcomp a b = (if a < b then - 1 else if a > b then 1 else 0)"

subsection \<open>array.c\<close>

record array =
  a_size :: nat
  a_x :: "real list"
  a_allocated :: bool

definition array_createfromdata :: "nat \<Rightarrow> real list \<Rightarrow> array" where
  "array_createfromdata n d =
     (if n = 0 then \<lparr>a_size = 0, a_x = [], a_allocated = False\<rparr> else \<lparr>a_size = n, a_x = d, a_allocated = False\<rparr>)"

definition array_create :: "nat \<Rightarrow> array" where
  "array_create n = (array_createfromdata n (replicate n 0))\<lparr>a_allocated := True\<rparr>"

definition array_getlength :: "array \<Rightarrow> nat" where "array_getlength a = a_size a"

definition array_getdata :: "array \<Rightarrow> real list" where "array_getdata a = a_x a"

definition array_getelement :: "array \<Rightarrow> int \<Rightarrow> real option" where
  "array_getelement a i = (if i < 0 \<or> int (a_size a) \<le> i then Some 0 else rdi (a_x a) i)"

definition array_setelement :: "array \<Rightarrow> int \<Rightarrow> real \<Rightarrow> array option" where
  "array_setelement a i v =
     (if 0 \<le> i \<and> i < int (a_size a) then do { x \<leftarrow> wri (a_x a) i v; Some (a\<lparr>a_x := x\<rparr>) } else Some a)"

definition array_set :: "array \<Rightarrow> real \<Rightarrow> array option" where
  "array_set a v = do { x \<leftarrow> for_each (\<lambda>i x. wr x i v) [0..<a_size a] (a_x a); Some (a\<lparr>a_x := x\<rparr>) }"

definition array_copy :: "array \<Rightarrow> array \<Rightarrow> array option" where
  "array_copy a b =
     (if array_getlength b \<noteq> a_size a then Some a
      else do { x \<leftarrow> for_each (\<lambda>i x. do { v \<leftarrow> rd (array_getdata b) i; wr x i v }) [0..<a_size a] (a_x a);
                Some (a\<lparr>a_x := x\<rparr>) })"

definition array_clone :: "array \<Rightarrow> array option" where
  "array_clone a = array_copy (array_create (a_size a)) a"

definition array_sum :: "array \<Rightarrow> real option" where
  "array_sum a = for_each (\<lambda>i sum. do { v \<leftarrow> rd (a_x a) i; Some (dadd sum v) }) [0..<a_size a] 0"

definition array_sumN :: "array \<Rightarrow> nat \<Rightarrow> real option" where
  "array_sumN a n = for_each (\<lambda>i sum. do { v \<leftarrow> rd (a_x a) i; Some (dadd sum v) }) [0..<min n (a_size a)] 0"

definition array_scale :: "array \<Rightarrow> real \<Rightarrow> array option" where
  "array_scale a v =
     do { x \<leftarrow> for_each (\<lambda>i x. do { w \<leftarrow> rd x i; wr x i (fmul w v) }) [0..<a_size a] (a_x a); Some (a\<lparr>a_x := x\<rparr>) }"

definition array_shift :: "array \<Rightarrow> real \<Rightarrow> array option" where
  "array_shift a v =
     do { x \<leftarrow> for_each (\<lambda>i x. do { w \<leftarrow> rd x i; wr x i (fadd w v) }) [0..<a_size a] (a_x a); Some (a\<lparr>a_x := x\<rparr>) }"

definition array_minindex :: "array \<Rightarrow> int option" where
  "array_minindex a =
     (if a_size a = 0 then Some (- 1)
      else do { v0 \<leftarrow> rd (a_x a) 0;
                (k, _) \<leftarrow> for_each (\<lambda>i (k, v). do { w \<leftarrow> rd (a_x a) i; Some (if w < v then (int i, w) else (k, v)) })
                           [1..<a_size a] (0, v0);
                Some k })"

definition array_maxindex :: "array \<Rightarrow> int option" where
  "array_maxindex a =
     (if a_size a = 0 then Some (- 1)
      else do { v0 \<leftarrow> rd (a_x a) 0;
                (k, _) \<leftarrow> for_each (\<lambda>i (k, v). do { w \<leftarrow> rd (a_x a) i; Some (if w > v then (int i, w) else (k, v)) })
                           [1..<a_size a] (0, v0);
                Some k })"

definition array_isequal :: "array \<Rightarrow> array \<Rightarrow> bool option" where
  "array_isequal a b =
     (if array_getlength b \<noteq> a_size a then Some False
      else for_each (\<lambda>i eq. if \<not> eq then Some False
                           else do { v \<leftarrow> rd (a_x a) i; w \<leftarrow> rd (array_getdata b) i; Some (v = w) }) [0..<a_size a] True)"

definition array_add :: "array \<Rightarrow> array \<Rightarrow> array option" where
  "array_add a b =
     (if array_getlength b \<noteq> a_size a then Some a
      else do { x \<leftarrow> for_each (\<lambda>i x. do { v \<leftarrow> rd x i; w \<leftarrow> rd (array_getdata b) i; wr x i (fadd v w) }) [0..<a_size a] (a_x a);
                Some (a\<lparr>a_x := x\<rparr>) })"

definition array_multiply :: "array \<Rightarrow> array \<Rightarrow> array option" where
  "array_multiply a b =
     (if array_getlength b \<noteq> a_size a then Some a
      else do { x \<leftarrow> for_each (\<lambda>i x. do { v \<leftarrow> rd x i; w \<leftarrow> rd (array_getdata b) i; wr x i (fmul v w) }) [0..<a_size a] (a_x a);
                Some (a\<lparr>a_x := x\<rparr>) })"

definition array_normalize :: "array \<Rightarrow> (bool \<times> array) option" where
  "array_normalize a =
     do { sum \<leftarrow> array_sum a;
          a' \<leftarrow> (if sum \<noteq> 0 then array_scale a (sgl (ddiv 1 sum)) else Some a);
          Some (sum \<noteq> 0, a') }"

definition array_average :: "array \<Rightarrow> real option" where
  "array_average a = do { avg \<leftarrow> array_sum a; Some (if 0 < a_size a then ddiv avg (real (a_size a)) else avg) }"

definition array_stddev :: "array \<Rightarrow> real option" where
  "array_stddev a =
     (if a_size a = 0 then Some 0
      else do { (mean, mean2) \<leftarrow> for_each (\<lambda>i (mean, mean2). do { v \<leftarrow> rd (a_x a) i; Some (dadd mean v, dadd mean2 (fmul v v)) })
                                   [0..<a_size a] (0, 0);
                let mean = ddiv mean (real (a_size a));
                let mean2 = ddiv mean2 (real (a_size a));
                let var = dsub mean2 (dmul mean mean);
                let var = max var 0;
                Some (dsqrt var) })"

subsection \<open>Reference definitions on lists\<close>

definition arr_ok :: "array \<Rightarrow> bool" where
  "arr_ok a \<longleftrightarrow> length (a_x a) = a_size a"

text \<open>The sum of a list in \<open>double\<close> arithmetic, from the left.\<close>

definition dsum :: "real list \<Rightarrow> real" where
  "dsum xs = fold (\<lambda>v sum. dadd sum v) xs 0"

definition dmean :: "real list \<Rightarrow> real" where
  "dmean xs = ddiv (dsum xs) (real (length xs))"

definition dstddev :: "real list \<Rightarrow> real" where
  "dstddev xs = (if xs = [] then 0
     else let mean = dmean xs; mean2 = ddiv (dsum (map (\<lambda>v. fmul v v) xs)) (real (length xs))
          in dsqrt (max (dsub mean2 (dmul mean mean)) 0))"

lemma dsum_snoc [simp]: "dsum (xs @ [x]) = dadd (dsum xs) x" "dsum [] = 0"
  by (simp_all add: dsum_def)

lemma sum_loop:
  "n \<le> length x \<Longrightarrow> for_each (\<lambda>i sum. do { v \<leftarrow> rd x i; Some (dadd sum v) }) [0..<n] 0 = Some (dsum (take n x))"
proof (induction n)
  case (Suc n)
  then show ?case by (simp add: for_each_upt_Suc take_Suc_conv_app_nth del: upt_Suc)
qed simp

lemma moments_loop:
  "n \<le> length x \<Longrightarrow>
   for_each (\<lambda>i (mean, mean2). do { v \<leftarrow> rd x i; Some (dadd mean v, dadd mean2 (fmul v v)) }) [0..<n] (0, 0)
     = Some (dsum (take n x), dsum (map (\<lambda>v. fmul v v) (take n x)))"
proof (induction n)
  case (Suc n)
  then show ?case by (simp add: for_each_upt_Suc take_Suc_conv_app_nth del: upt_Suc)
qed simp

lemma mathhelper_sumarray_eq: "n \<le> length x \<Longrightarrow> mathhelper_sumarray x n = Some (dsum (take n x))"
  by (simp add: mathhelper_sumarray_def sum_loop)

lemma mathhelper_average_eq:
  "n \<le> length x \<Longrightarrow> mathhelper_average x n = Some (if n = 0 then 0 else dmean (take n x))"
  by (simp add: mathhelper_average_def mathhelper_sumarray_eq dmean_def min_absorb2)

lemma mathhelper_stddev_eq: "n \<le> length x \<Longrightarrow> mathhelper_stddev x n = Some (dstddev (take n x))"
  by (auto simp: mathhelper_stddev_def moments_loop dstddev_def dmean_def Let_def min_absorb2)

lemma mathhelper_addarray_eq:
  "n \<le> length x \<Longrightarrow> length y = n \<Longrightarrow> mathhelper_addarray y x n = Some (map2 fadd y (take n x))"
  by (subst mathhelper_addarray_def, subst for_each_update [where g = "\<lambda>i a. fadd a (x ! i)"])
    (auto simp: list_eq_iff_nth_eq)

lemma mathhelper_scalearray_eq:
  "length x = n \<Longrightarrow> mathhelper_scalearray x n v = Some (map (\<lambda>a. fmul a v) x)"
  by (subst mathhelper_scalearray_def, subst for_each_update [where g = "\<lambda>i a. fmul a v"])
    (auto simp: list_eq_iff_nth_eq)

lemma array_sum_eq: "arr_ok a \<Longrightarrow> array_sum a = Some (dsum (a_x a))"
  by (simp add: array_sum_def sum_loop arr_ok_def)

lemma array_create_ok [simp]: "arr_ok (array_create n)" "a_size (array_create n) = n" "a_x (array_create n) = replicate n 0"
  by (simp_all add: array_create_def array_createfromdata_def arr_ok_def)

lemma array_copy_eq:
  assumes "arr_ok a" "arr_ok b"
  shows "array_copy a b = Some (if a_size b = a_size a then a\<lparr>a_x := a_x b\<rparr> else a)"
proof -
  have "for_each (\<lambda>i x. do { v \<leftarrow> rd (a_x b) i; wr x i v }) [0..<a_size a] (a_x a) = Some (a_x b)"
    if "a_size b = a_size a"
    using assms that
    by (subst for_each_update [where g = "\<lambda>i _. a_x b ! i"]) (auto simp: arr_ok_def list_eq_iff_nth_eq)
  then show ?thesis by (simp add: array_copy_def array_getlength_def array_getdata_def)
qed

lemma array_clone_eq: "arr_ok a \<Longrightarrow> array_clone a = Some (a\<lparr>a_allocated := True\<rparr>)"
  by (simp add: array_clone_def array_copy_eq arr_ok_def)
    (cases a; auto simp: array_create_def array_createfromdata_def)

lemma array_multiply_eq:
  assumes "arr_ok a" "arr_ok b" "a_size b = a_size a"
  shows "array_multiply a b = Some (a\<lparr>a_x := map2 fmul (a_x a) (a_x b)\<rparr>)"
proof -
  have "for_each (\<lambda>i x. do { v \<leftarrow> rd x i; w \<leftarrow> rd (a_x b) i; wr x i (fmul v w) }) [0..<a_size a] (a_x a)
      = Some (map2 fmul (a_x a) (a_x b))"
    using assms
    by (subst for_each_update [where g = "\<lambda>i v. fmul v (a_x b ! i)"]) (auto simp: arr_ok_def list_eq_iff_nth_eq)
  then show ?thesis using assms by (simp add: array_multiply_def array_getlength_def array_getdata_def)
qed

lemma array_add_eq:
  assumes "arr_ok a" "arr_ok b" "a_size b = a_size a"
  shows "array_add a b = Some (a\<lparr>a_x := map2 fadd (a_x a) (a_x b)\<rparr>)"
proof -
  have "for_each (\<lambda>i x. do { v \<leftarrow> rd x i; w \<leftarrow> rd (a_x b) i; wr x i (fadd v w) }) [0..<a_size a] (a_x a)
      = Some (map2 fadd (a_x a) (a_x b))"
    using assms
    by (subst for_each_update [where g = "\<lambda>i v. fadd v (a_x b ! i)"]) (auto simp: arr_ok_def list_eq_iff_nth_eq)
  then show ?thesis using assms by (simp add: array_add_def array_getlength_def array_getdata_def)
qed

subsection \<open>Bounds\<close>

lemma dbl_nat: "n \<le> 2 ^ 53 \<Longrightarrow> dbl (real n) = real n"
proof -
  assume "n \<le> 2 ^ 53"
  then have "\<bar>int n\<bar> \<le> 2 ^ 53" by (metis abs_of_nat of_nat_le_iff of_nat_numeral of_nat_power)
  then show ?thesis using dbl_int [of "int n"] by simp
qed

lemma dsum_unit:
  assumes "length xs \<le> 2 ^ 53" "\<forall>x\<in>set xs. 0 \<le> x \<and> x \<le> 1"
  shows "0 \<le> dsum xs \<and> dsum xs \<le> real (length xs)"
  using assms
proof (induction xs rule: rev_induct)
  case (snoc x xs)
  then have IH: "0 \<le> dsum xs" "dsum xs \<le> real (length xs)" by auto
  then have "dbl (dsum xs + x) \<le> dbl (real (Suc (length xs)))" using snoc.prems by (intro dbl.mono) auto
  also have "\<dots> = real (Suc (length xs))" using snoc.prems(1) by (intro dbl_nat) simp
  finally show ?case using IH snoc.prems(2) by (simp add: dadd_def dbl.nonneg)
qed simp

lemma dmean_unit:
  assumes "length xs \<le> 2 ^ 53" "\<forall>x\<in>set xs. 0 \<le> x \<and> x \<le> 1"
  shows "0 \<le> dmean xs \<and> dmean xs \<le> 1"
  using dsum_unit [OF assms] by (simp add: dmean_def ddiv_def dbl.nonneg dbl.div_le_one)

lemma dstddev_nonneg: "0 \<le> dstddev xs"
  by (simp add: dstddev_def Let_def)

subsection \<open>Properties of the array routines\<close>

text \<open>\<open>mathhelper_average\<close> of values between 0 and 1 is between 0 and 1: although every partial sum
  is rounded, it never exceeds the number of summands.\<close>

theorem mathhelper_average_unit:
  assumes "n \<le> length x" "n \<le> 2 ^ 53" "\<forall>i<n. 0 \<le> x ! i \<and> x ! i \<le> 1"
  shows "\<exists>avg. mathhelper_average x n = Some avg \<and> 0 \<le> avg \<and> avg \<le> 1"
proof -
  have "\<forall>v\<in>set (take n x). 0 \<le> v \<and> v \<le> 1" using assms(1,3) by (auto simp: set_conv_nth)
  then show ?thesis
    using dmean_unit [of "take n x"] assms(1,2) by (simp add: mathhelper_average_eq)
qed

theorem mathhelper_average_unit_witness:
  "\<exists>avg. mathhelper_average [1 / 2, 1, 0] 3 = Some avg \<and> 0 \<le> avg \<and> avg \<le> 1"
  by (rule mathhelper_average_unit) (auto simp: nth_Cons split: nat.split)

text \<open>\<open>mathhelper_stddev\<close> and \<open>array_stddev\<close> compute the same value on the same data, which is
  defined for every array that is long enough, and is never negative because the variance is
  clamped at zero before the root.\<close>

theorem stddev_agree_nonneg:
  assumes "arr_ok a"
  shows "\<exists>s. array_stddev a = Some s \<and> mathhelper_stddev (array_getdata a) (array_getlength a) = Some s \<and> 0 \<le> s"
proof -
  have "array_stddev a = Some (dstddev (a_x a))"
    using assms
    by (auto simp: array_stddev_def moments_loop dstddev_def dmean_def Let_def arr_ok_def)
  moreover have "mathhelper_stddev (array_getdata a) (array_getlength a) = Some (dstddev (a_x a))"
    using assms by (simp add: mathhelper_stddev_eq array_getdata_def array_getlength_def arr_ok_def)
  ultimately show ?thesis using dstddev_nonneg by blast
qed

theorem stddev_agree_nonneg_witness:
  "\<exists>s. array_stddev (array_create 3) = Some s \<and>
     mathhelper_stddev (array_getdata (array_create 3)) (array_getlength (array_create 3)) = Some s \<and> 0 \<le> s"
  by (rule stddev_agree_nonneg) simp

lemma minindex_loop:
  fixes x :: "real list"
  assumes "length x = Suc n"
  shows "\<exists>k v. for_each (\<lambda>i (k, v). do { w \<leftarrow> rd x i; Some (if w < v then (int i, w) else (k, v)) }) [1..<Suc n] (0, x ! 0)
      = Some (int k, v) \<and> k \<le> n \<and> v = x ! k \<and> (\<forall>j\<le>n. x ! k \<le> x ! j) \<and> (\<forall>j<k. x ! k < x ! j)"
proof -
  let ?f = "\<lambda>i (k, v). do { w \<leftarrow> rd x i; Some (if w < v then (int i, w) else (k, v)) }"
  let ?P = "\<lambda>i (kk, v). \<exists>k. kk = int k \<and> k \<le> i \<and> v = x ! k \<and> (\<forall>j\<le>i. x ! k \<le> x ! j) \<and> (\<forall>j<k. x ! k < x ! j)"
  have "\<exists>s'. for_each (\<lambda>i. ?f (Suc i)) [0..<n] (0, x ! 0) = Some s' \<and> ?P n s'"
  proof (rule for_each_upt_total [where P = ?P])
    show "?P 0 (0, x ! 0)" by simp
    fix i s assume i: "i < n" and P: "?P i s"
    then obtain k where s: "s = (int k, x ! k)" and k: "k \<le> i" "\<forall>j\<le>i. x ! k \<le> x ! j" "\<forall>j<k. x ! k < x ! j"
      by (cases s) auto
    show "\<exists>s'. ?f (Suc i) s = Some s' \<and> ?P (Suc i) s'"
    proof (cases "x ! Suc i < x ! k")
      case True
      have "?P (Suc i) (int (Suc i), x ! Suc i)"
        using True k by (auto simp: le_Suc_eq less_Suc_eq_le intro!: exI [of _ "Suc i"])
      then show ?thesis using True i assms s by simp
    next
      case False
      have "?P (Suc i) (int k, x ! k)" using False k by (auto simp: le_Suc_eq intro!: exI [of _ k])
      then show ?thesis using False i assms s by simp
    qed
  qed
  moreover have "for_each ?f [1..<Suc n] s = for_each (\<lambda>i. ?f (Suc i)) [0..<n] s" for s
    using for_each_map [of ?f Suc "[0..<n]" s] by (simp add: map_Suc_upt)
  ultimately show ?thesis by auto
qed

text \<open>\<open>array_minindex\<close> returns the first position of a smallest element, and -1 only for the empty
  array.\<close>

theorem array_minindex_first_min:
  assumes "arr_ok a"
  shows "\<exists>k. array_minindex a = Some k \<and> (a_size a = 0 \<longrightarrow> k = - 1) \<and>
    (a_size a \<noteq> 0 \<longrightarrow> 0 \<le> k \<and> nat k < a_size a \<and> (\<forall>j<a_size a. a_x a ! nat k \<le> a_x a ! j) \<and>
       (\<forall>j<nat k. a_x a ! nat k < a_x a ! j))"
proof (cases "a_size a")
  case 0
  then show ?thesis by (simp add: array_minindex_def)
next
  case (Suc n)
  then have "length (a_x a) = Suc n" using assms by (simp add: arr_ok_def)
  from minindex_loop [OF this] show ?thesis
    using Suc \<open>length (a_x a) = Suc n\<close> by (auto simp: array_minindex_def less_Suc_eq_le)
qed

theorem array_minindex_first_min_witness:
  "\<exists>k. array_minindex (array_createfromdata 3 [2, 1, 1]) = Some k \<and> 0 \<le> k \<and>
    (\<forall>j<3. [2, 1, 1] ! nat k \<le> ([2, 1, 1] :: real list) ! j)"
  using array_minindex_first_min [of "array_createfromdata 3 [2, 1, 1]"]
  by (auto simp: array_createfromdata_def arr_ok_def)

end
