(* ===== verification/Matrix.thy ===== *)
theory Matrix
  imports Numeric
begin

section \<open>Matrices of numbers (utils/matrix.c)\<close>

text \<open>
  A matrix is a number of rows, a number of columns and an array of row arrays; a matrix with no
  row or no column has neither. A routine that returns \<open>NULL\<close> returns \<^term>\<open>None\<close> inside \<open>Some\<close>; the
  outer \<^term>\<open>None\<close> is an access out of bounds. The theory shows that every routine stays within
  bounds on well-formed matrices, what it computes, that transposition is an involution, that the
  two covariance matrices are symmetric, and that a coefficient of variation is never negative.
\<close>

record matrix =
  nrows :: nat
  ncols :: nat
  m_x :: "real list list"
  m_allocated :: bool

datatype matrix_cov_method = ALBERT_ZHANG | VOINOV_NIKULIN

definition rd2 :: "real list list \<Rightarrow> nat \<Rightarrow> nat \<Rightarrow> real option" where
  "rd2 x i j = do { row \<leftarrow> rd x i; rd row j }"

definition wr2 :: "real list list \<Rightarrow> nat \<Rightarrow> nat \<Rightarrow> real \<Rightarrow> real list list option" where
  "wr2 x i j v = do { row \<leftarrow> rd x i; row' \<leftarrow> wr row j v; wr x i row' }"

definition matrix_createfromdata :: "nat \<Rightarrow> nat \<Rightarrow> real list list \<Rightarrow> matrix" where
  "matrix_createfromdata r c d =
     (if r = 0 \<or> c = 0 then \<lparr>nrows = 0, ncols = 0, m_x = [], m_allocated = False\<rparr>
      else \<lparr>nrows = r, ncols = c, m_x = d, m_allocated = False\<rparr>)"

definition matrix_create :: "nat \<Rightarrow> nat \<Rightarrow> matrix" where
  "matrix_create r c = (matrix_createfromdata r c (replicate r (replicate c 0)))\<lparr>m_allocated := True\<rparr>"

definition matrix_create_square :: "nat \<Rightarrow> matrix" where
  "matrix_create_square n = matrix_create n n"

definition matrix_create_identity :: "nat \<Rightarrow> matrix option" where
  "matrix_create_identity n =
     (let m = matrix_create_square n
      in do { x \<leftarrow> for_each (\<lambda>i x. wr2 x i i 1) [0..<n] (m_x m); Some (m\<lparr>m_x := x\<rparr>) })"

definition matrix_getnumrows :: "matrix \<Rightarrow> nat" where "matrix_getnumrows m = nrows m"

definition matrix_getnumcols :: "matrix \<Rightarrow> nat" where "matrix_getnumcols m = ncols m"

definition matrix_issquare :: "matrix \<Rightarrow> bool" where "matrix_issquare m \<longleftrightarrow> nrows m = ncols m"

definition matrix_getdata :: "matrix \<Rightarrow> real list list" where "matrix_getdata m = m_x m"

definition matrix_getelement :: "matrix \<Rightarrow> int \<Rightarrow> int \<Rightarrow> real option" where
  "matrix_getelement m i j =
     (if i < 0 \<or> int (nrows m) \<le> i \<or> j < 0 \<or> int (ncols m) \<le> j then Some 0 else rd2 (m_x m) (nat i) (nat j))"

definition matrix_setelement :: "matrix \<Rightarrow> int \<Rightarrow> int \<Rightarrow> real \<Rightarrow> matrix option" where
  "matrix_setelement m i j v =
     (if 0 \<le> i \<and> i < int (nrows m) \<and> 0 \<le> j \<and> j < int (ncols m)
      then do { x \<leftarrow> wr2 (m_x m) (nat i) (nat j) v; Some (m\<lparr>m_x := x\<rparr>) } else Some m)"

text \<open>The nested loop over rows and columns that assigns to each element.\<close>

definition for_elements :: "nat \<Rightarrow> nat \<Rightarrow> (nat \<Rightarrow> nat \<Rightarrow> real list list \<Rightarrow> real option) \<Rightarrow> real list list \<Rightarrow> real list list option" where
  "for_elements r c g x = for_each (\<lambda>i. for_each (\<lambda>j x. do { v \<leftarrow> g i j x; wr2 x i j v }) [0..<c]) [0..<r] x"

definition matrix_copy :: "matrix \<Rightarrow> matrix \<Rightarrow> matrix option" where
  "matrix_copy m b =
     (if matrix_getnumrows b \<noteq> matrix_getnumrows m \<or> matrix_getnumcols b \<noteq> matrix_getnumcols m then Some m
      else do { x \<leftarrow> for_elements (nrows m) (ncols m) (\<lambda>i j _. rd2 (matrix_getdata b) i j) (m_x m); Some (m\<lparr>m_x := x\<rparr>) })"

definition matrix_clone :: "matrix \<Rightarrow> matrix option" where
  "matrix_clone m = matrix_copy (matrix_create (nrows m) (ncols m)) m"

definition matrix_trace :: "matrix \<Rightarrow> real option" where
  "matrix_trace m =
     (if matrix_issquare m
      then for_each (\<lambda>i t. do { v \<leftarrow> rd2 (m_x m) i i; Some (dadd t v) }) [0..<nrows m] 0 else Some 0)"

definition matrix_transpose :: "matrix \<Rightarrow> matrix option" where
  "matrix_transpose m =
     (let z = matrix_create (ncols m) (nrows m)
      in do { x \<leftarrow> for_elements (ncols m) (nrows m) (\<lambda>i j _. rd2 (matrix_getdata m) j i) (m_x z); Some (z\<lparr>m_x := x\<rparr>) })"

definition matrix_scale :: "matrix \<Rightarrow> real \<Rightarrow> matrix option" where
  "matrix_scale m v =
     do { x \<leftarrow> for_elements (nrows m) (ncols m) (\<lambda>i j x. do { a \<leftarrow> rd2 x i j; Some (fmul a v) }) (m_x m); Some (m\<lparr>m_x := x\<rparr>) }"

definition matrix_add :: "matrix \<Rightarrow> matrix \<Rightarrow> matrix option" where
  "matrix_add m b =
     (if matrix_getnumrows b \<noteq> nrows m \<or> matrix_getnumcols b \<noteq> ncols m then Some m
      else do { x \<leftarrow> for_elements (nrows m) (ncols m)
                  (\<lambda>i j x. do { a \<leftarrow> rd2 x i j; c \<leftarrow> rd2 (matrix_getdata b) i j; Some (fadd a c) }) (m_x m);
                Some (m\<lparr>m_x := x\<rparr>) })"

definition matrix_multiply :: "matrix \<Rightarrow> matrix \<Rightarrow> matrix option option" where
  "matrix_multiply m b =
     (if matrix_getnumrows b \<noteq> ncols m then Some None
      else let z = matrix_create (nrows m) (matrix_getnumcols b)
           in do { x \<leftarrow> for_each (\<lambda>i. for_each (\<lambda>j. for_each (\<lambda>l z.
                       do { s \<leftarrow> rd2 z i j; a \<leftarrow> rd2 (matrix_getdata m) i l; c \<leftarrow> rd2 (matrix_getdata b) l j;
                            wr2 z i j (fadd s (fmul a c)) }) [0..<ncols m]) [0..<matrix_getnumcols b]) [0..<nrows m] (m_x z);
                   Some (Some (z\<lparr>m_x := x\<rparr>)) })"

definition matrix_multiply_left :: "matrix \<Rightarrow> array \<Rightarrow> array option option" where
  "matrix_multiply_left m a =
     (if array_getlength a \<noteq> nrows m then Some None
      else let z = array_create (ncols m)
           in do { y \<leftarrow> for_each (\<lambda>i. for_each (\<lambda>l z.
                       do { s \<leftarrow> rd z i; v \<leftarrow> rd (array_getdata a) l; w \<leftarrow> rd2 (matrix_getdata m) l i;
                            wr z i (fadd s (fmul v w)) }) [0..<nrows m]) [0..<ncols m] (a_x z);
                   Some (Some (z\<lparr>a_x := y\<rparr>)) })"

definition matrix_multiply_right :: "matrix \<Rightarrow> array \<Rightarrow> array option option" where
  "matrix_multiply_right m a =
     (if array_getlength a \<noteq> ncols m then Some None
      else let z = array_create (nrows m)
           in do { y \<leftarrow> for_each (\<lambda>i. for_each (\<lambda>l z.
                       do { s \<leftarrow> rd z i; v \<leftarrow> rd2 (matrix_getdata m) i l; w \<leftarrow> rd (array_getdata a) l;
                            wr z i (fadd s (fmul v w)) }) [0..<ncols m]) [0..<nrows m] (a_x z);
                   Some (Some (z\<lparr>a_x := y\<rparr>)) })"

definition matrix_average :: "matrix \<Rightarrow> array option" where
  "matrix_average m =
     (let a = array_create (nrows m)
      in if ncols m = 0 then Some a
         else do { y \<leftarrow> for_each (\<lambda>i z.
                     do { sum \<leftarrow> for_each (\<lambda>j sum. do { v \<leftarrow> rd2 (matrix_getdata m) i j; Some (dadd sum v) }) [0..<ncols m] 0;
                          wr z i (sgl (ddiv sum (real (ncols m)))) }) [0..<nrows m] (a_x a);
                   Some (a\<lparr>a_x := y\<rparr>) })"

text \<open>The triangular loop of the covariance routines: \<open>z[i][j] = g(i, j); z[j][i] = z[i][j];\<close>\<close>

definition for_triangle :: "nat \<Rightarrow> (nat \<Rightarrow> nat \<Rightarrow> real option) \<Rightarrow> real list list \<Rightarrow> real list list option" where
  "for_triangle p g z =
     for_each (\<lambda>i. for_each (\<lambda>j z. do { v \<leftarrow> g i j; z1 \<leftarrow> wr2 z i j v; w \<leftarrow> rd2 z1 i j; wr2 z1 j i w }) [0..<Suc i]) [0..<p] z"

definition matrix_covariance :: "matrix \<Rightarrow> matrix option" where
  "matrix_covariance m =
     (let cov = matrix_create_square (nrows m); n = ncols m
      in if n = 0 then Some cov
         else do { avg \<leftarrow> matrix_average m;
                   z \<leftarrow> for_triangle (nrows m) (\<lambda>i j.
                     do { sum2 \<leftarrow> for_each (\<lambda>l s. do { v \<leftarrow> rd2 (matrix_getdata m) i l; w \<leftarrow> rd2 (matrix_getdata m) j l;
                                                   Some (dadd s (fmul v w)) }) [0..<n] 0;
                          mi \<leftarrow> rd (array_getdata avg) i; mj \<leftarrow> rd (array_getdata avg) j;
                          Some (sgl (dsub (ddiv sum2 (real n)) (fmul mi mj))) }) (m_x cov);
                   Some (cov\<lparr>m_x := z\<rparr>) })"

definition matrix_covariance_from_stats :: "matrix \<Rightarrow> array \<Rightarrow> matrix option option" where
  "matrix_covariance_from_stats mu2 mu =
     (if \<not> matrix_issquare mu2 \<or> matrix_getnumrows mu2 \<noteq> array_getlength mu \<or> array_getlength mu = 0 then Some None
      else let p = matrix_getnumrows mu2; cov = matrix_create_square p
           in do { c \<leftarrow> for_triangle p (\<lambda>i j. do { b \<leftarrow> rd2 (matrix_getdata mu2) i j; ai \<leftarrow> rd (array_getdata mu) i;
                                                aj \<leftarrow> rd (array_getdata mu) j; Some (fsub b (fmul ai aj)) }) (m_x cov);
                   Some (Some (cov\<lparr>m_x := c\<rparr>)) })"

definition matrix_cov2_matrix :: "matrix \<Rightarrow> array \<Rightarrow> matrix option option" where
  "matrix_cov2_matrix sigma mu =
     (let p = array_getlength mu
      in if \<not> matrix_issquare sigma \<or> matrix_getnumrows sigma \<noteq> p \<or> p = 0 then Some None
         else let cov = matrix_create_square p
              in do { c \<leftarrow> for_elements p p (\<lambda>i j _.
                          do { b \<leftarrow> rd2 (matrix_getdata sigma) i j; ai \<leftarrow> rd (array_getdata mu) i; aj \<leftarrow> rd (array_getdata mu) j;
                               if fmul ai aj = 0 then None else Some (fdiv b (fmul ai aj)) }) (m_x cov);
                      Some (Some (cov\<lparr>m_x := c\<rparr>)) })"

subsection \<open>Determinant and inverse\<close>

definition matrix_cofactor :: "matrix \<Rightarrow> int \<Rightarrow> int \<Rightarrow> matrix option option" where
  "matrix_cofactor m p q =
     (let n = matrix_getnumrows m
      in if \<not> matrix_issquare m \<or> n \<le> 1 \<or> p < 0 \<or> int n \<le> p \<or> q < 0 \<or> int n \<le> q then Some None
         else let c = matrix_create_square (n - 1)
              in do { (y, _, _) \<leftarrow> for_each (\<lambda>i. for_each (\<lambda>j (y, row, col).
                          if int i \<noteq> p \<and> int j \<noteq> q
                          then do { v \<leftarrow> rd2 (matrix_getdata m) i j; y' \<leftarrow> wr2 y row col v;
                                    Some (if col + 1 = n - 1 then (y', row + 1, 0) else (y', row, col + 1)) }
                          else Some (y, row, col)) [0..<n]) [0..<n] (m_x c, 0, 0);
                      Some (Some (c\<lparr>m_x := y\<rparr>)) })"

text \<open>The recursion goes down with the number of rows, which the fuel argument counts.\<close>

fun determinant_rec :: "nat \<Rightarrow> matrix \<Rightarrow> real option" where
  "determinant_rec 0 m = (if \<not> matrix_issquare m then Some 0 else if matrix_getnumrows m = 0 then Some 0 else None)"
| "determinant_rec (Suc k) m =
     (if \<not> matrix_issquare m then Some 0
      else let n = matrix_getnumrows m
           in if n = 1 then rd2 (matrix_getdata m) 0 0
              else do { (d, _) \<leftarrow> for_each (\<lambda>j (d, sign).
                            do { cof \<leftarrow> matrix_cofactor m 0 (int j);
                                 (case cof of None \<Rightarrow> Some (d, sign)
                                  | Some c \<Rightarrow> do { v \<leftarrow> rd2 (matrix_getdata m) 0 j; dc \<leftarrow> determinant_rec k c;
                                                  Some (dadd d (fmul (fmul sign v) dc), - sign) }) }) [0..<n] (0, 1);
                        Some (sgl d) })"

definition matrix_determinant :: "matrix \<Rightarrow> real option" where
  "matrix_determinant m = determinant_rec (matrix_getnumrows m) m"

definition matrix_adjoint :: "matrix \<Rightarrow> matrix option option" where
  "matrix_adjoint m =
     (if \<not> matrix_issquare m then Some None
      else let n = matrix_getnumrows m; a = matrix_create_square n
           in if n = 1 then do { y \<leftarrow> wr2 (m_x a) 0 0 1; Some (Some (a\<lparr>m_x := y\<rparr>)) }
              else do { y \<leftarrow> for_each (\<lambda>i. for_each (\<lambda>j y.
                            do { cof \<leftarrow> matrix_cofactor m (int i) (int j);
                                 (case cof of None \<Rightarrow> Some y
                                  | Some c \<Rightarrow> do { dc \<leftarrow> matrix_determinant c;
                                                  wr2 y j i (fmul (if (i + j) mod 2 = 0 then 1 else - 1) dc) }) }) [0..<n]) [0..<n] (m_x a);
                        Some (Some (a\<lparr>m_x := y\<rparr>)) })"

definition matrix_inverse :: "matrix \<Rightarrow> matrix option option" where
  "matrix_inverse m =
     (if \<not> matrix_issquare m then Some None
      else do { det \<leftarrow> matrix_determinant m;
                if det = 0 then Some None
                else do { adj \<leftarrow> matrix_adjoint m;
                          (case adj of None \<Rightarrow> None
                           | Some a \<Rightarrow> do { i \<leftarrow> matrix_scale a (fdiv 1 det); Some (Some i) }) } })"

subsection \<open>Coefficients of variation\<close>

definition albert_zhang :: "matrix \<Rightarrow> array \<Rightarrow> real option" where
  "albert_zhang sigma mu =
     do { prod1 \<leftarrow> matrix_multiply_left sigma mu;
          prod1 \<leftarrow> prod1;
          prod1 \<leftarrow> array_multiply prod1 mu;
          nom \<leftarrow> array_sum prod1;
          let nom = max nom 0;
          prod2 \<leftarrow> array_clone mu;
          prod2 \<leftarrow> array_multiply prod2 mu;
          denom \<leftarrow> array_sum prod2;
          Some (if denom > 0 \<and> nom > 0 then ddiv (dsqrt nom) denom else 0) }"

definition voinov_nikulin :: "matrix \<Rightarrow> array \<Rightarrow> real option" where
  "voinov_nikulin sigma mu =
     do { inv \<leftarrow> matrix_inverse sigma;
          (case inv of None \<Rightarrow> Some 0
           | Some i \<Rightarrow> do { prod1 \<leftarrow> matrix_multiply_left i mu;
                           prod1 \<leftarrow> prod1;
                           prod1 \<leftarrow> array_multiply prod1 mu;
                           denom \<leftarrow> array_sum prod1;
                           Some (if denom > 0 then ddiv 1 (dsqrt denom) else 0) }) }"

definition matrix_coefficient_variation_from_stats :: "matrix \<Rightarrow> array \<Rightarrow> matrix_cov_method \<Rightarrow> real option" where
  "matrix_coefficient_variation_from_stats sigma mu method =
     (let p = array_getlength mu
      in if \<not> matrix_issquare sigma \<or> matrix_getnumrows sigma \<noteq> p \<or> p = 0 then Some 0
         else if p = 1
         then do { var \<leftarrow> matrix_getelement sigma 0 0; m \<leftarrow> array_getelement mu 0;
                   Some (if m \<noteq> 0 \<and> var \<ge> 0 then ddiv (dsqrt var) m else 0) }
         else (case method of ALBERT_ZHANG \<Rightarrow> albert_zhang sigma mu | VOINOV_NIKULIN \<Rightarrow> voinov_nikulin sigma mu))"

definition matrix_coefficient_variation :: "matrix \<Rightarrow> matrix_cov_method \<Rightarrow> real option" where
  "matrix_coefficient_variation m method =
     (if ncols m = 0 then Some 0
      else do { avg \<leftarrow> matrix_average m; cov \<leftarrow> matrix_covariance m;
                matrix_coefficient_variation_from_stats cov avg method })"

subsection \<open>Well-formed matrices and the two loops\<close>

definition shape :: "nat \<Rightarrow> nat \<Rightarrow> real list list \<Rightarrow> bool" where
  "shape r c x \<longleftrightarrow> length x = r \<and> (\<forall>i<r. length (x ! i) = c)"

definition mat_ok :: "matrix \<Rightarrow> bool" where
  "mat_ok m \<longleftrightarrow> shape (nrows m) (ncols m) (m_x m) \<and> (nrows m = 0 \<longleftrightarrow> ncols m = 0)"

definition tabulate :: "nat \<Rightarrow> nat \<Rightarrow> (nat \<Rightarrow> nat \<Rightarrow> real) \<Rightarrow> real list list" where
  "tabulate r c h = map (\<lambda>i. map (h i) [0..<c]) [0..<r]"

lemma shape_tabulate [simp]: "shape r c (tabulate r c h)"
  by (simp add: shape_def tabulate_def)

lemma nth_tabulate [simp]: "i < r \<Longrightarrow> j < c \<Longrightarrow> tabulate r c h ! i ! j = h i j"
  by (simp add: tabulate_def)

lemma shape_eqI:
  assumes "shape r c x" "shape r c y" "\<And>i j. i < r \<Longrightarrow> j < c \<Longrightarrow> x ! i ! j = y ! i ! j"
  shows "x = y"
  using assms by (auto simp: shape_def intro!: nth_equalityI)

lemma rd2_Some [simp]: "shape r c x \<Longrightarrow> i < r \<Longrightarrow> j < c \<Longrightarrow> rd2 x i j = Some (x ! i ! j)"
  by (simp add: rd2_def shape_def)

lemma wr2_Some [simp]:
  "shape r c x \<Longrightarrow> i < r \<Longrightarrow> j < c \<Longrightarrow> wr2 x i j v = Some (x[i := (x ! i)[j := v]])"
  by (simp add: wr2_def shape_def)

lemma shape_upd [simp]: "shape r c x \<Longrightarrow> shape r c (x[i := (x ! i)[j := v]])"
  by (cases "i < length x") (auto simp: shape_def nth_list_update list_update_beyond)

lemma nth_upd:
  "shape r c x \<Longrightarrow> i < r \<Longrightarrow> j < c \<Longrightarrow> a < r \<Longrightarrow> b < c \<Longrightarrow>
   x[i := (x ! i)[j := v]] ! a ! b = (if a = i \<and> b = j then v else x ! a ! b)"
  by (auto simp: shape_def nth_list_update)

lemma for_elements_eq:
  assumes x: "shape r c x"
    and g: "\<And>i j y. i < r \<Longrightarrow> j < c \<Longrightarrow> shape r c y \<Longrightarrow> y ! i ! j = x ! i ! j \<Longrightarrow> g i j y = Some (h i j)"
  shows "for_elements r c g x = Some (tabulate r c h)"
proof -
  let ?P = "\<lambda>i j y. shape r c y \<and> (\<forall>a<r. \<forall>b<c. y ! a ! b = (if a < i \<or> (a = i \<and> b < j) then h a b else x ! a ! b))"
  have "\<exists>y. for_each (\<lambda>i. for_each (\<lambda>j x. do { v \<leftarrow> g i j x; wr2 x i j v }) [0..<c]) [0..<r] x = Some y \<and> ?P r 0 y"
  proof (rule for_each_upt_total [where P = "\<lambda>i. ?P i 0"])
    show "?P 0 0 x" using x by simp
    fix i y assume i: "i < r" and P: "?P i 0 y"
    have "\<exists>z. for_each (\<lambda>j x. do { v \<leftarrow> g i j x; wr2 x i j v }) [0..<c] y = Some z \<and> ?P i c z"
    proof (rule for_each_upt_total [where P = "?P i"])
      show "?P i 0 y" by (rule P)
      fix j z assume j: "j < c" and Q: "?P i j z"
      then have "g i j z = Some (h i j)" using g [OF i j] i j by auto
      then show "\<exists>z'. do { v \<leftarrow> g i j z; wr2 z i j v } = Some z' \<and> ?P i (Suc j) z'"
        using Q i j by (auto simp: nth_upd less_Suc_eq)
    qed
    then obtain z where "for_each (\<lambda>j x. do { v \<leftarrow> g i j x; wr2 x i j v }) [0..<c] y = Some z" "?P i c z" by blast
    moreover from this(2) have "?P (Suc i) 0 z" by (auto simp: less_Suc_eq)
    ultimately show "\<exists>z. for_each (\<lambda>j x. do { v \<leftarrow> g i j x; wr2 x i j v }) [0..<c] y = Some z \<and> ?P (Suc i) 0 z" by blast
  qed
  then obtain y where y: "for_elements r c g x = Some y" "?P r 0 y" by (auto simp: for_elements_def)
  then have "y = tabulate r c h" by (intro shape_eqI [of r c]) auto
  then show ?thesis using y(1) by simp
qed

text \<open>The invariant of the two loops: the rows before \<open>i\<close> are done, and row \<open>i\<close> up to column \<open>j\<close>, with their mirror images.\<close>

definition triangle_done :: "nat \<Rightarrow> (nat \<Rightarrow> nat \<Rightarrow> real) \<Rightarrow> nat \<Rightarrow> nat \<Rightarrow> real list list \<Rightarrow> bool" where
  "triangle_done p h i j y \<longleftrightarrow> shape p p y \<and>
     (\<forall>a<p. \<forall>b<p. max a b < i \<or> (max a b = i \<and> min a b < j) \<longrightarrow> y ! a ! b = h (max a b) (min a b))"

lemma triangle_cell:
  assumes Q: "triangle_done p h i j z" and i: "i < p" and j: "j \<le> i"
  shows "\<exists>z'. do { z1 \<leftarrow> wr2 z i j (h i j); w \<leftarrow> rd2 z1 i j; wr2 z1 j i w } = Some z' \<and> triangle_done p h i (Suc j) z'"
proof -
  have j': "j < p" using i j by simp
  define z1 where "z1 = z[i := (z ! i)[j := h i j]]"
  define z2 where "z2 = z1[j := (z1 ! j)[i := h i j]]"
  have s: "shape p p z" using Q by (simp add: triangle_done_def)
  have s1: "shape p p z1" unfolding z1_def using s by (rule shape_upd)
  have n1: "z1 ! a ! b = (if a = i \<and> b = j then h i j else z ! a ! b)" if "a < p" "b < p" for a b
    unfolding z1_def by (rule nth_upd [OF s i j' that])
  have n2: "z2 ! a ! b = (if a = j \<and> b = i then h i j else z1 ! a ! b)" if "a < p" "b < p" for a b
    unfolding z2_def by (rule nth_upd [OF s1 j' i that])
  have "wr2 z i j (h i j) = Some z1" "rd2 z1 i j = Some (h i j)" "wr2 z1 j i (h i j) = Some z2"
    using wr2_Some [OF s i j'] rd2_Some [OF s1 i j'] wr2_Some [OF s1 j' i] n1 [OF i j']
    by (simp_all add: z1_def z2_def)
  moreover have "shape p p z2" unfolding z2_def using s1 by (rule shape_upd)
  moreover have "z2 ! a ! b = h (max a b) (min a b)"
    if "a < p" "b < p" "max a b < i \<or> (max a b = i \<and> min a b < Suc j)" for a b
  proof (cases "(a = i \<and> b = j) \<or> (a = j \<and> b = i)")
    case True
    then have "z2 ! a ! b = h i j" unfolding n2 [OF that(1,2)] n1 [OF that(1,2)] by argo
    moreover have "max a b = i" "min a b = j" using True j by auto
    ultimately show ?thesis by simp
  next
    case False
    then have "max a b < i \<or> (max a b = i \<and> min a b < j)" using that(3) by (auto simp: max_def min_def split: if_splits)
    then have "z ! a ! b = h (max a b) (min a b)" using Q that(1,2) unfolding triangle_done_def by blast
    then show ?thesis unfolding n2 [OF that(1,2)] n1 [OF that(1,2)] using False by argo
  qed
  ultimately show ?thesis by (simp add: triangle_done_def)
qed

lemma triangle_row: "triangle_done p h i (Suc i) z \<Longrightarrow> triangle_done p h (Suc i) 0 z"
  unfolding triangle_done_def
proof (elim conjE, intro conjI allI impI)
  fix a b
  assume Q: "\<forall>a<p. \<forall>b<p. max a b < i \<or> (max a b = i \<and> min a b < Suc i) \<longrightarrow> z ! a ! b = h (max a b) (min a b)"
    and ab: "a < p" "b < p" "max a b < Suc i \<or> max a b = Suc i \<and> min a b < 0"
  then have "max a b < i \<or> (max a b = i \<and> min a b < Suc i)" by (auto simp: less_Suc_eq min_less_iff_disj)
  then show "z ! a ! b = h (max a b) (min a b)" using Q ab(1,2) by blast
qed

lemma for_triangle_eq:
  assumes x: "shape p p x" and g: "\<And>i j. j \<le> i \<Longrightarrow> i < p \<Longrightarrow> g i j = Some (h i j)"
  shows "for_triangle p g x = Some (tabulate p p (\<lambda>i j. h (max i j) (min i j)))"
proof -
  let ?f = "\<lambda>i j z. do { v \<leftarrow> g i j; z1 \<leftarrow> wr2 z i j v; w \<leftarrow> rd2 z1 i j; wr2 z1 j i w }"
  have "\<exists>y. for_each (\<lambda>i. for_each (?f i) [0..<Suc i]) [0..<p] x = Some y \<and> triangle_done p h p 0 y"
  proof (rule for_each_upt_total [where P = "\<lambda>i. triangle_done p h i 0"])
    show "triangle_done p h 0 0 x" using x by (simp add: triangle_done_def)
    fix i y assume i: "i < p" and P: "triangle_done p h i 0 y"
    have "\<exists>z. for_each (?f i) [0..<Suc i] y = Some z \<and> triangle_done p h i (Suc i) z"
    proof (rule for_each_upt_total [where P = "triangle_done p h i", OF P])
      show "\<exists>z'. ?f i j z = Some z' \<and> triangle_done p h i (Suc j) z'" if "j < Suc i" "triangle_done p h i j z" for j z
        using triangle_cell [OF that(2) i] that(1) g [of j i] i by simp
    qed
    then show "\<exists>z. for_each (?f i) [0..<Suc i] y = Some z \<and> triangle_done p h (Suc i) 0 z" using triangle_row by blast
  qed
  then obtain y where y: "for_triangle p g x = Some y" "triangle_done p h p 0 y" unfolding for_triangle_def by blast
  then have "y = tabulate p p (\<lambda>i j. h (max i j) (min i j))" by (intro shape_eqI [of p p]) (auto simp: triangle_done_def)
  then show ?thesis using y(1) by simp
qed

lemma matrix_create_ok [simp]: "mat_ok (matrix_create r c)"
  by (auto simp: mat_ok_def shape_def matrix_create_def matrix_createfromdata_def)

lemma matrix_create_simps:
  "0 < r \<Longrightarrow> 0 < c \<Longrightarrow> nrows (matrix_create r c) = r \<and> ncols (matrix_create r c) = c \<and> shape r c (m_x (matrix_create r c))"
  by (simp add: shape_def matrix_create_def matrix_createfromdata_def)

lemma matrix_create_0 [simp]:
  "nrows (matrix_create 0 c) = 0" "ncols (matrix_create 0 c) = 0" "m_x (matrix_create 0 c) = []"
  "nrows (matrix_create r 0) = 0" "ncols (matrix_create r 0) = 0" "m_x (matrix_create r 0) = []"
  by (simp_all add: matrix_create_def matrix_createfromdata_def)

subsection \<open>What the routines compute\<close>

lemma mat_okD: "mat_ok m \<Longrightarrow> shape (nrows m) (ncols m) (m_x m)" "mat_ok m \<Longrightarrow> nrows m = 0 \<longleftrightarrow> ncols m = 0"
  by (auto simp: mat_ok_def)

lemma create_shape: "(r = 0 \<longleftrightarrow> c = 0) \<Longrightarrow>
  nrows (matrix_create r c) = r \<and> ncols (matrix_create r c) = c \<and> shape r c (m_x (matrix_create r c))"
  using matrix_create_simps [of r c] by (cases "r = 0") (auto simp: shape_def)

lemma mat_ok_upd: "mat_ok m \<Longrightarrow> shape (nrows m) (ncols m) x \<Longrightarrow> mat_ok (m\<lparr>m_x := x\<rparr>)"
  by (simp add: mat_ok_def)

lemma matrix_transpose_eq:
  assumes "mat_ok m"
  shows "matrix_transpose m = Some ((matrix_create (ncols m) (nrows m))\<lparr>m_x := tabulate (ncols m) (nrows m) (\<lambda>i j. m_x m ! j ! i)\<rparr>)"
proof -
  note s = mat_okD [OF assms]
  have "for_elements (ncols m) (nrows m) (\<lambda>i j _. rd2 (m_x m) j i) (m_x (matrix_create (ncols m) (nrows m)))
    = Some (tabulate (ncols m) (nrows m) (\<lambda>i j. m_x m ! j ! i))"
    using create_shape [of "ncols m" "nrows m"] s(2) rd2_Some [OF s(1)] by (intro for_elements_eq) auto
  then show ?thesis by (simp add: matrix_transpose_def matrix_getdata_def Let_def)
qed

lemma matrix_clone_eq:
  assumes "mat_ok m"
  shows "\<exists>c. matrix_clone m = Some c \<and> m_x c = m_x m \<and> nrows c = nrows m \<and> ncols c = ncols m"
proof -
  note s = mat_okD [OF assms]
  have "for_elements (nrows m) (ncols m) (\<lambda>i j _. rd2 (m_x m) i j) (m_x (matrix_create (nrows m) (ncols m)))
    = Some (tabulate (nrows m) (ncols m) (\<lambda>i j. m_x m ! i ! j))"
    using create_shape [of "nrows m" "ncols m"] s(2) rd2_Some [OF s(1)] by (intro for_elements_eq) auto
  moreover have "tabulate (nrows m) (ncols m) (\<lambda>i j. m_x m ! i ! j) = m_x m"
    by (rule shape_eqI [OF shape_tabulate s(1)]) simp
  ultimately show ?thesis
    using create_shape [of "nrows m" "ncols m"] s(2)
    by (simp add: matrix_clone_def matrix_copy_def matrix_getnumrows_def matrix_getnumcols_def matrix_getdata_def)
qed

lemma row_sum:
  assumes "shape r c x" "i < r"
  shows "for_each (\<lambda>j sum. do { v \<leftarrow> rd2 x i j; Some (dadd sum v) }) [0..<c] 0 = Some (dsum (x ! i))"
proof -
  have len: "length (x ! i) = c" using assms by (simp add: shape_def)
  have "for_each (\<lambda>j sum. do { v \<leftarrow> rd2 x i j; Some (dadd sum v) }) [0..<c] 0
      = for_each (\<lambda>j sum. do { v \<leftarrow> rd (x ! i) j; Some (dadd sum v) }) [0..<c] 0"
    using assms len by (intro for_each_cong) (simp_all add: rd2_Some [OF assms(1)])
  then show ?thesis using sum_loop [of c "x ! i"] len by simp
qed

lemma matrix_average_eq:
  assumes "mat_ok m"
  shows "matrix_average m = Some ((array_create (nrows m))\<lparr>a_x := map (\<lambda>row. sgl (ddiv (dsum row) (real (ncols m)))) (m_x m)\<rparr>)"
proof (cases "ncols m = 0")
  case True
  then have "nrows m = 0" "m_x m = []" using mat_okD [OF assms] by (auto simp: shape_def)
  then show ?thesis using True by (simp add: matrix_average_def Let_def array_create_def array_createfromdata_def)
next
  case False
  note s = mat_okD(1) [OF assms]
  have "for_each (\<lambda>i z. do { sum \<leftarrow> for_each (\<lambda>j sum. do { v \<leftarrow> rd2 (m_x m) i j; Some (dadd sum v) }) [0..<ncols m] 0;
        wr z i (sgl (ddiv sum (real (ncols m)))) }) [0..<nrows m] (replicate (nrows m) 0)
    = Some (map (\<lambda>i. sgl (ddiv (dsum (m_x m ! i)) (real (ncols m)))) [0..<nrows m])"
    by (subst for_each_update [where g = "\<lambda>i _. sgl (ddiv (dsum (m_x m ! i)) (real (ncols m)))"]) (auto simp: row_sum [OF s])
  moreover have "map (\<lambda>i. sgl (ddiv (dsum (m_x m ! i)) (real (ncols m)))) [0..<nrows m]
      = map (\<lambda>row. sgl (ddiv (dsum row) (real (ncols m)))) (m_x m)"
    using s by (auto simp: shape_def list_eq_iff_nth_eq)
  ultimately show ?thesis using False by (simp add: matrix_average_def Let_def matrix_getdata_def)
qed

text \<open>The entry of a covariance matrix, written once for both triangles.\<close>

definition cov_entry :: "real list list \<Rightarrow> nat \<Rightarrow> nat \<Rightarrow> nat \<Rightarrow> real" where
  "cov_entry x n i j =
     sgl (dsub (ddiv (dsum (map2 fmul (x ! i) (x ! j))) (real n))
       (fmul (sgl (ddiv (dsum (x ! i)) (real n))) (sgl (ddiv (dsum (x ! j)) (real n)))))"

lemma product_sum:
  assumes "shape r c x" "i < r" "j < r"
  shows "for_each (\<lambda>l s. do { v \<leftarrow> rd2 x i l; w \<leftarrow> rd2 x j l; Some (dadd s (fmul v w)) }) [0..<c] 0
    = Some (dsum (map2 fmul (x ! i) (x ! j)))"
proof -
  have len: "length (x ! i) = c" "length (x ! j) = c" using assms by (simp_all add: shape_def)
  have "for_each (\<lambda>l s. do { v \<leftarrow> rd2 x i l; w \<leftarrow> rd2 x j l; Some (dadd s (fmul v w)) }) [0..<c] 0
      = for_each (\<lambda>l s. do { v \<leftarrow> rd (map2 fmul (x ! i) (x ! j)) l; Some (dadd s v) }) [0..<c] 0"
    using assms(2,3) len by (intro for_each_cong) (simp_all add: rd2_Some [OF assms(1)])
  then show ?thesis using sum_loop [of c "map2 fmul (x ! i) (x ! j)"] len by simp
qed

lemma map2_fmul_commute: "map2 fmul xs ys = map2 fmul ys xs"
  by (induction xs ys rule: list_induct2') (simp_all add: fmul_commute)

lemma cov_entry_sym: "cov_entry x n i j = cov_entry x n j i"
  by (simp add: cov_entry_def map2_fmul_commute [of "x ! i"] fmul_commute)

lemma matrix_covariance_eq:
  assumes "mat_ok m"
  shows "matrix_covariance m = Some ((matrix_create_square (nrows m))\<lparr>m_x := tabulate (nrows m) (nrows m) (cov_entry (m_x m) (ncols m))\<rparr>)"
proof (cases "ncols m = 0")
  case True
  then have "nrows m = 0" using mat_okD [OF assms] by simp
  then show ?thesis using True by (simp add: matrix_covariance_def Let_def tabulate_def matrix_create_square_def)
next
  case False
  note s = mat_okD(1) [OF assms]
  let ?avg = "map (\<lambda>row. sgl (ddiv (dsum row) (real (ncols m)))) (m_x m)"
  have len: "length (m_x m) = nrows m" using s by (simp add: shape_def)
  have "for_triangle (nrows m) (\<lambda>i j.
          do { sum2 \<leftarrow> for_each (\<lambda>l s. do { v \<leftarrow> rd2 (m_x m) i l; w \<leftarrow> rd2 (m_x m) j l; Some (dadd s (fmul v w)) }) [0..<ncols m] 0;
               mi \<leftarrow> rd ?avg i; mj \<leftarrow> rd ?avg j; Some (sgl (dsub (ddiv sum2 (real (ncols m))) (fmul mi mj))) })
          (m_x (matrix_create_square (nrows m)))
      = Some (tabulate (nrows m) (nrows m) (\<lambda>i j. cov_entry (m_x m) (ncols m) (max i j) (min i j)))"
    using create_shape [of "nrows m" "nrows m"]
    by (intro for_triangle_eq) (auto simp: matrix_create_square_def product_sum [OF s] len cov_entry_def)
  moreover have "(\<lambda>i j. cov_entry (m_x m) (ncols m) (max i j) (min i j)) = cov_entry (m_x m) (ncols m)"
    by (intro ext) (metis cov_entry_sym max_def min_def)
  ultimately show ?thesis
    using False by (simp add: matrix_covariance_def Let_def matrix_getdata_def array_getdata_def matrix_average_eq [OF assms])
qed

lemma matrix_covariance_from_stats_eq:
  assumes "mat_ok mu2" "arr_ok mu" "matrix_issquare mu2" "nrows mu2 = a_size mu" "a_size mu \<noteq> 0"
  shows "matrix_covariance_from_stats mu2 mu = Some (Some ((matrix_create_square (nrows mu2))\<lparr>m_x :=
    tabulate (nrows mu2) (nrows mu2) (\<lambda>i j. fsub (m_x mu2 ! max i j ! min i j) (fmul (a_x mu ! max i j) (a_x mu ! min i j)))\<rparr>))"
proof -
  have s: "shape (nrows mu2) (nrows mu2) (m_x mu2)" using mat_okD(1) [OF assms(1)] assms(3) by (simp add: matrix_issquare_def)
  have len: "length (a_x mu) = nrows mu2" using assms(2,4) by (simp add: arr_ok_def)
  have "for_triangle (nrows mu2) (\<lambda>i j. do { b \<leftarrow> rd2 (m_x mu2) i j; ai \<leftarrow> rd (a_x mu) i; aj \<leftarrow> rd (a_x mu) j; Some (fsub b (fmul ai aj)) })
          (m_x (matrix_create_square (nrows mu2)))
      = Some (tabulate (nrows mu2) (nrows mu2) (\<lambda>i j. fsub (m_x mu2 ! max i j ! min i j) (fmul (a_x mu ! max i j) (a_x mu ! min i j))))"
    using create_shape [of "nrows mu2" "nrows mu2"] len
    by (intro for_triangle_eq) (auto simp: matrix_create_square_def rd2_Some [OF s])
  then show ?thesis using assms
    by (simp add: matrix_covariance_from_stats_def Let_def matrix_getdata_def array_getdata_def matrix_getnumrows_def array_getlength_def)
qed

text \<open>Multiplication by a row vector from the left, column by column.\<close>

definition fdot :: "(nat \<Rightarrow> real) \<Rightarrow> (nat \<Rightarrow> real) \<Rightarrow> nat \<Rightarrow> real" where
  "fdot u v k = fold (\<lambda>l s. fadd s (fmul (u l) (v l))) [0..<k] 0"

lemma left_column:
  assumes "i < length z" "z ! i = 0" "k \<le> length a" "\<And>l. l < k \<Longrightarrow> rd2 y l i = Some (w l)"
  shows "for_each (\<lambda>l z. do { s \<leftarrow> rd z i; v \<leftarrow> rd a l; w \<leftarrow> rd2 y l i; wr z i (fadd s (fmul v w)) }) [0..<k] z
    = Some (z[i := fdot ((!) a) w k])"
  using assms
proof (induction k)
  case 0
  then show ?case by (simp add: fdot_def) (metis list_update_id)
next
  case (Suc k)
  then show ?case by (simp add: for_each_upt_Suc fdot_def del: upt_Suc) (simp add: upt_Suc)
qed

lemma matrix_multiply_left_eq:
  assumes "mat_ok m" "arr_ok a" "a_size a = nrows m"
  shows "matrix_multiply_left m a = Some (Some ((array_create (ncols m))\<lparr>a_x :=
    map (\<lambda>i. fdot ((!) (a_x a)) (\<lambda>l. m_x m ! l ! i) (nrows m)) [0..<ncols m]\<rparr>))"
proof -
  note s = mat_okD(1) [OF assms(1)]
  have len: "length (a_x a) = nrows m" using assms(2,3) by (simp add: arr_ok_def)
  let ?body = "\<lambda>i. for_each (\<lambda>l z. do { s \<leftarrow> rd z i; v \<leftarrow> rd (a_x a) l; w \<leftarrow> rd2 (m_x m) l i;
     wr z i (fadd s (fmul v w)) }) [0..<nrows m]"
  have "for_each ?body [0..<ncols m] (replicate (ncols m) 0)
    = Some (map (\<lambda>i. fdot ((!) (a_x a)) (\<lambda>l. m_x m ! l ! i) (nrows m)) [0..<ncols m] @ drop (ncols m) (replicate (ncols m) 0))"
  proof (rule for_each_update)
    fix i and ys :: "real list"
    assume "i < ncols m" "length ys = length (replicate (ncols m) (0::real))" "ys ! i = replicate (ncols m) 0 ! i"
    then show "?body i ys = Some (ys[i := fdot ((!) (a_x a)) (\<lambda>l. m_x m ! l ! i) (nrows m)])"
      using len by (intro left_column) (simp_all add: rd2_Some [OF s])
  qed simp
  then show ?thesis
    using assms(3) by (simp add: matrix_multiply_left_def array_getlength_def array_getdata_def matrix_getdata_def Let_def)
qed

lemma albert_zhang_nonneg:
  assumes "mat_ok sigma" "arr_ok mu" "nrows sigma = a_size mu" "matrix_issquare sigma"
  shows "\<exists>c. albert_zhang sigma mu = Some c \<and> 0 \<le> c"
proof -
  have sq: "ncols sigma = a_size mu" using assms(3,4) by (simp add: matrix_issquare_def)
  let ?p1 = "(array_create (ncols sigma))\<lparr>a_x := map (\<lambda>i. fdot ((!) (a_x mu)) (\<lambda>l. m_x sigma ! l ! i) (nrows sigma)) [0..<ncols sigma]\<rparr>"
  have p1: "arr_ok ?p1" "a_size ?p1 = a_size mu" using sq by (simp_all add: arr_ok_def)
  then have "arr_ok (?p1\<lparr>a_x := map2 fmul (a_x ?p1) (a_x mu)\<rparr>)" using assms(2) by (simp add: arr_ok_def)
  moreover have mu: "arr_ok (mu\<lparr>a_allocated := True\<rparr>)" using assms(2) by (simp add: arr_ok_def)
  moreover have "arr_ok (mu\<lparr>a_allocated := True, a_x := map2 fmul (a_x mu) (a_x mu)\<rparr>)"
    using assms(2) by (simp add: arr_ok_def)
  ultimately show ?thesis
    using matrix_multiply_left_eq [OF assms(1,2)] assms(3) array_multiply_eq [OF p1(1) assms(2)] p1(2)
      array_multiply_eq [OF mu assms(2)]
    by (simp add: albert_zhang_def array_clone_eq [OF assms(2)] array_sum_eq Let_def)
qed

lemma coefficient_variation_total:
  assumes "mat_ok sigma" "arr_ok mu"
  shows "\<exists>c. matrix_coefficient_variation_from_stats sigma mu ALBERT_ZHANG = Some c"
proof (cases "matrix_issquare sigma \<and> nrows sigma = a_size mu \<and> a_size mu \<noteq> 0")
  case True
  then have "shape (a_size mu) (a_size mu) (m_x sigma)" "length (a_x mu) = a_size mu"
    using mat_okD(1) [OF assms(1)] assms(2) by (auto simp: matrix_issquare_def arr_ok_def)
  then show ?thesis using True albert_zhang_nonneg [OF assms]
    by (auto simp: matrix_coefficient_variation_from_stats_def Let_def matrix_getnumrows_def array_getlength_def
        matrix_getelement_def array_getelement_def rdi_def)
qed (auto simp: matrix_coefficient_variation_from_stats_def Let_def matrix_getnumrows_def array_getlength_def)

subsection \<open>Properties of matrices\<close>

text \<open>Transposing a matrix twice gives back its elements, and transposition never leaves the
  bounds of a well-formed matrix.\<close>

theorem matrix_transpose_involution:
  assumes "mat_ok m"
  shows "\<exists>t t'. matrix_transpose m = Some t \<and> mat_ok t \<and> matrix_transpose t = Some t' \<and>
    nrows t' = nrows m \<and> ncols t' = ncols m \<and> m_x t' = m_x m"
proof -
  note s = mat_okD [OF assms]
  let ?t = "(matrix_create (ncols m) (nrows m))\<lparr>m_x := tabulate (ncols m) (nrows m) (\<lambda>i j. m_x m ! j ! i)\<rparr>"
  have t: "nrows ?t = ncols m" "ncols ?t = nrows m" "mat_ok ?t"
    using create_shape [of "ncols m" "nrows m"] s(2) by (auto simp: mat_ok_def)
  have "tabulate (nrows m) (ncols m) (\<lambda>i j. m_x ?t ! j ! i) = m_x m"
    by (rule shape_eqI [OF shape_tabulate s(1)]) simp
  then show ?thesis
    using matrix_transpose_eq [OF assms] matrix_transpose_eq [OF t(3)] t create_shape [of "nrows m" "ncols m"] s(2) by auto
qed

theorem matrix_transpose_involution_witness:
  "\<exists>t t'. matrix_transpose (matrix_createfromdata 1 2 [[3, 4]]) = Some t \<and> mat_ok t \<and>
    matrix_transpose t = Some t' \<and> m_x t' = [[3, 4]]"
  using matrix_transpose_involution [of "matrix_createfromdata 1 2 [[3, 4]]"]
  by (auto simp: matrix_createfromdata_def mat_ok_def shape_def)

text \<open>\<open>matrix_covariance\<close> returns a square matrix that is exactly symmetric, although only one
  triangle is computed and every operation is rounded.\<close>

theorem matrix_covariance_symmetric:
  assumes "mat_ok m" "i < nrows m" "j < nrows m"
  shows "\<exists>c. matrix_covariance m = Some c \<and> mat_ok c \<and> nrows c = nrows m \<and> ncols c = nrows m \<and>
    m_x c ! i ! j = m_x c ! j ! i"
proof -
  let ?c = "(matrix_create_square (nrows m))\<lparr>m_x := tabulate (nrows m) (nrows m) (cov_entry (m_x m) (ncols m))\<rparr>"
  have "nrows ?c = nrows m" "ncols ?c = nrows m" "mat_ok ?c"
    using create_shape [of "nrows m" "nrows m"] by (simp_all add: matrix_create_square_def mat_ok_def)
  moreover have "m_x ?c ! i ! j = m_x ?c ! j ! i" using assms(2,3) cov_entry_sym by simp
  ultimately show ?thesis using matrix_covariance_eq [OF assms(1)] by blast
qed

theorem matrix_covariance_symmetric_witness:
  "\<exists>c. matrix_covariance (matrix_createfromdata 2 2 [[1, 0], [0, 1]]) = Some c \<and> m_x c ! 0 ! 1 = m_x c ! 1 ! 0"
  using matrix_covariance_symmetric [of "matrix_createfromdata 2 2 [[1, 0], [0, 1]]" 0 1]
  by (auto simp: matrix_createfromdata_def mat_ok_def shape_def less_2_cases_iff)

text \<open>The coefficient of variation the adaptive bin packing objective compares is defined for any
  covariance matrix and mean of matching size, without an access out of bounds, and is not negative
  when the means are not.\<close>

theorem coefficient_variation_nonneg:
  assumes "mat_ok sigma" "arr_ok mu" "\<forall>v\<in>set (a_x mu). 0 \<le> v"
  shows "\<exists>c. matrix_coefficient_variation_from_stats sigma mu ALBERT_ZHANG = Some c \<and> 0 \<le> c"
proof (cases "\<not> matrix_issquare sigma \<or> nrows sigma \<noteq> a_size mu \<or> a_size mu = 0")
  case True
  then show ?thesis
    by (auto simp: matrix_coefficient_variation_from_stats_def Let_def matrix_getnumrows_def array_getlength_def)
next
  case False
  show ?thesis
  proof (cases "a_size mu = 1")
    case True
    have "shape 1 1 (m_x sigma)" using False True mat_okD(1) [OF assms(1)] by (simp add: matrix_issquare_def)
    moreover have "a_x mu ! 0 \<ge> 0" "length (a_x mu) = 1" using assms(2,3) True by (auto simp: arr_ok_def)
    ultimately show ?thesis using False True
      by (auto simp: matrix_coefficient_variation_from_stats_def Let_def matrix_getnumrows_def array_getlength_def
          matrix_getelement_def array_getelement_def rdi_def matrix_issquare_def)
  next
    case F: False
    then show ?thesis using False albert_zhang_nonneg [OF assms(1,2)]
      by (simp add: matrix_coefficient_variation_from_stats_def Let_def matrix_getnumrows_def array_getlength_def)
  qed
qed

theorem coefficient_variation_nonneg_witness:
  "\<exists>c. matrix_coefficient_variation_from_stats (matrix_create_square 2) (array_create 2) ALBERT_ZHANG = Some c \<and> 0 \<le> c"
  by (rule coefficient_variation_nonneg) (simp_all add: matrix_create_square_def)

end
