(* ===== verification/Demandstats.thy ===== *)
theory Demandstats
  imports Matrix Resource
begin

section \<open>Demand statistics (stats/demandstats.c)\<close>

text \<open>
  An exponentially smoothed mean of the demand vector and of its products, one sample per LE. The
  two branches of \<open>demandstats_add\<close> (first sample, later sample) run the same loop with different
  right-hand sides; the loop is \<open>stats_loop\<close>, its right-hand sides are arguments. The theory shows
  that adding a sample never leaves the bounds of the arrays while LEs keep their number of demands,
  keeps the matrix of products symmetric, and that the sample count is capped by the smoothing
  factor.
\<close>

record demandstats =
  smoothingfactor :: real
  demandavg :: "array option"
  demandavg2 :: "matrix option"
  demandcount :: nat

definition DEMAND_STATS_SMOOTHING_FACTOR :: real where
  "DEMAND_STATS_SMOOTHING_FACTOR = sgl (1 / 100)"

definition demandstats_create :: "real \<Rightarrow> demandstats" where
  "demandstats_create f =
     \<lparr>smoothingfactor = (if f > 0 then f else DEMAND_STATS_SMOOTHING_FACTOR),
      demandavg = None, demandavg2 = None, demandcount = 0\<rparr>"

definition countmax :: "demandstats \<Rightarrow> int" where
  "countmax ds = (let c = \<lfloor>fdiv 1 (smoothingfactor ds)\<rfloor> in if c \<le> 0 then 1 else c)"

definition stats_loop :: "(real \<Rightarrow> int \<Rightarrow> real) \<Rightarrow> (real \<Rightarrow> int \<Rightarrow> int \<Rightarrow> real) \<Rightarrow> int list \<Rightarrow> nat \<Rightarrow>
    real list \<times> real list list \<Rightarrow> (real list \<times> real list list) option" where
  "stats_loop upd upd2 di nres =
     for_each (\<lambda>j (avg, avg2).
       do { a \<leftarrow> rd avg j; d \<leftarrow> rd di j; avg \<leftarrow> wr avg j (upd a d);
            b \<leftarrow> rd2 avg2 j j; avg2 \<leftarrow> wr2 avg2 j j (upd2 b d d);
            avg2 \<leftarrow> for_each (\<lambda>k avg2.
              do { b \<leftarrow> rd2 avg2 k j; dk \<leftarrow> rd di k; avg2 \<leftarrow> wr2 avg2 k j (upd2 b dk d);
                   w \<leftarrow> rd2 avg2 k j; wr2 avg2 j k w }) [0..<j] avg2;
            Some (avg, avg2) }) [0..<nres]"

definition demandstats_add :: "demandstats \<Rightarrow> le \<Rightarrow> demandstats option" where
  "demandstats_add ds e =
     (let nres = le_getnumdemand e;
          nostats = (demandavg ds = None \<or> demandavg2 ds = None);
          ds = (if nostats then ds\<lparr>demandavg := Some (array_create nres), demandavg2 := Some (matrix_create_square nres)\<rparr> else ds);
          di = le_getdemand e;
          ds = (if int (demandcount ds) < countmax ds then ds\<lparr>demandcount := demandcount ds + 1\<rparr> else ds)
      in do { aa \<leftarrow> demandavg ds; am \<leftarrow> demandavg2 ds;
              let factor = fdiv 1 (sgl (real (demandcount ds)));
              old \<leftarrow> for_each (\<lambda>j old. do { a \<leftarrow> rd (array_getdata aa) j; wr old j a }) [0..<nres] (replicate nres 0);
              (avg, avg2) \<leftarrow>
                (if nostats
                 then stats_loop (\<lambda>_ d. sgl (of_int d)) (\<lambda>_ dk dj. sgl (of_int (s32 (dk * dj)))) di nres
                        (array_getdata aa, matrix_getdata am)
                 else stats_loop (\<lambda>a d. fadd (fmul (fsub 1 factor) a) (fmul factor (sgl (of_int d))))
                        (\<lambda>b dk dj. fadd (fmul (fsub 1 factor) b) (fmul (fmul factor (sgl (of_int dk))) (sgl (of_int dj)))) di nres
                        (array_getdata aa, matrix_getdata am));
              Some (ds\<lparr>demandavg := Some (aa\<lparr>a_x := avg\<rparr>), demandavg2 := Some (am\<lparr>m_x := avg2\<rparr>)\<rparr>) })"

definition demandstats_getavg :: "demandstats \<Rightarrow> array option" where
  "demandstats_getavg ds = demandavg ds"

definition demandstats_getavg2 :: "demandstats \<Rightarrow> matrix option" where
  "demandstats_getavg2 ds = demandavg2 ds"

subsection \<open>Invariant\<close>

definition symmetric :: "nat \<Rightarrow> real list list \<Rightarrow> bool" where
  "symmetric n x \<longleftrightarrow> (\<forall>i<n. \<forall>j<n. x ! i ! j = x ! j ! i)"

definition stats_ok :: "nat \<Rightarrow> demandstats \<Rightarrow> bool" where
  "stats_ok n ds \<longleftrightarrow> int (demandcount ds) \<le> countmax ds \<and>
     (case (demandavg ds, demandavg2 ds) of
        (Some a, Some m) \<Rightarrow> arr_ok a \<and> a_size a = n \<and> mat_ok m \<and> nrows m = n \<and> ncols m = n \<and> symmetric n (m_x m)
      | _ \<Rightarrow> True)"

lemma symmetric_diag: "shape n n x \<Longrightarrow> symmetric n x \<Longrightarrow> j < n \<Longrightarrow> symmetric n (x[j := (x ! j)[j := v]])"
  by (simp add: symmetric_def nth_upd)

lemma symmetric_pair:
  assumes "shape n n x" "symmetric n x" "j < n" "k < n"
  shows "symmetric n (x[k := (x ! k)[j := v], j := (x[k := (x ! k)[j := v]] ! j)[k := v]])"
proof -
  define y where "y = x[k := (x ! k)[j := v]]"
  have y: "shape n n y" unfolding y_def using assms(1) by (rule shape_upd)
  have "y[j := (y ! j)[k := v]] ! a ! b = y[j := (y ! j)[k := v]] ! b ! a" if ab: "a < n" "b < n" for a b
  proof -
    have sym: "x ! a ! b = x ! b ! a" using assms(2) ab by (simp add: symmetric_def)
    have n: "y ! c ! d = (if c = k \<and> d = j then v else x ! c ! d)" if "c < n" "d < n" for c d
      unfolding y_def by (rule nth_upd [OF assms(1,4,3) that])
    show ?thesis
      unfolding nth_upd [OF y assms(3,4) ab] nth_upd [OF y assms(3,4) ab(2,1)] n [OF ab] n [OF ab(2,1)]
      using sym by argo
  qed
  then show ?thesis unfolding y_def [symmetric] by (simp add: symmetric_def)
qed

lemma stats_inner:
  assumes x: "shape n n x" "symmetric n x" and j: "j < n" and di: "n \<le> length di"
  shows "\<exists>y. for_each (\<lambda>k avg2. do { b \<leftarrow> rd2 avg2 k j; dk \<leftarrow> rd di k; avg2 \<leftarrow> wr2 avg2 k j (upd2 b dk d);
      w \<leftarrow> rd2 avg2 k j; wr2 avg2 j k w }) [0..<j] x = Some y \<and> shape n n y \<and> symmetric n y"
proof (rule for_each_upt_total [where P = "\<lambda>k y. shape n n y \<and> symmetric n y"])
  fix k y assume k: "k < j" and y: "shape n n y \<and> symmetric n y"
  have kn: "k < n" using k j by simp
  note s = conjunct1 [OF y]
  let ?v = "upd2 (y ! k ! j) (di ! k) d"
  define z where "z = y[k := (y ! k)[j := ?v]]"
  have z: "shape n n z" unfolding z_def using s by (rule shape_upd)
  have "wr2 y k j ?v = Some z" unfolding z_def by (rule wr2_Some [OF s kn j])
  moreover have "rd2 z k j = Some ?v"
    using rd2_Some [OF z kn j] nth_upd [OF s kn j kn j, of ?v] by (simp add: z_def)
  moreover have "wr2 z j k ?v = Some (z[j := (z ! j)[k := ?v]])" by (rule wr2_Some [OF z j kn])
  ultimately have "do { b \<leftarrow> rd2 y k j; dk \<leftarrow> rd di k; avg2 \<leftarrow> wr2 y k j (upd2 b dk d); w \<leftarrow> rd2 avg2 k j; wr2 avg2 j k w }
      = Some (z[j := (z ! j)[k := ?v]])"
    using rd2_Some [OF s kn j] di kn by simp
  moreover have "shape n n (z[j := (z ! j)[k := ?v]])" using z by (rule shape_upd)
  moreover have "symmetric n (z[j := (z ! j)[k := ?v]])"
    unfolding z_def using y j kn by (intro symmetric_pair) auto
  ultimately show "\<exists>z. do { b \<leftarrow> rd2 y k j; dk \<leftarrow> rd di k; avg2 \<leftarrow> wr2 y k j (upd2 b dk d); w \<leftarrow> rd2 avg2 k j; wr2 avg2 j k w }
      = Some z \<and> shape n n z \<and> symmetric n z" by blast
qed (use x in simp)

lemma stats_loop_ok:
  assumes "length avg = n" "shape n n x" "symmetric n x" "n \<le> length di"
  shows "\<exists>avg' y. stats_loop upd upd2 di n (avg, x) = Some (avg', y) \<and>
    avg' = map (\<lambda>j. upd (avg ! j) (di ! j)) [0..<n] \<and> shape n n y \<and> symmetric n y"
proof -
  let ?P = "\<lambda>j (a, y). length a = n \<and> (\<forall>i<n. a ! i = (if i < j then upd (avg ! i) (di ! i) else avg ! i)) \<and>
    shape n n y \<and> symmetric n y"
  have "\<exists>s. stats_loop upd upd2 di n (avg, x) = Some s \<and> ?P n s"
    unfolding stats_loop_def
  proof (rule for_each_upt_total [where P = ?P])
    show "?P 0 (avg, x)" using assms by simp
    fix j s assume j: "j < n" and P: "?P j s"
    obtain a y where s: "s = (a, y)" by force
    with P have a: "length a = n" "\<forall>i<n. a ! i = (if i < j then upd (avg ! i) (di ! i) else avg ! i)"
      and y: "shape n n y" "symmetric n y" by auto
    let ?y1 = "y[j := (y ! j)[j := upd2 (y ! j ! j) (di ! j) (di ! j)]]"
    have y1: "shape n n ?y1" "symmetric n ?y1"
      by (rule shape_upd [OF y(1)], rule symmetric_diag [OF y j])
    obtain z where z: "for_each (\<lambda>k avg2. do { b \<leftarrow> rd2 avg2 k j; dk \<leftarrow> rd di k; avg2 \<leftarrow> wr2 avg2 k j (upd2 b dk (di ! j));
        w \<leftarrow> rd2 avg2 k j; wr2 avg2 j k w }) [0..<j] ?y1 = Some z" "shape n n z" "symmetric n z"
      using stats_inner [OF y1 j assms(4), of upd2 "di ! j"] by (elim exE conjE) (rule that)
    show "\<exists>s'. (case s of (avg, avg2) \<Rightarrow>
        do { a \<leftarrow> rd avg j; d \<leftarrow> rd di j; avg \<leftarrow> wr avg j (upd a d);
            b \<leftarrow> rd2 avg2 j j; avg2 \<leftarrow> wr2 avg2 j j (upd2 b d d);
            avg2 \<leftarrow> for_each (\<lambda>k avg2.
              do { b \<leftarrow> rd2 avg2 k j; dk \<leftarrow> rd di k; avg2 \<leftarrow> wr2 avg2 k j (upd2 b dk d);
                   w \<leftarrow> rd2 avg2 k j; wr2 avg2 j k w }) [0..<j] avg2;
            Some (avg, avg2) }) = Some s' \<and> ?P (Suc j) s'"
      using a y j z assms(4) by (simp add: s rd2_Some [OF y(1)] wr2_Some [OF y(1)]) (auto simp: nth_list_update less_Suc_eq)
  qed
  then obtain a y where ay: "stats_loop upd upd2 di n (avg, x) = Some (a, y)" "?P n (a, y)" by force
  moreover have "a = map (\<lambda>j. upd (avg ! j) (di ! j)) [0..<n]"
    using ay(2) by (auto simp: list_eq_iff_nth_eq)
  ultimately show ?thesis by auto
qed

lemma stats_loop_arrays:
  assumes "arr_ok a" "a_size a = n" "mat_ok m" "nrows m = n" "ncols m = n" "symmetric n (m_x m)" "n \<le> length di"
  shows "\<exists>y. stats_loop upd upd2 di n (a_x a, m_x m) = Some (map (\<lambda>j. upd (a_x a ! j) (di ! j)) [0..<n], y) \<and>
    shape n n y \<and> symmetric n y"
  using stats_loop_ok [of "a_x a" n "m_x m" di upd upd2] assms by (auto simp: arr_ok_def mat_ok_def)

lemma old_loop:
  "n \<le> length x \<Longrightarrow> for_each (\<lambda>j old. do { a \<leftarrow> rd x j; wr old j a }) [0..<n] (replicate n (0::real)) = Some (take n x)"
  by (subst for_each_update [where g = "\<lambda>i _. x ! i"]) (auto simp: list_eq_iff_nth_eq)

lemma zero_symmetric: "symmetric n (m_x (matrix_create_square n))"
  by (auto simp: symmetric_def matrix_create_square_def matrix_create_def matrix_createfromdata_def)

lemma countmax_upd [simp]:
  "countmax (ds\<lparr>demandavg := a\<rparr>) = countmax ds" "countmax (ds\<lparr>demandavg2 := m\<rparr>) = countmax ds"
  "countmax (ds\<lparr>demandcount := c\<rparr>) = countmax ds"
  by (simp_all add: countmax_def)

lemma add_step:
  assumes "stats_ok n ds" "le_getnumdemand e = n" "n \<le> length (demand e)"
  shows "\<exists>ds'. demandstats_add ds e = Some ds' \<and> stats_ok n ds' \<and>
    int (demandcount ds') = min (int (demandcount ds) + 1) (countmax ds)"
proof -
  have cap: "int (demandcount ds) \<le> countmax ds" using assms(1) by (simp add: stats_ok_def)
  let ?count = "if int (demandcount ds) < countmax ds then demandcount ds + 1 else demandcount ds"
  have count: "int ?count = min (int (demandcount ds) + 1) (countmax ds)" using cap by auto
  have sq: "nrows (matrix_create_square n) = n" "ncols (matrix_create_square n) = n" "mat_ok (matrix_create_square n)"
    using create_shape [of n n] by (simp_all add: matrix_create_square_def)
  obtain a m nostats where am: "nostats = (demandavg ds = None \<or> demandavg2 ds = None)"
    "(if nostats then (Some (array_create n), Some (matrix_create_square n)) else (demandavg ds, demandavg2 ds)) = (Some a, Some m)"
    "arr_ok a" "a_size a = n" "mat_ok m" "nrows m = n" "ncols m = n" "symmetric n (m_x m)"
  proof (cases "demandavg ds = None \<or> demandavg2 ds = None")
    case True
    then show ?thesis using that [of True "array_create n" "matrix_create_square n"] sq zero_symmetric by simp
  next
    case False
    then obtain a m where "demandavg ds = Some a" "demandavg2 ds = Some m" by auto
    then show ?thesis using that [of False a m] assms(1) by (simp add: stats_ok_def)
  qed
  have old: "n \<le> length (a_x a)" using am(3,4) by (simp add: arr_ok_def)
  note loop = stats_loop_arrays [OF am(3-8), of "demand e"]
  let ?ds1 = "ds\<lparr>demandcount := ?count\<rparr>"
  have "\<exists>avg y. demandstats_add ds e = Some (?ds1\<lparr>demandavg := Some (a\<lparr>a_x := avg\<rparr>), demandavg2 := Some (m\<lparr>m_x := y\<rparr>)\<rparr>) \<and>
      length avg = n \<and> shape n n y \<and> symmetric n y"
  proof (cases nostats)
    case True
    then obtain y where "stats_loop (\<lambda>_ d. sgl (of_int d)) (\<lambda>_ dk dj. sgl (of_int (s32 (dk * dj)))) (demand e) n (a_x a, m_x m)
        = Some (map (\<lambda>j. sgl (of_int (demand e ! j))) [0..<n], y)" "shape n n y" "symmetric n y"
      using loop [of "\<lambda>_ d. sgl (of_int d)"] assms(3) by blast
    then show ?thesis using True am(1,2) old assms(2)
      by (intro exI [of _ "map (\<lambda>j. sgl (of_int (demand e ! j))) [0..<n]"] exI [of _ y])
        (auto simp: demandstats_add_def Let_def array_getdata_def matrix_getdata_def le_getdemand_def old_loop)
  next
    case False
    let ?f = "fdiv 1 (sgl (real ?count))"
    let ?u = "\<lambda>a d. fadd (fmul (fsub 1 ?f) a) (fmul ?f (sgl (of_int d)))"
    let ?u2 = "\<lambda>b dk dj. fadd (fmul (fsub 1 ?f) b) (fmul (fmul ?f (sgl (of_int dk))) (sgl (of_int dj)))"
    obtain y where "stats_loop ?u ?u2 (demand e) n (a_x a, m_x m)
        = Some (map (\<lambda>j. ?u (a_x a ! j) (demand e ! j)) [0..<n], y)" "shape n n y" "symmetric n y"
      using loop [of ?u ?u2] assms(3) by blast
    then show ?thesis using False am(1,2) old assms(2)
      by (intro exI [of _ "map (\<lambda>j. ?u (a_x a ! j) (demand e ! j)) [0..<n]"] exI [of _ y])
        (auto simp: demandstats_add_def Let_def array_getdata_def matrix_getdata_def le_getdemand_def old_loop)
  qed
  then obtain avg y where "demandstats_add ds e = Some (?ds1\<lparr>demandavg := Some (a\<lparr>a_x := avg\<rparr>), demandavg2 := Some (m\<lparr>m_x := y\<rparr>)\<rparr>)"
    "length avg = n" "shape n n y" "symmetric n y" by blast
  then show ?thesis using am count by (auto simp: stats_ok_def arr_ok_def mat_ok_def)
qed

subsection \<open>Properties of the demand statistics\<close>

text \<open>C34: \<open>demandstats_add\<close> succeeds for every LE with the number of demands the statistics were
  created with, and keeps its invariant: the arrays keep their size, the matrix of products stays
  symmetric, and the sample count grows by one up to the cap given by the smoothing factor.\<close>

theorem demandstats_add_invariant:
  assumes "stats_ok n ds" "le_getnumdemand e = n" "n \<le> length (demand e)"
  shows "\<exists>ds'. demandstats_add ds e = Some ds' \<and> stats_ok n ds' \<and>
    int (demandcount ds') = min (int (demandcount ds) + 1) (countmax ds)"
  using add_step [OF assms] .

theorem demandstats_add_invariant_witness:
  "\<exists>ds'. demandstats_add (demandstats_create 0) sample_le = Some ds' \<and> stats_ok 2 ds' \<and>
    int (demandcount ds') = min (int (demandcount (demandstats_create 0)) + 1) (countmax (demandstats_create 0))"
proof (rule demandstats_add_invariant)
  show "stats_ok 2 (demandstats_create 0)"
    by (simp add: stats_ok_def demandstats_create_def countmax_def Let_def)
qed (simp_all add: sample_le_def le_getnumdemand_def)

text \<open>The first sample initialises the mean: it becomes the demand vector itself, converted to
  \<open>float\<close>, for every demand vector.\<close>

theorem demandstats_first_sample:
  assumes "le_getnumdemand e = n" "n \<le> length (demand e)"
  shows "\<exists>ds' a. demandstats_add (demandstats_create f) e = Some ds' \<and> demandstats_getavg ds' = Some a \<and>
    a_size a = n \<and> a_x a = map (\<lambda>j. sgl (of_int (demand e ! j))) [0..<n]"
proof -
  have sq: "nrows (matrix_create_square n) = n" "ncols (matrix_create_square n) = n" "mat_ok (matrix_create_square n)"
    using create_shape [of n n] by (simp_all add: matrix_create_square_def)
  obtain y where "stats_loop (\<lambda>_ d. sgl (of_int d)) (\<lambda>_ dk dj. sgl (of_int (s32 (dk * dj)))) (demand e) n
      (a_x (array_create n), m_x (matrix_create_square n)) = Some (map (\<lambda>j. sgl (of_int (demand e ! j))) [0..<n], y)"
    using stats_loop_arrays [of "array_create n" n "matrix_create_square n" "demand e" "\<lambda>_ d. sgl (of_int d)"
        "\<lambda>_ dk dj. sgl (of_int (s32 (dk * dj)))"] sq zero_symmetric assms(2) by auto
  then show ?thesis using assms(1)
    by (auto simp: demandstats_add_def demandstats_create_def Let_def array_getdata_def matrix_getdata_def
        le_getdemand_def old_loop demandstats_getavg_def)
qed

theorem demandstats_first_sample_witness:
  "\<exists>ds' a. demandstats_add (demandstats_create 0) sample_le = Some ds' \<and> demandstats_getavg ds' = Some a \<and>
    a_size a = 2 \<and> a_x a = map (\<lambda>j. sgl (of_int (demand sample_le ! j))) [0..<2]"
  by (rule demandstats_first_sample) (simp_all add: sample_le_def le_getnumdemand_def)

end
