(* ===== verification/Cloudsystem.thy ===== *)
theory Cloudsystem
  imports Entities Hashset Demandstats
begin

section \<open>The cloud system (system/cloudsystem.c)\<close>

text \<open>
  The cloud system keeps its PEs in a vector and, under their names, in a hash map. Adding a PE
  updates both; removing one clears it, deletes it from both and leaves a tombstone in the map;
  \<open>cloudsystem_resetpes\<close> rebuilds the map and renumbers the PEs. The fields \<open>orderedutil\<close> and
  \<open>orderedcount\<close> belong to the report \<open>cloudsystem_printutilizationmatrix\<close>, which theory \<open>Reports\<close> holds
  with the other printing routines.

  The invariant \<open>sys_ok\<close> says that map and vector agree. The theory shows that every operation
  keeps it, what it does to the list of PEs and to the hosting of LEs, and that the average
  utilisations are fractions.
\<close>

record cloudsystem =
  pes :: "nat vector option"
  pemap :: "nat hashmap"
  ds :: "demandstats option"
  orderedutil :: "matrix option"
  orderedcount :: int
  ismodified :: bool

definition cloudsystem_resetpes :: "mem \<Rightarrow> cloudsystem \<Rightarrow> (mem \<times> cloudsystem) option" where
  "cloudsystem_resetpes m cs =
     (if \<not> ismodified cs then Some (m, cs)
      else do {
        let cs = cs\<lparr>ismodified := False\<rparr>;
        (h, r) \<leftarrow> hashmap_create 0 (h_rng m);
        let m = m\<lparr>h_rng := r\<rparr>;
        (case pes cs of
           Some v \<Rightarrow> do {
             (h', m') \<leftarrow> for_each (\<lambda>i (h, m).
                do { p \<leftarrow> vector_get v (int i); P \<leftarrow> h_pe m p;
                     (h', r) \<leftarrow> hashmap_insert h (Some p) (pe_getname P) (h_rng m);
                     m' \<leftarrow> pe_setindexinsystem (m\<lparr>h_rng := r\<rparr>) p (int i);
                     Some (h', m') }) [0..<vector_getsize v] (h, m);
             Some (m', cs\<lparr>pemap := h'\<rparr>) }
         | None \<Rightarrow> Some (m, cs\<lparr>pemap := h, pes := Some vector_create\<rparr>)) })"

definition cloudsystem_create :: "mem \<Rightarrow> nat vector option \<Rightarrow> (mem \<times> cloudsystem) option" where
  "cloudsystem_create m v =
     do { (h, r) \<leftarrow> hashmap_create 0 (h_rng m);
          cloudsystem_resetpes (m\<lparr>h_rng := r\<rparr>) \<lparr>pes = v, pemap = h, ds = None,
            orderedutil = None, orderedcount = 0, ismodified = True\<rparr> }"

definition cloudsystem_destroy :: "mem \<Rightarrow> cloudsystem \<Rightarrow> mem option" where
  "cloudsystem_destroy m cs =
     (case pes cs of None \<Rightarrow> Some m
      | Some v \<Rightarrow> for_each (\<lambda>i m. pe_destroy m (vector_get v (int i))) [0..<vector_getsize v] m)"

definition cloudsystem_getnumPEs :: "cloudsystem \<Rightarrow> nat" where
  "cloudsystem_getnumPEs cs = (case pes cs of Some v \<Rightarrow> vector_getsize v | None \<Rightarrow> 0)"

definition cloudsystem_getPEs :: "cloudsystem \<Rightarrow> nat vector option" where
  "cloudsystem_getPEs cs = pes cs"

definition cloudsystem_getPE :: "cloudsystem \<Rightarrow> string \<Rightarrow> nat option" where
  "cloudsystem_getPE cs peid = hashmap_get (pemap cs) peid"

definition cloudsystem_getPE_byindex :: "cloudsystem \<Rightarrow> int \<Rightarrow> nat option option" where
  "cloudsystem_getPE_byindex cs i = do { v \<leftarrow> pes cs; Some (vector_get v i) }"

definition cloudsystem_getPEname_byindex :: "mem \<Rightarrow> cloudsystem \<Rightarrow> int \<Rightarrow> string option option" where
  "cloudsystem_getPEname_byindex m cs i =
     do { p \<leftarrow> cloudsystem_getPE_byindex cs i;
          (case p of None \<Rightarrow> Some None | Some a \<Rightarrow> do { P \<leftarrow> h_pe m a; Some (Some (pe_getname P)) }) }"

definition cloudsystem_addPE :: "mem \<Rightarrow> cloudsystem \<Rightarrow> nat option \<Rightarrow> (mem \<times> cloudsystem) option" where
  "cloudsystem_addPE m cs p =
     (case p of None \<Rightarrow> Some (m, cs)
      | Some a \<Rightarrow> do {
          P \<leftarrow> h_pe m a;
          if cloudsystem_getPE cs (pe_getname P) \<noteq> None then Some (m, cs)
          else do {
            (h, r) \<leftarrow> hashmap_insert (pemap cs) (Some a) (pe_getname P) (h_rng m);
            let v = (case pes cs of Some v \<Rightarrow> v | None \<Rightarrow> vector_create);
            Some (m\<lparr>h_rng := r\<rparr>, cs\<lparr>pemap := h, pes := Some (vector_append v (Some a)), ismodified := True\<rparr>) } })"

definition cloudsystem_remove_PE :: "mem \<Rightarrow> cloudsystem \<Rightarrow> string \<Rightarrow> (nat option \<times> mem \<times> cloudsystem) option" where
  "cloudsystem_remove_PE m cs peid =
     (case hashmap_get (pemap cs) peid of
        None \<Rightarrow> Some (None, m, cs)
      | Some a \<Rightarrow> do {
          m' \<leftarrow> pe_clear m a True;
          let h = snd (hashmap_remove (pemap cs) peid);
          v \<leftarrow> pes cs;
          Some (Some a, m', cs\<lparr>pemap := h, pes := Some (snd (vector_delete v (Some a))), ismodified := True\<rparr>) })"

definition cloudsystem_updatePE :: "mem \<Rightarrow> cloudsystem \<Rightarrow> string \<Rightarrow> int list option \<Rightarrow> int list option \<Rightarrow> mem option" where
  "cloudsystem_updatePE m cs peid cap use =
     (case cloudsystem_getPE cs peid of None \<Rightarrow> Some m | Some a \<Rightarrow> pe_update m a cap use)"

definition cloudsystem_getdemandstats :: "cloudsystem \<Rightarrow> demandstats option" where
  "cloudsystem_getdemandstats cs = ds cs"

definition cloudsystem_setdemandstats :: "cloudsystem \<Rightarrow> demandstats option \<Rightarrow> cloudsystem" where
  "cloudsystem_setdemandstats cs d = cs\<lparr>ds := d\<rparr>"

definition cloudsystem_getnumresources :: "mem \<Rightarrow> cloudsystem \<Rightarrow> nat option" where
  "cloudsystem_getnumresources m cs =
     (if cloudsystem_getnumPEs cs = 0 then Some 0
      else do { v \<leftarrow> pes cs;
                (case vector_get v 0 of None \<Rightarrow> Some 0
                 | Some a \<Rightarrow> do { P \<leftarrow> h_pe m a;
                     Some (case pe_getresource P of None \<Rightarrow> 0 | Some r \<Rightarrow> resource_getnum r) }) })"

text \<open>The resource of the PE at position \<open>i\<close>; a null entry of the vector is dereferenced.\<close>

definition resource_at :: "mem \<Rightarrow> cloudsystem \<Rightarrow> nat \<Rightarrow> resource option option" where
  "resource_at m cs i = do { v \<leftarrow> pes cs; a \<leftarrow> vector_get v (int i); P \<leftarrow> h_pe m a; Some (pe_getresource P) }"

definition cloudsystem_getutilization :: "mem \<Rightarrow> cloudsystem \<Rightarrow> real list option option" where
  "cloudsystem_getutilization m cs =
     do { numres \<leftarrow> cloudsystem_getnumresources m cs;
          if numres = 0 then Some None
          else do {
            let numpes = cloudsystem_getnumPEs cs;
            avgutil \<leftarrow> for_each (\<lambda>i avgutil.
               do { r \<leftarrow> resource_at m cs i;
                    (case r of None \<Rightarrow> Some avgutil
                     | Some R \<Rightarrow> do { u \<leftarrow> resource_getutilization R; mathhelper_addarray avgutil u numres }) })
               [0..<numpes] (replicate numres 0);
            avgutil \<leftarrow> mathhelper_scalearray avgutil numres (fdiv 1 (sgl (real numpes)));
            Some (Some avgutil) } }"

definition cloudsystem_getutilizationstdev :: "mem \<Rightarrow> cloudsystem \<Rightarrow> real list option option" where
  "cloudsystem_getutilizationstdev m cs =
     do { numres \<leftarrow> cloudsystem_getnumresources m cs;
          if numres = 0 then Some None
          else do {
            let numpes = cloudsystem_getnumPEs cs;
            u \<leftarrow> for_each (\<lambda>i u.
               do { r \<leftarrow> resource_at m cs i;
                    (case r of None \<Rightarrow> Some u
                     | Some R \<Rightarrow> do { util \<leftarrow> resource_getutilization R;
                         for_each (\<lambda>k u. do { x \<leftarrow> rd util k; wr2 u k i x }) [0..<numres] u }) })
               [0..<numpes] (replicate numres (replicate numpes 0));
            stdev \<leftarrow> for_each (\<lambda>k sd. do { row \<leftarrow> rd u k; s \<leftarrow> mathhelper_stddev row numpes; wr sd k (sgl s) })
               [0..<numres] (replicate numres 0);
            Some (Some stdev) } }"

definition cloudsystem_getaveragecapacity :: "mem \<Rightarrow> cloudsystem \<Rightarrow> real list option option" where
  "cloudsystem_getaveragecapacity m cs =
     do { numres \<leftarrow> cloudsystem_getnumresources m cs;
          if numres = 0 then Some None
          else do {
            (avgcap, count) \<leftarrow> for_each (\<lambda>i (avgcap, count).
               do { r \<leftarrow> resource_at m cs i;
                    (case r of None \<Rightarrow> Some (avgcap, count)
                     | Some R \<Rightarrow> for_each (\<lambda>j (avgcap, count).
                         do { c \<leftarrow> rd (resource_getcapacity R) j;
                              if c > 0
                              then do { a \<leftarrow> rd avgcap j; avgcap \<leftarrow> wr avgcap j (fadd a (sgl (of_int c)));
                                        n \<leftarrow> rd count j; count \<leftarrow> wr count j (n + 1); Some (avgcap, count) }
                              else Some (avgcap, count) }) [0..<numres] (avgcap, count)) })
               [0..<cloudsystem_getnumPEs cs] (replicate numres 0, replicate numres (0::int));
            avgcap \<leftarrow> for_each (\<lambda>j avgcap.
               do { n \<leftarrow> rd count j;
                    if n > 0 then do { a \<leftarrow> rd avgcap j; wr avgcap j (fdiv a (sgl (of_int n))) } else Some avgcap })
               [0..<numres] avgcap;
            Some (Some avgcap) } }"

subsection \<open>Invariant\<close>

definition cs_pes :: "cloudsystem \<Rightarrow> nat list" where
  "cs_pes cs = (case pes cs of Some v \<Rightarrow> map the (vec_list v) | None \<Rightarrow> [])"

definition pe_name :: "mem \<Rightarrow> nat \<Rightarrow> string" where
  "pe_name m p = pe_label (the (h_pe m p))"

definition name_map :: "mem \<Rightarrow> nat list \<Rightarrow> string \<rightharpoonup> nat" where
  "name_map m ps = map_of (map (\<lambda>p. (pe_name m p, p)) ps)"

text \<open>The PEs of the system are distinct, have distinct names, and the map finds each of them under
  its name and nothing else.\<close>

definition pes_ok :: "mem \<Rightarrow> nat list \<Rightarrow> bool" where
  "pes_ok m ps \<longleftrightarrow> distinct (map (pe_name m) ps) \<and> (\<forall>p\<in>set ps. h_pe m p \<noteq> None)"

definition sys_ok :: "mem \<Rightarrow> cloudsystem \<Rightarrow> bool" where
  "sys_ok m cs \<longleftrightarrow> heap_ok m \<and> (\<exists>v. pes cs = Some v \<and> vec_ok v \<and> None \<notin> set (vec_list v)) \<and>
     pes_ok m (cs_pes cs) \<and> hm_ok (pemap cs) \<and> hm_map (pemap cs) = name_map m (cs_pes cs)"

lemma sys_okD:
  assumes "sys_ok m cs"
  shows "heap_ok m" "\<exists>v. pes cs = Some v \<and> vec_ok v \<and> None \<notin> set (vec_list v)"
    "distinct (map (pe_name m) (cs_pes cs))" "distinct (cs_pes cs)" "p \<in> set (cs_pes cs) \<Longrightarrow> \<exists>P. h_pe m p = Some P"
    "hm_ok (pemap cs)" "hm_map (pemap cs) = name_map m (cs_pes cs)"
  using assms by (auto simp: sys_ok_def pes_ok_def simp: distinct_map)

lemma name_map_Some_iff:
  "distinct (map (pe_name m) ps) \<Longrightarrow> name_map m ps k = Some p \<longleftrightarrow> p \<in> set ps \<and> pe_name m p = k"
  by (auto simp: name_map_def map_of_eq_Some_iff comp_def)

lemma name_map_None_iff: "name_map m ps k = None \<longleftrightarrow> (\<forall>p\<in>set ps. pe_name m p \<noteq> k)"
  by (auto simp: name_map_def map_of_eq_None_iff image_image)

lemma name_map_snoc:
  "pe_name m p \<notin> pe_name m ` set ps \<Longrightarrow> name_map m (ps @ [p]) = (name_map m ps)(pe_name m p \<mapsto> p)"
proof -
  assume new: "pe_name m p \<notin> pe_name m ` set ps"
  then have "name_map m ps (pe_name m p) = None" unfolding name_map_None_iff by (metis imageI)
  then show ?thesis by (auto simp: name_map_def map_add_def fun_eq_iff split: option.split)
qed

lemma name_map_remove:
  assumes "distinct (map (pe_name m) ps)" "p \<in> set ps"
  shows "name_map m (remove1 p ps) = (name_map m ps)(pe_name m p := None)"
proof (rule map_eqI)
  fix k q
  have d: "distinct ps" using assms(1) by (simp add: distinct_map)
  then have "distinct (map (pe_name m) (remove1 p ps))"
    using assms(1) by (auto simp: distinct_map inj_on_def)
  moreover have "pe_name m q \<noteq> pe_name m p" if "q \<in> set ps" "q \<noteq> p"
    using assms that by (auto simp: distinct_map inj_on_def)
  ultimately show "name_map m (remove1 p ps) k = Some q \<longleftrightarrow> ((name_map m ps)(pe_name m p := None)) k = Some q"
    using d assms(2) by (auto simp: name_map_Some_iff [OF assms(1)] name_map_Some_iff)
qed

lemma getPE_Some_iff:
  "sys_ok m cs \<Longrightarrow> cloudsystem_getPE cs k = Some p \<longleftrightarrow> p \<in> set (cs_pes cs) \<and> pe_name m p = k"
  by (simp add: cloudsystem_getPE_def hm.get_abs sys_okD name_map_Some_iff)

lemma getPE_None_iff:
  "sys_ok m cs \<Longrightarrow> cloudsystem_getPE cs k = None \<longleftrightarrow> (\<forall>p\<in>set (cs_pes cs). pe_name m p \<noteq> k)"
  by (simp add: cloudsystem_getPE_def hm.get_abs sys_okD name_map_None_iff)

lemma cs_pes_Some [simp]: "pes cs = Some v \<Longrightarrow> cs_pes cs = map the (vec_list v)"
  by (simp add: cs_pes_def)

text \<open>A change of the memory that keeps names keeps the invariant.\<close>

definition same_names :: "mem \<Rightarrow> mem \<Rightarrow> bool" where
  "same_names m m' \<longleftrightarrow> (\<forall>p P. h_pe m p = Some P \<longrightarrow> (\<exists>P'. h_pe m' p = Some P' \<and> pe_label P' = pe_label P))"

lemma same_names_pe_name: "same_names m m' \<Longrightarrow> h_pe m p \<noteq> None \<Longrightarrow> pe_name m' p = pe_name m p"
  by (force simp: same_names_def pe_name_def)

lemma same_frame_names: "same_frame m m' \<Longrightarrow> same_names m m'"
  unfolding same_names_def using same_frameD(1) by (force simp: pe_id_def)

lemma same_names_pes:
  assumes "same_names m m'" "pes_ok m ps"
  shows "pes_ok m' ps" "name_map m' ps = name_map m ps"
proof -
  have eq: "map (pe_name m') ps = map (pe_name m) ps" "map (\<lambda>p. (pe_name m' p, p)) ps = map (\<lambda>p. (pe_name m p, p)) ps"
    using assms same_names_pe_name [OF assms(1)] by (simp_all add: pes_ok_def)
  show "name_map m' ps = name_map m ps" unfolding name_map_def eq ..
  have "h_pe m' p \<noteq> None" if "p \<in> set ps" for p
    using assms that by (fastforce simp: pes_ok_def same_names_def)
  then show "pes_ok m' ps" using assms(2) unfolding pes_ok_def eq by blast
qed

lemma sys_ok_mem: "sys_ok m cs \<Longrightarrow> heap_ok m' \<Longrightarrow> same_names m m' \<Longrightarrow> sys_ok m' cs"
  using same_names_pes by (auto simp: sys_ok_def)

subsection \<open>Adding a PE\<close>

lemma addPE_step:
  assumes ok: "sys_ok m cs" and clean: "hm_clean (pemap cs)" "0 < hm_room (pemap cs)"
    and P: "h_pe m a = Some P" and new: "\<forall>p\<in>set (cs_pes cs). pe_name m p \<noteq> pe_label P"
  obtains cs' where "cloudsystem_addPE m cs (Some a) = Some (m, cs')" "sys_ok m cs'" "hm_clean (pemap cs')"
    "hm_room (pemap cs) - 1 \<le> hm_room (pemap cs')" "cs_pes cs' = cs_pes cs @ [a]" "ds cs' = ds cs" "ismodified cs'"
proof -
  obtain v where v: "pes cs = Some v" "vec_ok v" "None \<notin> set (vec_list v)" using sys_okD(2) [OF ok] by blast
  obtain h where h: "hashmap_insert (pemap cs) (Some a) (pe_label P) (h_rng m) = Some (h, h_rng m)" "hm_clean h"
    "hm_map h = (hm_map (pemap cs))(pe_label P \<mapsto> a)" "hm_room (pemap cs) - 1 \<le> hm_room h"
    by (rule hm.ins_returns [OF clean])
  let ?cs = "cs\<lparr>pemap := h, pes := Some (vector_append v (Some a)), ismodified := True\<rparr>"
  have name: "pe_name m a = pe_label P" using P by (simp add: pe_name_def)
  have free: "cloudsystem_getPE cs (pe_label P) = None" unfolding getPE_None_iff [OF ok] by (rule new)
  have list: "cs_pes ?cs = cs_pes cs @ [a]" using v by (simp add: cs_pes_def)
  have "pe_name m a \<notin> pe_name m ` set (cs_pes cs)" using new name by (metis imageE)
  then have "pes_ok m (cs_pes ?cs)" "name_map m (cs_pes ?cs) = (name_map m (cs_pes cs))(pe_label P \<mapsto> a)"
    unfolding list using ok P name name_map_snoc [of m a "cs_pes cs"] by (auto simp: sys_ok_def pes_ok_def)
  then have "sys_ok m ?cs" using ok v h by (auto simp: sys_ok_def hm.clean_imp_ok)
  moreover have "cloudsystem_addPE m cs (Some a) = Some (m, ?cs)"
    using P free h(1) v(1) by (simp add: cloudsystem_addPE_def pe_getname_def)
  ultimately show thesis using that [of ?cs] h(2,4) list by simp
qed

subsection \<open>Removing a PE\<close>

lemma map_the_remove1:
  "None \<notin> set xs \<Longrightarrow> map the (remove1 (Some a) xs) = remove1 a (map the xs)"
  by (induction xs) auto

lemma removePE_step:
  assumes ok: "sys_ok m cs" and a: "cloudsystem_getPE cs k = Some a"
  obtains m' cs' where "cloudsystem_remove_PE m cs k = Some (Some a, m', cs')" "sys_ok m' cs'" "same_frame m m'"
    "cs_pes cs' = remove1 a (cs_pes cs)" "\<And>q f. hosts m' q f \<longleftrightarrow> hosts m q f \<and> q \<noteq> a"
    "\<And>q. q \<noteq> a \<Longrightarrow> h_pe m' q = h_pe m q" "\<And>f. \<not> hosts m a f \<Longrightarrow> h_le m' f = h_le m f"
    "ds cs' = ds cs" "ismodified cs'"
proof -
  obtain v where v: "pes cs = Some v" "vec_ok v" "None \<notin> set (vec_list v)" using sys_okD(2) [OF ok] by blast
  have ak: "a \<in> set (cs_pes cs)" "pe_name m a = k" using a getPE_Some_iff [OF ok] by auto
  obtain P where P: "h_pe m a = Some P" using sys_okD(5) [OF ok ak(1)] by blast
  obtain m' where m': "pe_clear m a True = Some m'" "heap_ok m'" "same_frame m m'"
    "\<And>q f. hosts m' q f \<longleftrightarrow> hosts m q f \<and> q \<noteq> a" "\<And>q. q \<noteq> a \<Longrightarrow> h_pe m' q = h_pe m q"
    "\<And>f. \<not> hosts m a f \<Longrightarrow> h_le m' f = h_le m f"
    using clear_step [OF sys_okD(1) [OF ok] P] by blast
  let ?v = "snd (vector_delete v (Some a))"
  let ?cs = "cs\<lparr>pemap := snd (hashmap_remove (pemap cs) k), pes := Some ?v, ismodified := True\<rparr>"
  have vl: "vec_ok ?v" "vec_list ?v = remove1 (Some a) (vec_list v)" using vec.delete [OF v(2)] by auto
  then have list: "cs_pes ?cs = remove1 a (cs_pes cs)" using v map_the_remove1 by (simp add: cs_pes_def)
  have dist: "distinct (map (pe_name m) (cs_pes cs))" by (rule sys_okD(3) [OF ok])
  have pm: "pes_ok m (remove1 a (cs_pes cs))"
    using ok dist by (auto simp: sys_ok_def pes_ok_def distinct_map inj_on_def dest: notin_set_remove1)
  note names = same_names_pes [OF same_frame_names [OF m'(3)] pm]
  have "hm_map (pemap ?cs) = name_map m' (cs_pes ?cs)"
    using hm.del_sound [OF sys_okD(6) [OF ok], of k] sys_okD(7) [OF ok] name_map_remove [OF dist ak(1)] ak(2)
    by (simp only: list names) simp
  moreover have "hm_ok (pemap ?cs)" using hm.del_sound [OF sys_okD(6) [OF ok], of k] by simp
  moreover have "None \<notin> set (vec_list ?v)" unfolding vl(2) using v(3) notin_set_remove1 by metis
  ultimately have "sys_ok m' ?cs" using m'(2) vl(1) names(1) unfolding sys_ok_def list [symmetric] by simp
  moreover have "cloudsystem_remove_PE m cs k = Some (Some a, m', ?cs)"
    using a m'(1) v(1) by (simp add: cloudsystem_remove_PE_def cloudsystem_getPE_def)
  ultimately show thesis using that [of m' ?cs] m'(3-6) list by simp
qed

lemma removePE_absent:
  "sys_ok m cs \<Longrightarrow> cloudsystem_getPE cs k = None \<Longrightarrow> cloudsystem_remove_PE m cs k = Some (None, m, cs)"
  by (simp add: cloudsystem_remove_PE_def cloudsystem_getPE_def)

subsection \<open>Rebuilding the map\<close>

text \<open>Memories that differ in the indices of PEs only.\<close>

definition same_but_index :: "mem \<Rightarrow> mem \<Rightarrow> bool" where
  "same_but_index m m' \<longleftrightarrow> h_le m' = h_le m \<and> h_next m' = h_next m \<and> h_rng m' = h_rng m \<and>
     (\<forall>p. map_option (\<lambda>P. P\<lparr>indexinsystem := 0\<rparr>) (h_pe m' p) = map_option (\<lambda>P. P\<lparr>indexinsystem := 0\<rparr>) (h_pe m p))"

lemma same_but_index_refl [simp]: "same_but_index m m"
  by (simp add: same_but_index_def)

lemma index_upd_eqD:
  assumes "(P'::pe)\<lparr>indexinsystem := 0\<rparr> = P\<lparr>indexinsystem := 0\<rparr>"
  shows "pe_label P' = pe_label P" "pe_resource P' = pe_resource P" "hostedLE P' = hostedLE P"
proof -
  show "pe_label P' = pe_label P" using arg_cong [OF assms, of pe_label] by simp
  show "pe_resource P' = pe_resource P" using arg_cong [OF assms, of pe_resource] by simp
  show "hostedLE P' = hostedLE P" using arg_cong [OF assms, of hostedLE] by simp
qed

lemma same_but_indexD:
  assumes "same_but_index m m'"
  shows "h_pe m p = Some P \<Longrightarrow> \<exists>P'. h_pe m' p = Some P' \<and> pe_label P' = pe_label P \<and>
      pe_resource P' = pe_resource P \<and> hostedLE P' = hostedLE P"
    "h_le m' = h_le m" "h_next m' = h_next m" "h_rng m' = h_rng m" "hosts m' q f = hosts m q f" "h_pe m p = None \<longleftrightarrow> h_pe m' p = None"
proof -
  have pe: "map_option (\<lambda>P. P\<lparr>indexinsystem := 0\<rparr>) (h_pe m' p) = map_option (\<lambda>P. P\<lparr>indexinsystem := 0\<rparr>) (h_pe m p)" for p
    using assms by (simp add: same_but_index_def)
  show ex: "\<exists>P'. h_pe m' p = Some P' \<and> pe_label P' = pe_label P \<and> pe_resource P' = pe_resource P \<and> hostedLE P' = hostedLE P"
    if "h_pe m p = Some P" for p P
  proof -
    have "map_option (\<lambda>P. P\<lparr>indexinsystem := 0\<rparr>) (h_pe m' p) = Some (P\<lparr>indexinsystem := 0\<rparr>)" using pe [of p] that by simp
    then obtain P' where "h_pe m' p = Some P'" "P'\<lparr>indexinsystem := 0\<rparr> = P\<lparr>indexinsystem := 0\<rparr>" by auto
    then show ?thesis using index_upd_eqD by blast
  qed
  show none: "h_pe m p = None \<longleftrightarrow> h_pe m' p = None" for p using pe [of p] by (metis map_option_is_None)
  show "hosts m' q f = hosts m q f"
  proof (cases "h_pe m q")
    case None
    then show ?thesis using none [of q] by (simp add: hosts_def)
  next
    case (Some P)
    then show ?thesis using ex [OF Some] by (auto simp: hosts_def)
  qed
qed (use assms in \<open>simp_all add: same_but_index_def\<close>)

lemma same_but_index_set:
  assumes "same_but_index m m'" "h_pe m' p = Some P"
  shows "same_but_index m (put_pe m' p (P\<lparr>indexinsystem := i\<rparr>))"
  using assms by (auto simp: same_but_index_def) (metis option.map(2))

lemma setindex_ok: "heap_ok m \<Longrightarrow> h_pe m p = Some P \<Longrightarrow> heap_ok (put_pe m p (P\<lparr>indexinsystem := i\<rparr>))"
  by (rule put_pe_ok [of m p P]) (auto simp: pe_ok_def dest: heap_okD(1))

definition indexed :: "mem \<Rightarrow> nat list \<Rightarrow> bool" where
  "indexed m ps \<longleftrightarrow> (\<forall>i<length ps. indexinsystem (the (h_pe m (ps ! i))) = int i)"

definition reset_body :: "nat list \<Rightarrow> nat \<Rightarrow> nat hashmap \<times> mem \<Rightarrow> (nat hashmap \<times> mem) option" where
  "reset_body ps i = (\<lambda>(h, m). do { P \<leftarrow> h_pe m (ps ! i);
     (h', r) \<leftarrow> hashmap_insert h (Some (ps ! i)) (pe_getname P) (h_rng m);
     m' \<leftarrow> pe_setindexinsystem (m\<lparr>h_rng := r\<rparr>) (ps ! i) (int i); Some (h', m') })"

lemma mem_rng_same [simp]: "m\<lparr>h_rng := h_rng m\<rparr> = (m::mem)"
  by simp

lemma pes_ok_take: "pes_ok m ps \<Longrightarrow> i < length ps \<Longrightarrow> pe_name m (ps ! i) \<notin> pe_name m ` set (take i ps)"
  using distinct_take [of "map (pe_name m) ps" "Suc i"]
  by (simp add: pes_ok_def take_Suc_conv_app_nth take_map)

lemma distinct_nth_take: "distinct ps \<Longrightarrow> i < length ps \<Longrightarrow> k < i \<Longrightarrow> ps ! k \<noteq> ps ! i"
  by (simp add: nth_eq_iff_index_eq)

lemma reset_loop:
  assumes ok: "heap_ok m" and ps: "pes_ok m ps" and len: "length ps \<le> 1021"
  shows "\<exists>h m'. for_each (reset_body ps) [0..<length ps] (fresh_table TABLE_STARTSIZE, m) = Some (h, m') \<and>
    heap_ok m' \<and> hm_clean h \<and> hm_map h = name_map m ps \<and> 1021 - length ps \<le> hm_room h \<and> same_but_index m m' \<and> indexed m' ps"
proof -
  have dps: "distinct ps" using ps by (simp add: pes_ok_def distinct_map)
  let ?Q = "\<lambda>i (h, m'). heap_ok m' \<and> hm_clean h \<and> hm_map h = name_map m (take i ps) \<and> 1021 - i \<le> hm_room h \<and>
    same_but_index m m' \<and> (\<forall>k<i. indexinsystem (the (h_pe m' (ps ! k))) = int k)"
  have "\<exists>s. for_each (reset_body ps) [0..<length ps] (fresh_table TABLE_STARTSIZE, m) = Some s \<and> ?Q (length ps) s"
  proof (rule for_each_upt_total [where P = ?Q])
    show "?Q 0 (fresh_table TABLE_STARTSIZE, m)" using ok by (simp add: hm_room_fresh name_map_def)
    fix i s assume i: "i < length ps" and Q: "?Q i s"
    obtain h m1 where s: "s = (h, m1)" by force
    with Q have h: "heap_ok m1" "hm_clean h" "hm_map h = name_map m (take i ps)" "1021 - i \<le> hm_room h"
      "same_but_index m m1" "\<forall>k<i. indexinsystem (the (h_pe m1 (ps ! k))) = int k" by auto
    have "h_pe m (ps ! i) \<noteq> None" using ps nth_mem [OF i] by (simp add: pes_ok_def)
    then obtain P0 where "h_pe m (ps ! i) = Some P0" by blast
    with same_but_indexD(1) [OF h(5)] obtain P where P: "h_pe m1 (ps ! i) = Some P" "pe_label P = pe_name m (ps ! i)"
      by (auto simp: pe_name_def)
    have "0 < hm_room h" using h(4) i len by simp
    then obtain h' where h': "hashmap_insert h (Some (ps ! i)) (pe_label P) (h_rng m1) = Some (h', h_rng m1)" "hm_clean h'"
      "hm_map h' = (hm_map h)(pe_label P \<mapsto> ps ! i)" "hm_room h - 1 \<le> hm_room h'"
      by (rule hm.ins_returns [OF h(2)])
    let ?m2 = "put_pe m1 (ps ! i) (P\<lparr>indexinsystem := int i\<rparr>)"
    have "reset_body ps i s = Some (h', ?m2)"
      using P(1) h'(1) by (simp add: reset_body_def s pe_getname_def pe_setindexinsystem_def)
    moreover have "hm_map h' = name_map m (take (Suc i) ps)"
      using h'(3) h(3) P(2) name_map_snoc [OF pes_ok_take [OF ps i]] i by (simp add: take_Suc_conv_app_nth)
    moreover have "\<forall>k<Suc i. indexinsystem (the (h_pe ?m2 (ps ! k))) = int k"
      using h(6) distinct_nth_take [OF dps i] by (auto simp: less_Suc_eq)
    moreover have "heap_ok ?m2" by (rule setindex_ok [OF h(1) P(1)])
    moreover have "same_but_index m ?m2" by (rule same_but_index_set [OF h(5) P(1)])
    moreover have "1021 - Suc i \<le> hm_room h'" using h(4) h'(4) by simp
    ultimately show "\<exists>s'. reset_body ps i s = Some s' \<and> ?Q (Suc i) s'" using h'(2) by auto
  qed
  then show ?thesis by (auto simp: indexed_def)
qed

lemma same_but_index_names: "same_but_index m m' \<Longrightarrow> same_names m m'"
  unfolding same_names_def using same_but_indexD(1) by blast

lemma resetpes_step:
  assumes ok: "heap_ok m" and v: "pes cs = Some v" "vec_ok v" "None \<notin> set (vec_list v)"
    and ps: "pes_ok m (cs_pes cs)" and len: "length (cs_pes cs) \<le> 1021" and md: "ismodified cs"
  obtains m' cs' where "cloudsystem_resetpes m cs = Some (m', cs')" "sys_ok m' cs'" "hm_clean (pemap cs')"
    "1021 - length (cs_pes cs) \<le> hm_room (pemap cs')" "cs_pes cs' = cs_pes cs" "same_but_index m m'"
    "indexed m' (cs_pes cs')" "ds cs' = ds cs" "\<not> ismodified cs'"
proof -
  let ?ps = "cs_pes cs"
  obtain h m' where h: "for_each (reset_body ?ps) [0..<length ?ps] (fresh_table TABLE_STARTSIZE, m) = Some (h, m')"
    "heap_ok m'" "hm_clean h" "hm_map h = name_map m ?ps" "1021 - length ?ps \<le> hm_room h" "same_but_index m m'" "indexed m' ?ps"
    using reset_loop [OF ok ps len] by blast
  let ?cs = "cs\<lparr>ismodified := False, pemap := h\<rparr>"
  have nth: "vector_get v (int i) = Some (?ps ! i)" if "i < length ?ps" for i
  proof -
    have "vec_list v ! i \<noteq> None" using v(1,3) that nth_mem [of i "vec_list v"] by (metis cs_pes_Some length_map)
    then show ?thesis using v(1,2) that by (auto simp: vec_get)
  qed
  have "for_each (\<lambda>i (h, m). do { p \<leftarrow> vector_get v (int i); P \<leftarrow> h_pe m p;
       (h', r) \<leftarrow> hashmap_insert h (Some p) (pe_getname P) (h_rng m);
       m' \<leftarrow> pe_setindexinsystem (m\<lparr>h_rng := r\<rparr>) p (int i); Some (h', m') }) [0..<length ?ps] (fresh_table TABLE_STARTSIZE, m) = Some (h, m')"
    using h(1) by (subst for_each_cong [OF refl refl, where g = "reset_body ?ps"]) (auto simp: nth reset_body_def split: prod.split)
  then have "cloudsystem_resetpes m cs = Some (m', ?cs)"
    using v md by (simp add: cloudsystem_resetpes_def)
  moreover have "cs_pes ?cs = ?ps" by (simp add: cs_pes_def)
  moreover have "sys_ok m' ?cs"
    using h v same_names_pes [OF same_but_index_names [OF h(6)] ps] by (auto simp: sys_ok_def hm.clean_imp_ok)
  ultimately show thesis using that [of m' ?cs] h by simp
qed

subsection \<open>Average utilisation\<close>

text \<open>All PEs have the same number of resources, as the code assumes.\<close>

definition uniform :: "mem \<Rightarrow> cloudsystem \<Rightarrow> nat \<Rightarrow> bool" where
  "uniform m cs n \<longleftrightarrow> (\<forall>p\<in>set (cs_pes cs). \<forall>P R. h_pe m p = Some P \<longrightarrow> pe_resource P = Some R \<longrightarrow> rnum R = n)"

lemma frame_uniform: "same_frame m m' \<Longrightarrow> uniform m cs n \<Longrightarrow> uniform m' cs n"
  unfolding uniform_def by (clarify, erule (2) same_frame_back) auto

lemma frame_sys: "same_frame m m' \<Longrightarrow> sys_ok m cs \<Longrightarrow> heap_ok m' \<Longrightarrow> sys_ok m' cs"
  using sys_ok_mem same_frame_names by blast

lemma vec_getPE:
  assumes "sys_ok m cs" "pes cs = Some v" "i < length (cs_pes cs)"
  shows "vector_get v (int i) = Some (cs_pes cs ! i)"
proof -
  have v: "vec_ok v" "None \<notin> set (vec_list v)" using sys_okD(2) [OF assms(1)] assms(2) by auto
  then have "vec_list v ! i \<noteq> None" using assms(2,3) nth_mem [of i "vec_list v"] by (metis cs_pes_Some length_map)
  then show ?thesis using v assms(2,3) by (auto simp: vec_get)
qed

lemma resource_at_eq:
  assumes "sys_ok m cs" "uniform m cs n" "i < length (cs_pes cs)"
  obtains R where "resource_at m cs i = Some (Some R)" "res_wf R" "rnum R = n"
proof -
  obtain v where v: "pes cs = Some v" using sys_okD(2) [OF assms(1)] by blast
  have mem: "cs_pes cs ! i \<in> set (cs_pes cs)" using assms(3) by simp
  obtain P where P: "h_pe m (cs_pes cs ! i) = Some P" using sys_okD(5) [OF assms(1) mem] by blast
  then obtain R where R: "pe_resource P = Some R" "res_wf R"
    using heap_okD(1) [OF sys_okD(1) [OF assms(1)]] by (auto simp: pe_ok_def)
  show thesis
    using that [of R] vec_getPE [OF assms(1) v assms(3)] v P R assms(2) mem
    by (auto simp: resource_at_def pe_getresource_def uniform_def)
qed

lemma getnumPEs_eq: "sys_ok m cs \<Longrightarrow> cloudsystem_getnumPEs cs = length (cs_pes cs)"
  using sys_okD(2) [of m cs] by (auto simp: cloudsystem_getnumPEs_def)

lemma getnumresources_eq:
  assumes "sys_ok m cs" "uniform m cs n"
  shows "cloudsystem_getnumresources m cs = Some (if cs_pes cs = [] then 0 else n)"
proof (cases "cs_pes cs = []")
  case True
  then show ?thesis by (simp add: cloudsystem_getnumresources_def getnumPEs_eq [OF assms(1)])
next
  case False
  obtain v where v: "pes cs = Some v" using sys_okD(2) [OF assms(1)] by blast
  obtain R where R: "resource_at m cs 0 = Some (Some R)" "rnum R = n"
    using resource_at_eq [OF assms, of 0] False by (metis length_greater_0_conv)
  from R(1) have "do { a \<leftarrow> vector_get v 0; P \<leftarrow> h_pe m a; Some (pe_getresource P) } = Some (Some R)"
    by (simp add: resource_at_def v)
  then obtain a P where "vector_get v 0 = Some a" "h_pe m a = Some P" "pe_getresource P = Some R" "rnum R = n"
    using R(2) by (auto simp: bind_eq_Some_conv)
  then show ?thesis using False v
    by (simp add: cloudsystem_getnumresources_def getnumPEs_eq [OF assms(1)] resource_getnum_def)
qed

lemma sgl_nat: "n \<le> 2 ^ 24 \<Longrightarrow> sgl (real n) = real n"
proof -
  assume "n \<le> 2 ^ 24"
  then have "\<bar>int n\<bar> \<le> 2 ^ 24" by (metis abs_of_nat of_nat_le_iff of_nat_numeral of_nat_power)
  then show ?thesis using sgl_int [of "int n"] by simp
qed

definition upto_bound :: "real \<Rightarrow> real list \<Rightarrow> bool" where
  "upto_bound b xs \<longleftrightarrow> (\<forall>x\<in>set xs. 0 \<le> x \<and> x \<le> b)"

lemma add_within:
  assumes "upto_bound (real i) xs" "upto_bound 1 ys" "length ys = length xs" "Suc i \<le> 2 ^ 24"
  shows "upto_bound (real (Suc i)) (map2 fadd xs ys)"
proof -
  have "0 \<le> fadd x y \<and> fadd x y \<le> real (Suc i)" if "(x, y) \<in> set (zip xs ys)" for x y
  proof -
    have xy: "0 \<le> x" "x \<le> real i" "0 \<le> y" "y \<le> 1"
      using that assms(1,2) by (auto simp: upto_bound_def dest: set_zip_leftD set_zip_rightD)
    then have "sgl (x + y) \<le> sgl (real (Suc i))" by (intro sgl.mono) simp
    then show ?thesis using xy sgl_nat [OF assms(4)] by (simp add: fadd_def sgl.nonneg)
  qed
  then show ?thesis by (auto simp: upto_bound_def)
qed

lemma scale_within:
  assumes "upto_bound (real k) xs" "0 < k" "k \<le> 2 ^ 24"
  shows "upto_bound 1 (map (\<lambda>a. fmul a (fdiv 1 (sgl (real k)))) xs)"
proof -
  have inv: "sgl (1 / real k) \<le> 1 / real k * (1 + 1 / 2 ^ 24)" "0 \<le> sgl (1 / real k)"
    using round_bits_error [of "1 / real k" 24] assms(2) by (simp_all add: sgl_def sgl.nonneg [unfolded sgl_def])
  have "0 \<le> fmul a (sgl (1 / real k)) \<and> fmul a (sgl (1 / real k)) \<le> 1" if "0 \<le> a" "a \<le> real k" for a
  proof -
    have "a * sgl (1 / real k) \<le> real k * (1 / real k * (1 + 1 / 2 ^ 24))"
      using that inv by (intro mult_mono) auto
    also have "\<dots> = 1 + 1 / 2 ^ 24" using assms(2) by simp
    finally show ?thesis using that inv(2) sgl_above_one by (simp add: fmul_def sgl.nonneg)
  qed
  then show ?thesis using assms(1,3) by (simp add: upto_bound_def fdiv_def sgl_nat)
qed

lemma utilization_loop:
  assumes ok: "sys_ok m cs" "uniform m cs n" and k: "k \<le> length (cs_pes cs)" "k \<le> 2 ^ 24"
  shows "\<exists>avg. for_each (\<lambda>i avgutil. do { r \<leftarrow> resource_at m cs i; (case r of None \<Rightarrow> Some avgutil
      | Some R \<Rightarrow> do { u \<leftarrow> resource_getutilization R; mathhelper_addarray avgutil u n }) }) [0..<k] (replicate n 0) = Some avg \<and>
    length avg = n \<and> upto_bound (real k) avg"
proof (rule for_each_upt_total [where P = "\<lambda>i avg. length avg = n \<and> upto_bound (real i) avg"])
  show "length (replicate n 0) = n \<and> upto_bound (real 0) (replicate n 0)" by (simp add: upto_bound_def)
  fix i avg assume i: "i < k" and avg: "length avg = n \<and> upto_bound (real i) avg"
  obtain R where R: "resource_at m cs i = Some (Some R)" "res_wf R" "rnum R = n"
    using resource_at_eq [OF ok] i k(1) by (metis order_less_le_trans)
  let ?u = "map (\<lambda>i. util1 (usage R ! i) (capacity R ! i)) [0..<n]"
  have u: "resource_getutilization R = Some ?u" "upto_bound 1 ?u"
    using resource_getutilization_eq [of R] res_wfD [OF R(2)] R(3) by (simp_all add: upto_bound_def util1_unit)
  then show "\<exists>s'. do { r \<leftarrow> resource_at m cs i; (case r of None \<Rightarrow> Some avg
      | Some R \<Rightarrow> do { u \<leftarrow> resource_getutilization R; mathhelper_addarray avg u n }) } = Some s' \<and>
      length s' = n \<and> upto_bound (real (Suc i)) s'"
    using R(1) avg add_within [of i avg ?u] i k(2) by (simp add: mathhelper_addarray_eq)
qed

subsection \<open>Properties of the cloud system\<close>

text \<open>C14: \<open>cloudsystem_addPE\<close> with a name that is not taken appends the PE to the vector and enters it
  into the map, so that lookup by name and the list of PEs stay in agreement; with a name that is taken
  it changes nothing.\<close>

theorem cloudsystem_addPE_consistent:
  assumes "sys_ok m cs" "hm_clean (pemap cs)" "0 < hm_room (pemap cs)" "h_pe m a = Some P"
  shows "\<exists>cs'. cloudsystem_addPE m cs (Some a) = Some (m, cs') \<and> sys_ok m cs' \<and>
    (if cloudsystem_getPE cs (pe_label P) = None
     then cs_pes cs' = cs_pes cs @ [a] \<and>
       (\<forall>k. cloudsystem_getPE cs' k = (if k = pe_label P then Some a else cloudsystem_getPE cs k))
     else cs' = cs)"
proof (cases "cloudsystem_getPE cs (pe_label P) = None")
  case False
  then have "cloudsystem_addPE m cs (Some a) = Some (m, cs)"
    using assms(4) by (simp add: cloudsystem_addPE_def pe_getname_def)
  then show ?thesis using False assms(1) by simp
next
  case none: True
  have new: "\<forall>p\<in>set (cs_pes cs). pe_name m p \<noteq> pe_label P" using none getPE_None_iff [OF assms(1)] by simp
  obtain cs' where cs': "cloudsystem_addPE m cs (Some a) = Some (m, cs')" "sys_ok m cs'" "cs_pes cs' = cs_pes cs @ [a]"
    using addPE_step [OF assms(1-4) new] by metis
  have name: "pe_name m a = pe_label P" using assms(4) by (simp add: pe_name_def)
  have "cloudsystem_getPE cs' k = (if k = pe_label P then Some a else cloudsystem_getPE cs k)" for k
  proof (cases "cloudsystem_getPE cs' k")
    case None
    then have "\<forall>p\<in>set (cs_pes cs'). pe_name m p \<noteq> k" unfolding getPE_None_iff [OF cs'(2)] .
    then have "cloudsystem_getPE cs k = None" "k \<noteq> pe_label P"
      unfolding getPE_None_iff [OF assms(1)] cs'(3) using name by auto
    then show ?thesis using None by simp
  next
    case (Some p)
    then have p: "p \<in> set (cs_pes cs) \<or> p = a" "pe_name m p = k" using getPE_Some_iff [OF cs'(2)] cs'(3) by auto
    then show ?thesis using Some name new getPE_Some_iff [OF assms(1), of k p] by auto
  qed
  then show ?thesis using cs' none by auto
qed

definition sample_cs :: cloudsystem where
  "sample_cs = \<lparr>pes = Some vector_create, pemap = fresh_table TABLE_STARTSIZE, ds = None,
     orderedutil = None, orderedcount = 0, ismodified = False\<rparr>"

lemma sample_cs_ok: "sys_ok sample_mem sample_cs" "hm_clean (pemap sample_cs)" "0 < hm_room (pemap sample_cs)"
  by (simp_all add: sample_cs_def sys_ok_def sample_heap cs_pes_def pes_ok_def hm.clean_imp_ok name_map_def hm_room_fresh)

theorem cloudsystem_addPE_consistent_witness:
  "\<exists>cs'. cloudsystem_addPE sample_mem sample_cs (Some 0) = Some (sample_mem, cs') \<and> sys_ok sample_mem cs' \<and>
    cs_pes cs' = cs_pes sample_cs @ [0] \<and> cloudsystem_getPE cs' ''node'' = Some 0"
proof -
  have none: "cloudsystem_getPE sample_cs (pe_label sample_pe) = None"
    using getPE_None_iff [OF sample_cs_ok(1)] by (simp add: sample_cs_def cs_pes_def)
  have label: "pe_label sample_pe = ''node''" by (simp add: sample_pe_def)
  show ?thesis
    using cloudsystem_addPE_consistent [OF sample_cs_ok sample_heap(2)] none unfolding label by auto
qed

text \<open>C13: \<open>cloudsystem_remove_PE\<close> clears the named PE, deletes it from vector and map, and touches
  nothing else: the other PEs keep their order, their names and the LEs they host.\<close>

theorem cloudsystem_remove_PE_consistent:
  assumes "sys_ok m cs" "cloudsystem_getPE cs k = Some a"
  shows "\<exists>m' cs'. cloudsystem_remove_PE m cs k = Some (Some a, m', cs') \<and> sys_ok m' cs' \<and>
    cs_pes cs' = remove1 a (cs_pes cs) \<and> cloudsystem_getPE cs' k = None \<and>
    (\<forall>q f. hosts m' q f \<longleftrightarrow> hosts m q f \<and> q \<noteq> a) \<and> (\<forall>q. q \<noteq> a \<longrightarrow> h_pe m' q = h_pe m q)"
proof -
  obtain m' cs' where r: "cloudsystem_remove_PE m cs k = Some (Some a, m', cs')" "sys_ok m' cs'" "same_frame m m'"
    "cs_pes cs' = remove1 a (cs_pes cs)" "\<And>q f. hosts m' q f \<longleftrightarrow> hosts m q f \<and> q \<noteq> a"
    "\<And>q. q \<noteq> a \<Longrightarrow> h_pe m' q = h_pe m q" using removePE_step [OF assms] by metis
  have "cloudsystem_getPE cs' k = None"
    unfolding getPE_None_iff [OF r(2)] r(4)
  proof
    fix p assume "p \<in> set (remove1 a (cs_pes cs))"
    then have p: "p \<in> set (cs_pes cs)" "p \<noteq> a" using sys_okD(4) [OF assms(1)] by auto
    then have "pe_name m' p = pe_name m p"
      using same_names_pe_name [OF same_frame_names [OF r(3)]] sys_okD(5) [OF assms(1)] by blast
    moreover have "pe_name m p \<noteq> k"
      using p getPE_Some_iff [OF assms(1)] assms(2) by (metis option.inject)
    ultimately show "pe_name m' p \<noteq> k" by simp
  qed
  then show ?thesis using r by blast
qed

theorem cloudsystem_remove_PE_consistent_witness:
  "\<exists>cs m' cs'. cloudsystem_addPE sample_mem sample_cs (Some 0) = Some (sample_mem, cs) \<and>
    cloudsystem_remove_PE sample_mem cs ''node'' = Some (Some 0, m', cs') \<and> cloudsystem_getPE cs' ''node'' = None"
proof -
  have new: "\<forall>p\<in>set (cs_pes sample_cs). pe_name sample_mem p \<noteq> pe_label sample_pe"
    by (simp add: sample_cs_def cs_pes_def)
  obtain cs where cs: "cloudsystem_addPE sample_mem sample_cs (Some 0) = Some (sample_mem, cs)" "sys_ok sample_mem cs"
    "cs_pes cs = cs_pes sample_cs @ [0]" using addPE_step [OF sample_cs_ok sample_heap(2) new] by metis
  have "cloudsystem_getPE cs ''node'' = Some 0"
    unfolding getPE_Some_iff [OF cs(2)] cs(3) by (simp add: pe_name_def sample_heap sample_pe_def)
  from cloudsystem_remove_PE_consistent [OF cs(2) this] show ?thesis using cs(1) by blast
qed

text \<open>\<open>cloudsystem_resetpes\<close> after modifications rebuilds the map without tombstones, leaves the
  list of PEs and everything the PEs hold as it was, and numbers the PEs by their position.\<close>

theorem cloudsystem_resetpes_rebuilds:
  assumes "sys_ok m cs" "ismodified cs" "length (cs_pes cs) \<le> 1021"
  shows "\<exists>m' cs'. cloudsystem_resetpes m cs = Some (m', cs') \<and> sys_ok m' cs' \<and> hm_clean (pemap cs') \<and>
    cs_pes cs' = cs_pes cs \<and> indexed m' (cs_pes cs') \<and> same_but_index m m' \<and>
    (\<forall>k. cloudsystem_getPE cs' k = cloudsystem_getPE cs k)"
proof -
  obtain v where v: "pes cs = Some v" "vec_ok v" "None \<notin> set (vec_list v)" using sys_okD(2) [OF assms(1)] by blast
  have ps: "pes_ok m (cs_pes cs)" using assms(1) by (simp add: sys_ok_def)
  obtain m' cs' where r: "cloudsystem_resetpes m cs = Some (m', cs')" "sys_ok m' cs'" "hm_clean (pemap cs')"
    "cs_pes cs' = cs_pes cs" "same_but_index m m'" "indexed m' (cs_pes cs')"
    using resetpes_step [OF sys_okD(1) [OF assms(1)] v ps assms(3,2)] by metis
  have "cloudsystem_getPE cs' k = cloudsystem_getPE cs k" for k
    using sys_okD(6,7) [OF assms(1)] sys_okD(6,7) [OF r(2)] same_names_pes(2) [OF same_but_index_names [OF r(5)] ps] r(4)
    by (simp add: cloudsystem_getPE_def hm.get_abs)
  then show ?thesis using r by blast
qed

theorem cloudsystem_resetpes_rebuilds_witness:
  "\<exists>m' cs'. cloudsystem_resetpes sample_mem (sample_cs\<lparr>ismodified := True\<rparr>) = Some (m', cs') \<and>
    sys_ok m' cs' \<and> hm_clean (pemap cs')"
proof -
  have "sys_ok sample_mem (sample_cs\<lparr>ismodified := True\<rparr>)"
    using sample_cs_ok(1) by (simp add: sys_ok_def cs_pes_def)
  moreover have "length (cs_pes (sample_cs\<lparr>ismodified := True\<rparr>)) \<le> 1021" by (simp add: sample_cs_def cs_pes_def)
  ultimately show ?thesis using cloudsystem_resetpes_rebuilds [of sample_mem "sample_cs\<lparr>ismodified := True\<rparr>"] by auto
qed

text \<open>\<open>cloudsystem_getutilization\<close> on a system whose PEs have the same resources returns one average
  per resource, each a fraction between 0 and 1: the rounding of the partial sums and of the factor
  \<open>1 / n\<close> never pushes an average above one.\<close>

theorem cloudsystem_getutilization_unit:
  assumes "sys_ok m cs" "uniform m cs n" "cs_pes cs \<noteq> []" "n \<noteq> 0" "length (cs_pes cs) \<le> 2 ^ 24"
  shows "\<exists>avg. cloudsystem_getutilization m cs = Some (Some avg) \<and> length avg = n \<and> (\<forall>x\<in>set avg. 0 \<le> x \<and> x \<le> 1)"
proof -
  let ?k = "length (cs_pes cs)"
  obtain avg where avg: "for_each (\<lambda>i avgutil. do { r \<leftarrow> resource_at m cs i; (case r of None \<Rightarrow> Some avgutil
      | Some R \<Rightarrow> do { u \<leftarrow> resource_getutilization R; mathhelper_addarray avgutil u n }) }) [0..<?k] (replicate n 0) = Some avg"
    "length avg = n" "upto_bound (real ?k) avg"
    using utilization_loop [OF assms(1,2) order.refl assms(5)] by blast
  have "upto_bound 1 (map (\<lambda>a. fmul a (fdiv 1 (sgl (real ?k)))) avg)"
    using avg(3) assms(3,5) by (intro scale_within) auto
  then show ?thesis
    using avg(1,2) assms(3,4) getnumresources_eq [OF assms(1,2)] getnumPEs_eq [OF assms(1)]
    by (simp add: cloudsystem_getutilization_def mathhelper_scalearray_eq upto_bound_def)
qed

theorem cloudsystem_getutilization_unit_witness:
  "\<exists>cs avg. cloudsystem_addPE sample_mem sample_cs (Some 0) = Some (sample_mem, cs) \<and>
    cloudsystem_getutilization sample_mem cs = Some (Some avg) \<and> length avg = 2 \<and> (\<forall>x\<in>set avg. 0 \<le> x \<and> x \<le> 1)"
proof -
  have new: "\<forall>p\<in>set (cs_pes sample_cs). pe_name sample_mem p \<noteq> pe_label sample_pe"
    by (simp add: sample_cs_def cs_pes_def)
  obtain cs where cs: "cloudsystem_addPE sample_mem sample_cs (Some 0) = Some (sample_mem, cs)" "sys_ok sample_mem cs"
    "cs_pes cs = cs_pes sample_cs @ [0]" using addPE_step [OF sample_cs_ok sample_heap(2) new] by metis
  then have pes: "cs_pes cs = [0]" by (simp add: sample_cs_def cs_pes_def)
  have "uniform sample_mem cs 2" using sample_heap sample_ok by (simp add: uniform_def pes)
  from cloudsystem_getutilization_unit [OF cs(2) this] show ?thesis using cs(1) pes by auto
qed

end
