(* ===== verification/Stateupdater.thy ===== *)
theory Stateupdater
  imports Cloudsystem
begin

section \<open>The state updater (system/stateupdater.c)\<close>

text \<open>
  The state updater brings the model of the cloud system in line with what was observed. A session
  runs from \<open>stateupdater_start\<close> to \<open>stateupdater_stop\<close>; in between every observed PE and LE is
  reported. Sessions carry increasing generation numbers, and reports outside a session are ignored.
  The functions act on the memory, the cloud system and the updater, which are passed explicitly;
  the two time stamps used for printing are left out.

  The theory shows that stale generations are refused, that nothing happens outside a session, and
  what a session does: after a session in which PEs were reported, the model contains exactly the
  PEs reported, each with the capacity and usage of its last report. Sessions that report LEs too are
  the subject of theory \<open>Placement\<close>.
\<close>

record stateupdater =
  gen :: int
  started :: bool
  observedPEs :: "hashset option"
  observedLEs :: "hashset option"
  lemap :: "nat hashmap option"
  newplacements :: "string hashmap option"
  addedPEs :: "string vector"
  deletedPEs :: "string vector"
  updatedPEs :: "string vector"
  addedLEs :: "string vector"
  deletedLEs :: "string vector"
  updatedLEs :: "string vector"

type_synonym world = "mem \<times> cloudsystem \<times> stateupdater"

definition stateupdater_create :: stateupdater where
  "stateupdater_create =
     \<lparr>gen = - 1, started = False, observedPEs = None, observedLEs = None, lemap = None, newplacements = None,
      addedPEs = vector_create, deletedPEs = vector_create, updatedPEs = vector_create,
      addedLEs = vector_create, deletedLEs = vector_create, updatedLEs = vector_create\<rparr>"

subsection \<open>Closing a session\<close>

text \<open>PEs that were not observed are removed.\<close>

definition stop_pes :: "world \<Rightarrow> world option" where
  "stop_pes = (\<lambda>(m, cs, su).
     do { v \<leftarrow> cloudsystem_getPEs cs;
          let allpes = vector_toarraycopy v;
          for_each (\<lambda>i (m, cs, su).
            do { pei \<leftarrow> rd allpes i; pei \<leftarrow> pei; P \<leftarrow> h_pe m pei;
                 obs \<leftarrow> observedPEs su;
                 if \<not> hashset_find obs (pe_getname P)
                 then do { (_, m, cs) \<leftarrow> cloudsystem_remove_PE m cs (pe_getname P);
                           Some (m, cs, su\<lparr>deletedPEs := vector_append (deletedPEs su) (Some (pe_getname P))\<rparr>) }
                 else Some (m, cs, su) }) [0..<cloudsystem_getnumPEs cs] (m, cs, su) })"

text \<open>LEs that were not observed are removed from their hosts.\<close>

definition stop_les :: "world \<Rightarrow> world option" where
  "stop_les = (\<lambda>(m, cs, su).
     do { lm \<leftarrow> lemap su;
          let allles = hashmap_getvalues lm;
          for_each (\<lambda>i (m, cs, su).
            do { lei \<leftarrow> vector_get allles (int i); E \<leftarrow> h_le m lei;
                 obs \<leftarrow> observedLEs su;
                 if \<not> hashset_find obs (le_getname E)
                 then (case le_gethost E of
                         Some pei \<Rightarrow> do { (_, m) \<leftarrow> pe_removeLE m pei lei True;
                                         Some (m, cs, su\<lparr>deletedLEs := vector_append (deletedLEs su) (Some (le_getname E))\<rparr>) }
                       | None \<Rightarrow> Some (m, cs, su))
                 else Some (m, cs, su) }) [0..<vector_getsize allles] (m, cs, su) })"

text \<open>The recorded placements are made.\<close>

definition stop_placements :: "world \<Rightarrow> world option" where
  "stop_placements = (\<lambda>(m, cs, su).
     do { np \<leftarrow> newplacements su;
          let leids = hashmap_getkeys np;
          for_each (\<lambda>i (m, cs, su).
            do { leID \<leftarrow> vector_get leids (int i); lm \<leftarrow> lemap su;
                 (case hashmap_get lm leID of
                    None \<Rightarrow> Some (m, cs, su)
                  | Some lei \<Rightarrow> do { peiID \<leftarrow> hashmap_get np leID;
                      (case cloudsystem_getPE cs peiID of
                         None \<Rightarrow> Some (m, cs, su)
                       | Some pei \<Rightarrow> do { (_, m) \<leftarrow> pe_placeLE m pei lei True; Some (m, cs, su) }) }) })
            [0..<vector_getsize leids] (m, cs, su) })"

definition stateupdater_stop :: "world \<Rightarrow> world option" where
  "stateupdater_stop = (\<lambda>(m, cs, su).
     if \<not> started su then Some (m, cs, su)
     else do { (m, cs, su) \<leftarrow> stop_pes (m, cs, su);
               (m, cs) \<leftarrow> cloudsystem_resetpes m cs;
               (m, cs, su) \<leftarrow> stop_les (m, cs, su);
               (m, cs, su) \<leftarrow> stop_placements (m, cs, su);
               Some (m, cs, su\<lparr>observedPEs := None, observedLEs := None, lemap := None, newplacements := None,
                              started := False\<rparr>) })"

subsection \<open>Opening a session\<close>

text \<open>The LEs hosted in the model are entered into the map of LEs.\<close>

definition fill_lemap :: "mem \<Rightarrow> cloudsystem \<Rightarrow> nat hashmap \<Rightarrow> (nat hashmap \<times> mem) option" where
  "fill_lemap m cs h =
     do { allpes \<leftarrow> cloudsystem_getPEs cs;
          for_each (\<lambda>i (h, m).
            do { pei \<leftarrow> vector_get allpes (int i); P \<leftarrow> h_pe m pei;
                 let les = pe_gethostedLE P;
                 for_each (\<lambda>j (h, m).
                   do { lej \<leftarrow> vector_get les (int j); E \<leftarrow> h_le m lej;
                        (h, r) \<leftarrow> hashmap_insert h (Some lej) (le_getname E) (h_rng m);
                        Some (h, m\<lparr>h_rng := r\<rparr>) }) [0..<vector_getsize les] (h, m) })
            [0..<vector_getsize allpes] (h, m) }"

definition stateupdater_start :: "world \<Rightarrow> int \<Rightarrow> (bool \<times> world) option" where
  "stateupdater_start = (\<lambda>(m, cs, su) generation.
     if generation \<le> gen su then Some (False, m, cs, su\<lparr>started := False\<rparr>)
     else do { (m, cs, su) \<leftarrow> (if started su then stateupdater_stop (m, cs, su) else Some (m, cs, su));
               let su = su\<lparr>started := True, gen := generation,
                           addedPEs := vector_clear (addedPEs su), deletedPEs := vector_clear (deletedPEs su),
                           updatedPEs := vector_clear (updatedPEs su), addedLEs := vector_clear (addedLEs su),
                           deletedLEs := vector_clear (deletedLEs su), updatedLEs := vector_clear (updatedLEs su)\<rparr>;
               (ope, r) \<leftarrow> hashset_create 0 (h_rng m);
               (ole, r) \<leftarrow> hashset_create 0 r;
               (lm, r) \<leftarrow> hashmap_create 0 r;
               (np, r) \<leftarrow> hashmap_create 0 r;
               (lm, m) \<leftarrow> fill_lemap (m\<lparr>h_rng := r\<rparr>) cs lm;
               Some (True, m, cs, su\<lparr>observedPEs := Some ope, observedLEs := Some ole,
                                    lemap := Some lm, newplacements := Some np\<rparr>) })"

subsection \<open>Reports\<close>

text \<open>The loop that looks for a difference between the model and the report; it stops at the first.\<close>

definition has_changed :: "resource \<Rightarrow> int list \<Rightarrow> int list option \<Rightarrow> nat \<Rightarrow> bool option" where
  "has_changed R cap use len =
     for_each (\<lambda>k changed.
       if changed then Some True
       else do { c \<leftarrow> rd (resource_getcapacity R) k; x \<leftarrow> rd cap k;
                 d \<leftarrow> (case use of None \<Rightarrow> Some False
                      | Some us \<Rightarrow> do { u \<leftarrow> rd (resource_getusage R) k; y \<leftarrow> rd us k; Some (u \<noteq> y) });
                 Some (c \<noteq> x \<or> d) }) [0..<len] False"

definition stateupdater_updatePE ::
    "world \<Rightarrow> string \<Rightarrow> int list \<Rightarrow> bool list option \<Rightarrow> int list option \<Rightarrow> nat \<Rightarrow> world option" where
  "stateupdater_updatePE = (\<lambda>(m, cs, su) pid cap ovf use len.
     if \<not> started su then Some (m, cs, su)
     else do {
       obs \<leftarrow> observedPEs su;
       (obs, r) \<leftarrow> hashset_add obs pid (h_rng m);
       let m = m\<lparr>h_rng := r\<rparr>;
       let su = su\<lparr>observedPEs := Some obs\<rparr>;
       (case cloudsystem_getPE cs pid of
          Some pex \<Rightarrow> do {
            P \<leftarrow> h_pe m pex; R \<leftarrow> pe_getresource P;
            changed \<leftarrow> has_changed R cap use len;
            if changed
            then do { m \<leftarrow> pe_update m pex (Some cap) use;
                      Some (m, cs, su\<lparr>updatedPEs := vector_append (updatedPEs su) (Some pid)\<rparr>) }
            else Some (m, cs, su) }
        | None \<Rightarrow> do {
            res \<leftarrow> resource_create len cap ovf;
            res \<leftarrow> (case use of Some u \<Rightarrow> resource_setusage res u | None \<Rightarrow> Some res);
            let (penew, m) = pe_create m pid (Some res);
            (m, cs) \<leftarrow> cloudsystem_addPE m cs (Some penew);
            Some (m, cs, su\<lparr>addedPEs := vector_append (addedPEs su) (Some pid)\<rparr>) }) })"

definition record_placement :: "world \<Rightarrow> string \<Rightarrow> string \<Rightarrow> world option" where
  "record_placement = (\<lambda>(m, cs, su) lid hostID.
     do { np \<leftarrow> newplacements su;
          (np, r) \<leftarrow> hashmap_insert np (Some hostID) lid (h_rng m);
          Some (m\<lparr>h_rng := r\<rparr>, cs, su\<lparr>newplacements := Some np\<rparr>) })"

definition stateupdater_updateLE :: "world \<Rightarrow> string \<Rightarrow> string \<Rightarrow> int list \<Rightarrow> nat \<Rightarrow> world option" where
  "stateupdater_updateLE = (\<lambda>(m, cs, su) lid hostID dem len.
     if \<not> started su then Some (m, cs, su)
     else do {
       obs \<leftarrow> observedLEs su;
       (obs, r) \<leftarrow> hashset_add obs lid (h_rng m);
       let m = m\<lparr>h_rng := r\<rparr>;
       let su = su\<lparr>observedLEs := Some obs\<rparr>;
       lm \<leftarrow> lemap su;
       (case hashmap_get lm lid of
          Some lx \<Rightarrow> do {
            E \<leftarrow> h_le m lx;
            (case le_gethost E of
               Some pex \<Rightarrow> do {
                 P \<leftarrow> h_pe m pex;
                 if strcmp (pe_getname P) hostID = 0 then Some (m, cs, su)
                 else do { (_, m) \<leftarrow> pe_removeLE m pex lx True;
                           record_placement (m, cs, su\<lparr>updatedLEs := vector_append (updatedLEs su) (Some lid)\<rparr>) lid hostID } }
             | None \<Rightarrow> record_placement (m, cs, su) lid hostID) }
        | None \<Rightarrow> do {
            E \<leftarrow> le_create lid dem len;
            let (lx, m) = new_le m E;
            (lm, r) \<leftarrow> hashmap_insert lm (Some lx) lid (h_rng m);
            record_placement (m\<lparr>h_rng := r\<rparr>, cs, su\<lparr>addedLEs := vector_append (addedLEs su) (Some lid), lemap := Some lm\<rparr>) lid hostID }) })"

definition stateupdater_getupdated :: "world \<Rightarrow> cloudsystem" where
  "stateupdater_getupdated = (\<lambda>(m, cs, su). cs)"

subsection \<open>The abstract state: a finite map from names to amounts\<close>

definition pe_amounts :: "mem \<Rightarrow> nat \<Rightarrow> (int list \<times> int list) option" where
  "pe_amounts m a = do { P \<leftarrow> h_pe m a; R \<leftarrow> pe_resource P; Some (capacity R, usage R) }"

definition amounts :: "mem \<Rightarrow> cloudsystem \<Rightarrow> string \<rightharpoonup> (int list \<times> int list)" where
  "amounts m cs k = do { a \<leftarrow> cloudsystem_getPE cs k; pe_amounts m a }"

lemma amounts_dom:
  assumes "sys_ok m cs"
  shows "dom (amounts m cs) = pe_name m ` set (cs_pes cs)"
proof -
  have "\<exists>x. pe_amounts m a = Some x" if mem: "a \<in> set (cs_pes cs)" for a
  proof -
    obtain P where P: "h_pe m a = Some P" using sys_okD(5) [OF assms mem] by blast
    then show ?thesis using heap_okD(1) [OF sys_okD(1) [OF assms] P] by (auto simp: pe_amounts_def pe_ok_def)
  qed
  then show ?thesis
    using getPE_Some_iff [OF assms] by (fastforce simp: amounts_def bind_eq_Some_conv dom_def image_iff)
qed

lemma has_changed_eq:
  assumes "res_wf R" "length cap = rnum R" "length use = rnum R"
  shows "has_changed R cap (Some use) (rnum R) = Some (capacity R \<noteq> cap \<or> usage R \<noteq> use)"
proof -
  have loop: "for_each (\<lambda>k changed. if changed then Some True
       else do { c \<leftarrow> rd (capacity R) k; x \<leftarrow> rd cap k;
                 d \<leftarrow> do { u \<leftarrow> rd (usage R) k; y \<leftarrow> rd use k; Some (u \<noteq> y) };
                 Some (c \<noteq> x \<or> d) }) [0..<n] False
      = Some (\<exists>k<n. capacity R ! k \<noteq> cap ! k \<or> usage R ! k \<noteq> use ! k)" if "n \<le> rnum R" for n
    using that
  proof (induction n)
    case (Suc n)
    then show ?case using assms(2,3) res_wfD [OF assms(1)]
      by (auto simp: for_each_upt_Suc less_Suc_eq simp del: upt_Suc)
  qed simp
  have "has_changed R cap (Some use) (rnum R) = Some (\<exists>k<rnum R. capacity R ! k \<noteq> cap ! k \<or> usage R ! k \<noteq> use ! k)"
    unfolding has_changed_def res_defs option.case by (rule loop) simp
  moreover have "capacity R \<noteq> cap \<longleftrightarrow> (\<exists>k<rnum R. capacity R ! k \<noteq> cap ! k)" "usage R \<noteq> use \<longleftrightarrow> (\<exists>k<rnum R. usage R ! k \<noteq> use ! k)"
    using assms(2,3) res_wfD [OF assms(1)] by (auto simp: list_eq_iff_nth_eq)
  ultimately show ?thesis by auto
qed

lemma max_amounts: "amounts_ok xs \<Longrightarrow> map (max 0) xs = xs"
  by (induction xs) (auto simp: amounts_ok_def)

text \<open>A well-formed report for PEs with \<open>n\<close> resources.\<close>

type_synonym pe_report = "string \<times> int list \<times> bool list option \<times> int list"

definition report_ok :: "nat \<Rightarrow> pe_report \<Rightarrow> bool" where
  "report_ok n = (\<lambda>(pid, cap, ovf, use). length cap = n \<and> length use = n \<and> (\<forall>a. ovf = Some a \<longrightarrow> n \<le> length a) \<and>
     amounts_ok cap \<and> amounts_ok use)"

definition reported :: "pe_report list \<Rightarrow> string \<rightharpoonup> (int list \<times> int list)" where
  "reported rs = map_of (rev (map (\<lambda>(pid, cap, ovf, use). (pid, cap, use)) rs))"

definition report :: "pe_report \<Rightarrow> nat \<Rightarrow> world \<Rightarrow> world option" where
  "report = (\<lambda>(pid, cap, ovf, use) n w. stateupdater_updatePE w pid cap ovf (Some use) n)"

subsection \<open>One report\<close>

lemma update_existing:
  assumes ok: "sys_ok m cs" and un: "uniform m cs n" and a: "cloudsystem_getPE cs pid = Some a"
    and r: "report_ok n (pid, cap, ovf, use)"
  obtains P R m' where "h_pe m a = Some P" "pe_getresource P = Some R" "res_wf R" "rnum R = n"
    "pe_update m a (Some cap) (Some use) = Some m'" "sys_ok m' cs" "uniform m' cs n" "h_rng m' = h_rng m"
    "\<And>q f. hosts m' q f = hosts m q f" "amounts m' cs = (amounts m cs)(pid \<mapsto> (cap, use))"
    "h_le m' = h_le m" "same_names m m'"
proof -
  have ak: "a \<in> set (cs_pes cs)" "pe_name m a = pid" using a getPE_Some_iff [OF ok] by auto
  obtain P where P: "h_pe m a = Some P" using sys_okD(5) [OF ok ak(1)] by blast
  note Pok = heap_okD(1) [OF sys_okD(1) [OF ok] P]
  obtain R where R: "pe_resource P = Some R" "res_wf R" using Pok by (auto simp: pe_ok_def)
  have n: "rnum R = n" using un ak(1) P R(1) by (auto simp: uniform_def)
  have rep: "length cap = n" "length use = n" "amounts_ok cap" "amounts_ok use" using r by (auto simp: report_ok_def)
  let ?R = "R\<lparr>capacity := cap, usage := use\<rparr>"
  let ?P = "P\<lparr>pe_resource := Some ?R\<rparr>"
  let ?m = "put_pe m a ?P"
  have upd: "pe_update m a (Some cap) (Some use) = Some ?m"
    using P R resource_setcapacity_eq [of R cap] resource_setusage_eq [of "R\<lparr>capacity := cap\<rparr>" use] res_wfD [OF R(2)] rep n
    by (simp add: pe_update_def max_amounts)
  have wf: "res_wf ?R" using R(2) rep n by (simp add: res_wf_def)
  then have "pe_ok ?P" using Pok by (simp add: pe_ok_def)
  then have heap: "heap_ok ?m" using put_pe_ok [OF sys_okD(1) [OF ok] P, of ?P] R(1) n rep by simp
  have sn: "same_names m ?m" using P by (simp add: same_names_def)
  have sys: "sys_ok ?m cs" by (rule sys_ok_mem [OF ok heap sn])
  have h: "hosts ?m q f = hosts m q f" for q f using P by (auto simp: hosts_put_pe hosts_def)
  have "amounts ?m cs k = ((amounts m cs)(pid \<mapsto> (cap, use))) k" for k
  proof (cases "cloudsystem_getPE cs k")
    case None
    then show ?thesis using a by (auto simp: amounts_def)
  next
    case (Some b)
    have "b = a" if "k = pid" using Some a that by simp
    moreover have "k = pid" if "b = a" using Some ak(2) that getPE_Some_iff [OF ok] by simp
    ultimately have "b = a \<longleftrightarrow> k = pid" by blast
    then show ?thesis using Some by (auto simp: amounts_def pe_amounts_def)
  qed
  moreover have "uniform ?m cs n" using un P R n by (auto simp: uniform_def)
  ultimately show thesis
    using that [of P R ?m] P R n upd sys sn h by (auto simp: pe_getresource_def fun_eq_iff)
qed

text \<open>The amounts of a system that has one more PE.\<close>

lemma amounts_snoc:
  assumes ok: "sys_ok m cs" "sys_ok m1 cs" "sys_ok m1 cs'" "cs_pes cs' = cs_pes cs @ [p]"
    and p: "pe_name m1 p = pid" "pe_amounts m1 p = Some au" and old: "\<And>q. q \<in> set (cs_pes cs) \<Longrightarrow> pe_amounts m1 q = pe_amounts m q"
  shows "amounts m1 cs' = (amounts m cs)(pid \<mapsto> au)"
proof
  fix k
  show "amounts m1 cs' k = ((amounts m cs)(pid \<mapsto> au)) k"
  proof (cases "k = pid")
    case True
    then have "cloudsystem_getPE cs' k = Some p" unfolding getPE_Some_iff [OF ok(3)] ok(4) using p(1) by simp
    then show ?thesis using True p(2) by (simp add: amounts_def)
  next
    case False
    have "cloudsystem_getPE cs' k = cloudsystem_getPE cs k"
    proof (rule option.expand)
      show "cloudsystem_getPE cs' k = None \<longleftrightarrow> cloudsystem_getPE cs k = None"
        unfolding getPE_None_iff [OF ok(3)] getPE_None_iff [OF ok(2)] ok(4) using p(1) False by auto
      assume ne: "cloudsystem_getPE cs' k \<noteq> None" "cloudsystem_getPE cs k \<noteq> None"
      then obtain b where b: "cloudsystem_getPE cs k = Some b" by blast
      then have "cloudsystem_getPE cs' k = Some b"
        unfolding getPE_Some_iff [OF ok(3)] ok(4) using getPE_Some_iff [OF ok(2)] by auto
      then show "the (cloudsystem_getPE cs' k) = the (cloudsystem_getPE cs k)" using b by simp
    qed
    moreover have "pe_amounts m1 b = pe_amounts m b" if "cloudsystem_getPE cs k = Some b" for b
      using that old getPE_Some_iff [OF ok(1)] by auto
    ultimately show ?thesis using False by (auto simp: amounts_def split: bind_splits)
  qed
qed

lemma update_new:
  assumes ok: "sys_ok m cs" and un: "uniform m cs n" and a: "cloudsystem_getPE cs pid = None"
    and r: "report_ok n (pid, cap, ovf, use)" and clean: "hm_clean (pemap cs)" "0 < hm_room (pemap cs)"
  obtains R p m1 cs' where "resource_create n cap ovf = Some (R\<lparr>usage := replicate n 0\<rparr>)"
    "resource_setusage (R\<lparr>usage := replicate n 0\<rparr>) use = Some R"
    "pe_create m pid (Some R) = (p, m1)" "cloudsystem_addPE m1 cs (Some p) = Some (m1, cs')"
    "sys_ok m1 cs'" "uniform m1 cs' n" "hm_clean (pemap cs')" "hm_room (pemap cs) - 1 \<le> hm_room (pemap cs')" "h_rng m1 = h_rng m"
    "\<And>q f. hosts m1 q f = hosts m q f" "amounts m1 cs' = (amounts m cs)(pid \<mapsto> (cap, use))" "ismodified cs'"
    "cs_pes cs' = cs_pes cs @ [p]" "h_le m1 = h_le m" "same_names m m1"
proof -
  have rep: "length cap = n" "length use = n" "amounts_ok cap" "amounts_ok use" "\<And>a. ovf = Some a \<Longrightarrow> n \<le> length a"
    using r by (auto simp: report_ok_def)
  let ?R = "\<lparr>rnum = n, capacity = cap, usage = use, allowoverflow = ovf_flags n ovf\<rparr>"
  have c: "resource_create n cap ovf = Some (?R\<lparr>usage := replicate n 0\<rparr>)"
    using resource_create_eq [of n cap ovf] rep by simp
  have u: "resource_setusage (?R\<lparr>usage := replicate n 0\<rparr>) use = Some ?R"
    using resource_setusage_eq [of "?R\<lparr>usage := replicate n 0\<rparr>" use] rep by (simp add: max_amounts)
  have len: "length (ovf_flags n ovf) = n" using rep(5) by (auto simp: ovf_flags_def split: option.split)
  let ?P = "\<lparr>pe_label = pid, pe_resource = Some ?R, hostedLE = vector_create, indexinsystem = - 1\<rparr>"
  obtain p m1 where pm: "pe_create m pid (Some ?R) = (p, m1)" by force
  have p: "p = h_next m" "m1 = snd (new_pe m ?P)" using pm by (auto simp: pe_create_def new_pe_def)
  have m1: "h_pe m1 = (h_pe m)(p \<mapsto> ?P)" "h_le m1 = h_le m" "h_rng m1 = h_rng m" by (simp_all add: p new_pe_def)
  have fresh: "h_pe m p = None" using fresh_address [OF sys_okD(1) [OF ok]] p(1) by simp
  have "pe_ok ?P" using rep len by (simp add: pe_ok_def res_wf_def)
  then have heap: "heap_ok m1" unfolding p(2) by (intro new_pe_ok [OF sys_okD(1) [OF ok]]) simp_all
  have sn: "same_names m m1" using fresh by (auto simp: same_names_def m1)
  have ok1: "sys_ok m1 cs" by (rule sys_ok_mem [OF ok heap sn])
  have mem: "q \<noteq> p" if "q \<in> set (cs_pes cs)" for q using sys_okD(5) [OF ok that] fresh by auto
  have "\<forall>q\<in>set (cs_pes cs). pe_name m1 q \<noteq> pe_label ?P"
    using a getPE_None_iff [OF ok1] by simp
  then obtain cs' where cs': "cloudsystem_addPE m1 cs (Some p) = Some (m1, cs')" "sys_ok m1 cs'" "hm_clean (pemap cs')"
    "hm_room (pemap cs) - 1 \<le> hm_room (pemap cs')" "cs_pes cs' = cs_pes cs @ [p]" "ismodified cs'"
    using addPE_step [OF ok1 clean, of p ?P] m1(1) by auto
  have h: "hosts m1 q f = hosts m q f" for q f using fresh by (auto simp: hosts_def m1)
  have name: "pe_name m1 p = pid" by (simp add: pe_name_def m1)
  have "amounts m1 cs' = (amounts m cs)(pid \<mapsto> (cap, use))"
    by (rule amounts_snoc [OF ok ok1 cs'(2,5) name]) (use mem in \<open>auto simp: pe_amounts_def m1\<close>)
  moreover have "uniform m1 cs' n" using un mem by (auto simp: uniform_def cs'(5) m1)
  ultimately show thesis
    using that [of ?R p m1 cs'] c u pm cs' h m1(2,3) sn by simp
qed

subsection \<open>The invariant of a session\<close>

text \<open>\<open>k\<close> more PE reports can be taken without a rehash; \<open>seen\<close> is the set of names reported so far.\<close>

definition sys_idle :: "nat \<Rightarrow> mem \<Rightarrow> cloudsystem \<Rightarrow> bool" where
  "sys_idle n m cs \<longleftrightarrow> sys_ok m cs \<and> uniform m cs n \<and> hm_clean (pemap cs) \<and>
     (ismodified cs \<or> 1021 - length (cs_pes cs) \<le> hm_room (pemap cs))"

fun pe_session :: "nat \<Rightarrow> nat \<Rightarrow> string set \<Rightarrow> world \<Rightarrow> bool" where
  "pe_session n k seen (m, cs, su) \<longleftrightarrow> sys_idle n m cs \<and> started su \<and>
     k \<le> hm_room (pemap cs) \<and> length (cs_pes cs) + k \<le> 1021 \<and>
     (\<exists>s. observedPEs su = Some s \<and> hs_clean s \<and> hs_set s = seen \<and> k \<le> hs_room s)"

text \<open>What a report of a PE leaves alone: the LEs, who hosts them, and the updater's records about LEs.\<close>

fun le_frame :: "world \<Rightarrow> world \<Rightarrow> bool" where
  "le_frame (m, cs, su) (m', cs', su') \<longleftrightarrow> h_le m' = h_le m \<and> (\<forall>q f. hosts m' q f = hosts m q f) \<and> same_names m m' \<and>
     set (cs_pes cs) \<subseteq> set (cs_pes cs') \<and> observedLEs su' = observedLEs su \<and> lemap su' = lemap su \<and>
     newplacements su' = newplacements su"

lemma same_names_refl [simp]: "same_names m m"
  by (simp add: same_names_def)

lemma same_names_trans: "same_names m m1 \<Longrightarrow> same_names m1 m2 \<Longrightarrow> same_names m m2"
  unfolding same_names_def by metis

lemma le_frame_refl [simp]: "le_frame w w"
  by (cases w) simp

lemma le_frame_trans: "le_frame w w1 \<Longrightarrow> le_frame w1 w2 \<Longrightarrow> le_frame w w2"
  by (cases w; cases w1; cases w2) (auto intro: same_names_trans)

fun world_amounts :: "world \<Rightarrow> string \<rightharpoonup> (int list \<times> int list)" where
  "world_amounts (m, cs, su) = amounts m cs"

text \<open>The names of the PEs in the order of the system, and how a report changes it.\<close>

fun world_names :: "world \<Rightarrow> string list" where
  "world_names (m, cs, su) = map (pe_name m) (cs_pes cs)"

definition note_name :: "string \<Rightarrow> string list \<Rightarrow> string list" where
  "note_name k ns = (if k \<in> set ns then ns else ns @ [k])"

lemma note_names_set: "set (fold note_name ks ns) = set ns \<union> set ks"
  by (induction ks arbitrary: ns) (auto simp: note_name_def)

lemma note_names_first: "fold note_name ks [] = rev (remdups (rev ks))"
proof (induction ks rule: rev_induct)
  case (snoc k ks)
  then show ?case using note_names_set [of ks "[]"] by (auto simp: note_name_def)
qed simp

lemma same_names_list:
  assumes "same_names m m'" "sys_ok m cs" "set ps \<subseteq> set (cs_pes cs)"
  shows "map (pe_name m') ps = map (pe_name m) ps"
  using assms same_names_pe_name [OF assms(1)] sys_okD(5) [OF assms(2)] by (intro map_cong) blast+

fun world_gen :: "world \<Rightarrow> int" where
  "world_gen (m, cs, su) = gen su"

lemma report_existing:
  assumes S: "pe_session n (Suc k) seen (m, cs, su)" and r: "report_ok n (pid, cap, ovf, use)"
    and a: "cloudsystem_getPE cs pid = Some a"
  shows "\<exists>w'. report (pid, cap, ovf, use) n (m, cs, su) = Some w' \<and> pe_session n k (insert pid seen) w' \<and>
    world_amounts w' = (amounts m cs)(pid \<mapsto> (cap, use)) \<and> world_gen w' = gen su \<and> le_frame (m, cs, su) w' \<and>
    world_names w' = map (pe_name m) (cs_pes cs)"
proof -
  have i: "sys_ok m cs" "uniform m cs n" "started su" using S by (auto simp: sys_idle_def)
  obtain s where s: "observedPEs su = Some s" "hs_clean s" "hs_set s = seen" "Suc k \<le> hs_room s" using S by auto
  obtain s' where s': "hashset_add s pid (h_rng m) = Some (s', h_rng m)" "hs_clean s'" "hs_set s' = insert pid seen" "k \<le> hs_room s'"
    using hs.add_member [OF s(2), of pid "h_rng m"] s(3,4) by auto
  obtain P R m' where u: "h_pe m a = Some P" "pe_getresource P = Some R" "res_wf R" "rnum R = n"
    "pe_update m a (Some cap) (Some use) = Some m'" "sys_ok m' cs" "uniform m' cs n"
    "\<And>q f. hosts m' q f = hosts m q f" "amounts m' cs = (amounts m cs)(pid \<mapsto> (cap, use))"
    "h_le m' = h_le m" "same_names m m'"
    using update_existing [OF i(1,2) a r] by metis
  have len: "length cap = rnum R" "length use = rnum R" using r u(4) by (auto simp: report_ok_def)
  note ch = has_changed_eq [OF u(3) len, unfolded u(4)]
  show ?thesis
  proof (cases "capacity R \<noteq> cap \<or> usage R \<noteq> use")
    case True
    let ?su = "su\<lparr>observedPEs := Some s', updatedPEs := vector_append (updatedPEs su) (Some pid)\<rparr>"
    have "report (pid, cap, ovf, use) n (m, cs, su) = Some (m', cs, ?su)"
      using i(3) s s' u a ch True by (simp add: report_def stateupdater_updatePE_def)
    moreover have "pe_session n k (insert pid seen) (m', cs, ?su)" using S s' u(6,7) by (auto simp: sys_idle_def)
    moreover have "world_names (m', cs, ?su) = map (pe_name m) (cs_pes cs)" using same_names_list [OF u(11) i(1) order.refl] by simp
    ultimately show ?thesis using u(8-11) by auto
  next
    case False
    let ?su = "su\<lparr>observedPEs := Some s'\<rparr>"
    have "report (pid, cap, ovf, use) n (m, cs, su) = Some (m, cs, ?su)"
      using i(3) s s' u a ch False by (simp add: report_def stateupdater_updatePE_def)
    moreover have "pe_session n k (insert pid seen) (m, cs, ?su)" using S s' by (auto simp: sys_idle_def)
    moreover have "amounts m cs pid = Some (cap, use)"
      using a u(1,2) False by (simp add: amounts_def pe_amounts_def pe_getresource_def)
    then have "(amounts m cs)(pid \<mapsto> (cap, use)) = amounts m cs" by (simp add: fun_upd_idem)
    ultimately show ?thesis by auto
  qed
qed

lemma report_new:
  assumes S: "pe_session n (Suc k) seen (m, cs, su)" and r: "report_ok n (pid, cap, ovf, use)"
    and a: "cloudsystem_getPE cs pid = None"
  shows "\<exists>w'. report (pid, cap, ovf, use) n (m, cs, su) = Some w' \<and> pe_session n k (insert pid seen) w' \<and>
    world_amounts w' = (amounts m cs)(pid \<mapsto> (cap, use)) \<and> world_gen w' = gen su \<and> le_frame (m, cs, su) w' \<and>
    world_names w' = map (pe_name m) (cs_pes cs) @ [pid]"
proof -
  have i: "sys_ok m cs" "uniform m cs n" "started su" "hm_clean (pemap cs)" "0 < hm_room (pemap cs)"
    using S by (auto simp: sys_idle_def)
  obtain s where s: "observedPEs su = Some s" "hs_clean s" "hs_set s = seen" "Suc k \<le> hs_room s" using S by auto
  obtain s' where s': "hashset_add s pid (h_rng m) = Some (s', h_rng m)" "hs_clean s'" "hs_set s' = insert pid seen" "k \<le> hs_room s'"
    using hs.add_member [OF s(2), of pid "h_rng m"] s(3,4) by auto
  obtain R p m1 cs' where u: "resource_create n cap ovf = Some (R\<lparr>usage := replicate n 0\<rparr>)"
    "resource_setusage (R\<lparr>usage := replicate n 0\<rparr>) use = Some R"
    "pe_create m pid (Some R) = (p, m1)" "cloudsystem_addPE m1 cs (Some p) = Some (m1, cs')"
    "sys_ok m1 cs'" "uniform m1 cs' n" "hm_clean (pemap cs')" "hm_room (pemap cs) - 1 \<le> hm_room (pemap cs')"
    "\<And>q f. hosts m1 q f = hosts m q f" "amounts m1 cs' = (amounts m cs)(pid \<mapsto> (cap, use))" "ismodified cs'"
    "cs_pes cs' = cs_pes cs @ [p]" "h_le m1 = h_le m" "same_names m m1"
    using update_new [OF i(1,2) a r i(4,5)] by metis
  let ?su = "su\<lparr>observedPEs := Some s', addedPEs := vector_append (addedPEs su) (Some pid)\<rparr>"
  have "report (pid, cap, ovf, use) n (m, cs, su) = Some (m1, cs', ?su)"
    using i(3) s s' u(1-4) a by (simp add: report_def stateupdater_updatePE_def)
  moreover have "pe_session n k (insert pid seen) (m1, cs', ?su)"
    using S s' u(5-8,11,12) by (auto simp: sys_idle_def)
  moreover have "pe_name m1 p = pid" using u(3) by (auto simp: pe_create_def new_pe_def pe_name_def)
  then have "world_names (m1, cs', ?su) = map (pe_name m) (cs_pes cs) @ [pid]" using same_names_list [OF u(14) i(1) order.refl] u(12) by simp
  ultimately show ?thesis using u(9,10,12-14) by auto
qed

lemma report_step:
  assumes "pe_session n (Suc k) seen w" "report_ok n r"
  shows "\<exists>w'. report r n w = Some w' \<and> pe_session n k (insert (fst r) seen) w' \<and>
    world_amounts w' = (world_amounts w)(fst r \<mapsto> (fst (snd r), snd (snd (snd r)))) \<and> world_gen w' = world_gen w \<and> le_frame w w' \<and>
    world_names w' = note_name (fst r) (world_names w)"
proof -
  obtain m cs su pid cap ovf use where e: "w = (m, cs, su)" "r = (pid, cap, ovf, use)" by (metis prod_cases4 prod_cases3)
  have ok: "sys_ok m cs" using assms(1) by (simp add: e sys_idle_def)
  show ?thesis
  proof (cases "cloudsystem_getPE cs pid")
    case None
    then have "pid \<notin> set (world_names w)" using getPE_None_iff [OF ok] by (auto simp: e)
    then show ?thesis using report_new [of n k seen m cs su pid cap ovf use] None assms by (simp add: e note_name_def)
  next
    case (Some p)
    then have "pid \<in> set (world_names w)" using getPE_Some_iff [OF ok] by (auto simp: e)
    then show ?thesis using report_existing [of n k seen m cs su pid cap ovf use] Some assms by (simp add: e note_name_def)
  qed
qed

lemma reports_step:
  assumes "pe_session n k seen w" "length rs \<le> k" "\<forall>r\<in>set rs. report_ok n r"
  shows "\<exists>w'. for_each (\<lambda>r. report r n) rs w = Some w' \<and> pe_session n (k - length rs) (seen \<union> fst ` set rs) w' \<and>
    world_amounts w' = world_amounts w ++ reported rs \<and> world_gen w' = world_gen w \<and> le_frame w w' \<and>
    world_names w' = fold note_name (map fst rs) (world_names w)"
  using assms
proof (induction rs arbitrary: k seen w)
  case Nil
  then show ?case by (simp add: reported_def)
next
  case (Cons r rs)
  then obtain k' where k: "k = Suc k'" by (cases k) auto
  obtain w1 where w1: "report r n w = Some w1" "pe_session n k' (insert (fst r) seen) w1"
    "world_amounts w1 = (world_amounts w)(fst r \<mapsto> (fst (snd r), snd (snd (snd r))))" "world_gen w1 = world_gen w" "le_frame w w1"
    "world_names w1 = note_name (fst r) (world_names w)"
    using report_step [of n k' seen w r] Cons.prems k by auto
  obtain w' where w': "for_each (\<lambda>r. report r n) rs w1 = Some w'"
    "pe_session n (k' - length rs) (insert (fst r) seen \<union> fst ` set rs) w'"
    "world_amounts w' = world_amounts w1 ++ reported rs" "world_gen w' = world_gen w1" "le_frame w1 w'"
    "world_names w' = fold note_name (map fst rs) (world_names w1)"
    using Cons.IH [OF w1(2)] Cons.prems k by auto
  have "world_amounts w' = world_amounts w ++ reported (r # rs)"
    unfolding w'(3) w1(3) by (cases r) (auto simp: reported_def fun_eq_iff map_add_def split: option.split)
  then show ?case using w1 w' k le_frame_trans [OF w1(5) w'(5)] by auto
qed

text \<open>A session in which no LE is hosted.\<close>

definition no_les :: "mem \<Rightarrow> bool" where
  "no_les m \<longleftrightarrow> (\<forall>p e. \<not> hosts m p e)"

definition idle_ok :: "nat \<Rightarrow> mem \<Rightarrow> cloudsystem \<Rightarrow> bool" where
  "idle_ok n m cs \<longleftrightarrow> sys_idle n m cs \<and> no_les m"

fun no_le_session :: "world \<Rightarrow> bool" where
  "no_le_session (m, cs, su) \<longleftrightarrow> no_les m \<and> observedLEs su \<noteq> None \<and> lemap su = Some (fresh_table TABLE_STARTSIZE) \<and>
     newplacements su = Some (fresh_table TABLE_STARTSIZE)"

lemma no_le_session_frame: "le_frame w w' \<Longrightarrow> no_le_session w \<Longrightarrow> no_le_session w'"
  by (cases w; cases w') (auto simp: no_les_def)

subsection \<open>Opening\<close>

lemma for_each_idle: "(\<And>i. i \<in> set is \<Longrightarrow> f i s = Some s) \<Longrightarrow> for_each f is s = Some s"
  by (induction "is") auto

lemma fill_lemap_no_les:
  assumes ok: "sys_ok m cs" and none: "no_les m"
  shows "fill_lemap m cs h = Some (h, m)"
proof -
  obtain v where v: "pes cs = Some v" "vec_ok v" "None \<notin> set (vec_list v)" using sys_okD(2) [OF ok] by blast
  have "(case (h, m) of (h, m) \<Rightarrow>
      do { pei \<leftarrow> vector_get v (int i); P \<leftarrow> h_pe m pei;
           let les = pe_gethostedLE P;
           for_each (\<lambda>j (h, m). do { lej \<leftarrow> vector_get les (int j); E \<leftarrow> h_le m lej;
                (h, r) \<leftarrow> hashmap_insert h (Some lej) (le_getname E) (h_rng m); Some (h, m\<lparr>h_rng := r\<rparr>) })
             [0..<vector_getsize les] (h, m) }) = Some (h, m)" if i: "i \<in> set [0..<vector_getsize v]" for i
  proof -
    have len: "i < length (cs_pes cs)" using i v by simp
    note get = vec_getPE [OF ok v(1) len]
    obtain P where P: "h_pe m (cs_pes cs ! i) = Some P" using sys_okD(5) [OF ok nth_mem [OF len]] by blast
    note Pok = pe_okD [OF heap_okD(1) [OF sys_okD(1) [OF ok] P]]
    have "vec_list (hostedLE P) = []"
    proof (rule ccontr)
      assume "vec_list (hostedLE P) \<noteq> []"
      then obtain x where x: "x \<in> set (vec_list (hostedLE P))" by (meson list.set_sel(1))
      then obtain e where "x = Some e" using Pok(3) by (metis option.exhaust)
      then have "hosts m (cs_pes cs ! i) e" using x P by (auto simp: hosts_def)
      then show False using none by (simp add: no_les_def)
    qed
    then show ?thesis using get P Pok(1) by (simp add: pe_gethostedLE_def)
  qed
  then show ?thesis
    unfolding fill_lemap_def cloudsystem_getPEs_def v(1) bind.bind_lunit by (rule for_each_idle)
qed

text \<open>The map of PEs has room for as many reports as the default table size leaves, unless PEs were added
  or removed since it was built.\<close>

lemma idle_room: "sys_idle n m cs \<Longrightarrow> \<not> ismodified cs \<Longrightarrow> length (cs_pes cs) + k \<le> 1021 \<Longrightarrow> k \<le> hm_room (pemap cs)"
  by (auto simp: sys_idle_def)

lemma start_step:
  assumes idle: "sys_idle n m cs" "\<not> started su" and g: "gen su < g"
    and k: "k \<le> hm_room (pemap cs)" "length (cs_pes cs) + k \<le> 1021"
    and fill: "fill_lemap m cs (fresh_table TABLE_STARTSIZE) = Some (lm, m)"
  obtains su' where "stateupdater_start (m, cs, su) g = Some (True, m, cs, su')" "pe_session n k {} (m, cs, su')" "gen su' = g"
    "observedLEs su' = Some \<lparr>set_map = fresh_table TABLE_STARTSIZE\<rparr>" "lemap su' = Some lm"
    "newplacements su' = Some (fresh_table TABLE_STARTSIZE)"
proof -
  let ?su = "su\<lparr>started := True, gen := g, addedPEs := vector_clear (addedPEs su), deletedPEs := vector_clear (deletedPEs su),
     updatedPEs := vector_clear (updatedPEs su), addedLEs := vector_clear (addedLEs su),
     deletedLEs := vector_clear (deletedLEs su), updatedLEs := vector_clear (updatedLEs su),
     observedPEs := Some \<lparr>set_map = fresh_table TABLE_STARTSIZE\<rparr>, observedLEs := Some \<lparr>set_map = fresh_table TABLE_STARTSIZE\<rparr>,
     lemap := Some lm, newplacements := Some (fresh_table TABLE_STARTSIZE)\<rparr>"
  have "stateupdater_start (m, cs, su) g = Some (True, m, cs, ?su)"
    using g idle(2) fill by (simp add: stateupdater_start_def not_le)
  moreover have "pe_session n k {} (m, cs, ?su)" using idle(1) k by simp
  ultimately show thesis using that [of ?su] by simp
qed

subsection \<open>Closing\<close>

lemma filter_drop_step:
  assumes "distinct ps" "i < length ps"
  shows "P (ps ! i) \<Longrightarrow> filter (\<lambda>q. P q \<or> q \<in> set (drop i ps)) ps = filter (\<lambda>q. P q \<or> q \<in> set (drop (Suc i) ps)) ps"
    "\<not> P (ps ! i) \<Longrightarrow> remove1 (ps ! i) (filter (\<lambda>q. P q \<or> q \<in> set (drop i ps)) ps) = filter (\<lambda>q. P q \<or> q \<in> set (drop (Suc i) ps)) ps"
proof -
  have dr: "drop i ps = ps ! i # drop (Suc i) ps" using assms(2) by (simp add: Cons_nth_drop_Suc)
  then have "distinct (ps ! i # drop (Suc i) ps)" using assms(1) by (metis distinct_drop)
  then have nin: "ps ! i \<notin> set (drop (Suc i) ps)" by simp
  show "filter (\<lambda>q. P q \<or> q \<in> set (drop i ps)) ps = filter (\<lambda>q. P q \<or> q \<in> set (drop (Suc i) ps)) ps" if "P (ps ! i)"
    using that unfolding dr by (intro filter_cong) auto
  show "remove1 (ps ! i) (filter (\<lambda>q. P q \<or> q \<in> set (drop i ps)) ps) = filter (\<lambda>q. P q \<or> q \<in> set (drop (Suc i) ps)) ps" if "\<not> P (ps ! i)"
    using that nin assms(1) unfolding dr by (simp add: distinct_remove1_removeAll removeAll_filter_not_eq) (intro filter_cong, auto)
qed

definition stop_body :: "nat option list \<Rightarrow> nat \<Rightarrow> world \<Rightarrow> world option" where
  "stop_body allpes i = (\<lambda>(m, cs, su).
     do { pei \<leftarrow> rd allpes i; pei \<leftarrow> pei; P \<leftarrow> h_pe m pei;
          obs \<leftarrow> observedPEs su;
          if \<not> hashset_find obs (pe_getname P)
          then do { (_, m, cs) \<leftarrow> cloudsystem_remove_PE m cs (pe_getname P);
                    Some (m, cs, su\<lparr>deletedPEs := vector_append (deletedPEs su) (Some (pe_getname P))\<rparr>) }
          else Some (m, cs, su) })"

fun stop_inv :: "mem \<Rightarrow> cloudsystem \<Rightarrow> stateupdater \<Rightarrow> string set \<Rightarrow> nat \<Rightarrow> world \<Rightarrow> bool" where
  "stop_inv m cs su seen i (m', cs', su') \<longleftrightarrow> sys_ok m' cs' \<and> same_frame m m' \<and>
     (\<forall>q f. hosts m' q f \<longleftrightarrow> hosts m q f \<and> (q \<in> set (cs_pes cs) \<longrightarrow> q \<in> set (cs_pes cs'))) \<and>
     cs_pes cs' = filter (\<lambda>p. pe_name m p \<in> seen \<or> p \<in> set (drop i (cs_pes cs))) (cs_pes cs) \<and>
     (\<forall>p\<in>set (cs_pes cs'). h_pe m' p = h_pe m p) \<and> (\<exists>d. su' = su\<lparr>deletedPEs := d\<rparr>) \<and> (ismodified cs' \<or> cs' = cs)"

lemma stop_body_step:
  assumes ok: "sys_ok m cs" and s: "observedPEs su = Some s" "hs_clean s" "hs_set s = seen"
    and i: "i < length (cs_pes cs)" and I: "stop_inv m cs su seen i w"
  shows "\<exists>w'. stop_body (map Some (cs_pes cs)) i w = Some w' \<and> stop_inv m cs su seen (Suc i) w'"
proof -
  let ?ps = "cs_pes cs" and ?p = "cs_pes cs ! i"
  have dist: "distinct ?ps" by (rule sys_okD(4) [OF ok])
  note F = filter_drop_step [OF dist i, of "\<lambda>p. pe_name m p \<in> seen"]
  obtain m1 cs1 su1 where w: "w = (m1, cs1, su1)" by (metis prod_cases3)
  with I obtain d where I1: "sys_ok m1 cs1" "same_frame m m1"
    "\<And>q f. hosts m1 q f \<longleftrightarrow> hosts m q f \<and> (q \<in> set ?ps \<longrightarrow> q \<in> set (cs_pes cs1))"
    "cs_pes cs1 = filter (\<lambda>p. pe_name m p \<in> seen \<or> p \<in> set (drop i ?ps)) ?ps" "\<And>p. p \<in> set (cs_pes cs1) \<Longrightarrow> h_pe m1 p = h_pe m p"
    "su1 = su\<lparr>deletedPEs := d\<rparr>" "ismodified cs1 \<or> cs1 = cs" by auto
  have "?p \<in> set (drop i ?ps)" using i by (metis Cons_nth_drop_Suc list.set_intros(1))
  then have mem: "?p \<in> set (cs_pes cs1)" unfolding I1(4) using i by simp
  obtain P where P: "h_pe m ?p = Some P" using sys_okD(5) [OF ok nth_mem [OF i]] by blast
  have P1: "h_pe m1 ?p = Some P" using I1(5) [OF mem] P by simp
  have name: "pe_label P = pe_name m ?p" "pe_name m1 ?p = pe_name m ?p" using P P1 by (simp_all add: pe_name_def)
  have find: "hashset_find s (pe_label P) \<longleftrightarrow> pe_name m ?p \<in> seen" using hs.find_member [OF s(2)] s(3) name(1) by simp
  show ?thesis
  proof (cases "pe_name m ?p \<in> seen")
    case True
    then have "stop_body (map Some ?ps) i w = Some w"
      using i P1 s(1) find I1(6) by (simp add: stop_body_def w pe_getname_def)
    moreover have "stop_inv m cs su seen (Suc i) w" using I F(1) [OF True] by (simp add: w)
    ultimately show ?thesis by blast
  next
    case False
    have "cloudsystem_getPE cs1 (pe_label P) = Some ?p" unfolding getPE_Some_iff [OF I1(1)] using mem name by simp
    then obtain m2 cs2 where r: "cloudsystem_remove_PE m1 cs1 (pe_label P) = Some (Some ?p, m2, cs2)" "sys_ok m2 cs2" "same_frame m1 m2"
      "cs_pes cs2 = remove1 ?p (cs_pes cs1)" "\<And>q f. hosts m2 q f \<longleftrightarrow> hosts m1 q f \<and> q \<noteq> ?p"
      "\<And>q. q \<noteq> ?p \<Longrightarrow> h_pe m2 q = h_pe m1 q" "ismodified cs2"
      using removePE_step [OF I1(1)] by metis
    let ?w = "(m2, cs2, su\<lparr>deletedPEs := vector_append d (Some (pe_label P))\<rparr>)"
    have "stop_body (map Some ?ps) i w = Some ?w"
      using i P1 s(1) find I1(6) False r(1) by (simp add: stop_body_def w pe_getname_def)
    moreover have "cs_pes cs2 = filter (\<lambda>p. pe_name m p \<in> seen \<or> p \<in> set (drop (Suc i) ?ps)) ?ps"
      unfolding r(4) I1(4) by (rule F(2) [OF False])
    moreover have "same_frame m m2" by (rule same_frame_trans [OF I1(2) r(3)])
    moreover have "h_pe m2 p = h_pe m p" if "p \<in> set (cs_pes cs2)" for p
    proof -
      have "p \<in> set (cs_pes cs1)" "p \<noteq> ?p" using that sys_okD(4) [OF I1(1)] by (auto simp: r(4))
      then show ?thesis using r(6) I1(5) by simp
    qed
    moreover have "hosts m2 q f \<longleftrightarrow> hosts m q f \<and> (q \<in> set ?ps \<longrightarrow> q \<in> set (cs_pes cs2))" for q f
      using I1(3) r(4,5) sys_okD(4) [OF I1(1)] nth_mem [OF i] by auto
    ultimately have "stop_inv m cs su seen (Suc i) ?w" using r(2,7) by auto
    then show ?thesis using \<open>stop_body (map Some ?ps) i w = Some ?w\<close> by blast
  qed
qed

lemma stop_pes_step:
  assumes S: "pe_session n k seen (m, cs, su)"
  obtains m' cs' su' where "stop_pes (m, cs, su) = Some (m', cs', su')" "stop_inv m cs su seen (length (cs_pes cs)) (m', cs', su')"
proof -
  have ok: "sys_ok m cs" using S by (simp add: sys_idle_def)
  obtain v where v: "pes cs = Some v" "vec_ok v" "None \<notin> set (vec_list v)" using sys_okD(2) [OF ok] by blast
  obtain s where s: "observedPEs su = Some s" "hs_clean s" "hs_set s = seen" using S by auto
  have arr: "vec_list v = map Some (cs_pes cs)" using v map_Some_the [OF v(3)] by simp
  have "stop_inv m cs su seen 0 (m, cs, su)"
    using ok by (auto intro: exI [of _ "deletedPEs su"])
  then have "\<exists>w'. for_each (stop_body (map Some (cs_pes cs))) [0..<length (cs_pes cs)] (m, cs, su) = Some w' \<and>
      stop_inv m cs su seen (length (cs_pes cs)) w'"
    using stop_body_step [OF ok s] by (rule for_each_upt_total)
  then obtain m' cs' su' where w: "for_each (stop_body (map Some (cs_pes cs))) [0..<length (cs_pes cs)] (m, cs, su) = Some (m', cs', su')"
    "stop_inv m cs su seen (length (cs_pes cs)) (m', cs', su')" by (metis prod_cases3)
  have "stop_pes (m, cs, su) = for_each (stop_body (map Some (cs_pes cs))) [0..<length (cs_pes cs)] (m, cs, su)"
    unfolding arr [symmetric] using v(1) getnumPEs_eq [OF ok]
    by (simp add: stop_pes_def stop_body_def cloudsystem_getPEs_def)
  then show thesis using that w by simp
qed

lemma stop_les_fresh: "lemap su = Some (fresh_table t) \<Longrightarrow> stop_les (m, cs, su) = Some (m, cs, su)"
  by (simp add: stop_les_def hashmap_getvalues_def fresh_table_def)

lemma stop_placements_fresh: "newplacements su = Some (fresh_table t) \<Longrightarrow> stop_placements (m, cs, su) = Some (m, cs, su)"
  by (simp add: stop_placements_def hashmap_getkeys_def fresh_table_def)

lemma same_but_index_amounts: "same_but_index m m' \<Longrightarrow> pe_amounts m' a = pe_amounts m a"
  using same_but_indexD(1) [of m m' a] same_but_indexD(6) [of m m' a]
  by (cases "h_pe m a") (auto simp: pe_amounts_def)

lemma amounts_cong:
  assumes "sys_ok m cs" "sys_ok m' cs'" "\<And>k a. cloudsystem_getPE cs' k = Some a \<Longrightarrow> k \<in> S \<and> cloudsystem_getPE cs k = Some a"
    and "\<And>k a. k \<in> S \<Longrightarrow> cloudsystem_getPE cs k = Some a \<Longrightarrow> cloudsystem_getPE cs' k = Some a"
    and "\<And>k a. cloudsystem_getPE cs' k = Some a \<Longrightarrow> pe_amounts m' a = pe_amounts m a"
  shows "amounts m' cs' = amounts m cs |` S"
proof
  fix k show "amounts m' cs' k = (amounts m cs |` S) k"
  proof (cases "cloudsystem_getPE cs' k")
    case None
    then have "k \<notin> S \<or> cloudsystem_getPE cs k = None" using assms(4) by (metis option.distinct(1) option.exhaust)
    then show ?thesis using None by (auto simp: amounts_def restrict_map_def)
  next
    case (Some a)
    then show ?thesis using assms(3) [OF Some] assms(5) [OF Some] by (simp add: amounts_def)
  qed
qed

text \<open>The first half of closing removes the PEs that were not reported, and the LEs they host with them.\<close>

lemma reset_uniform:
  assumes "same_but_index m1 m2" "uniform m cs n" "set ps \<subseteq> set (cs_pes cs)" "cs_pes cs2 = ps" "\<And>p. p \<in> set ps \<Longrightarrow> h_pe m1 p = h_pe m p"
  shows "uniform m2 cs2 n"
  unfolding uniform_def
proof (intro ballI allI impI)
  fix p P R
  assume p: "p \<in> set (cs_pes cs2)" "h_pe m2 p = Some P" "pe_resource P = Some R"
  obtain P0 where P0: "h_pe m1 p = Some P0" "pe_resource P = pe_resource P0"
    using same_but_indexD(1,6) [OF assms(1), of p] p(2) by (cases "h_pe m1 p") auto
  then show "rnum R = n" using assms(2-5) p(1,3) by (auto simp: uniform_def)
qed

lemma stop_pes_reset:
  assumes S: "pe_session n k seen (m, cs, su)"
  obtains m1 cs1 d m2 cs2 where "stop_pes (m, cs, su) = Some (m1, cs1, su\<lparr>deletedPEs := d\<rparr>)"
    "cloudsystem_resetpes m1 cs1 = Some (m2, cs2)" "sys_idle n m2 cs2" "\<not> ismodified cs2"
    "cs_pes cs2 = filter (\<lambda>p. pe_name m p \<in> seen) (cs_pes cs)" "amounts m2 cs2 = amounts m cs |` seen" "same_names m m2"
    "\<And>a. map_option le_id (h_le m2 a) = map_option le_id (h_le m a)"
    "\<And>q f. hosts m2 q f \<longleftrightarrow> hosts m q f \<and> (q \<in> set (cs_pes cs) \<longrightarrow> pe_name m q \<in> seen)"
proof -
  have ok: "sys_ok m cs" "uniform m cs n" "hm_clean (pemap cs)" "length (cs_pes cs) \<le> 1021"
    "ismodified cs \<or> 1021 - length (cs_pes cs) \<le> hm_room (pemap cs)" using S by (auto simp: sys_idle_def)
  obtain m1 cs1 su1 where s: "stop_pes (m, cs, su) = Some (m1, cs1, su1)"
    and I: "stop_inv m cs su seen (length (cs_pes cs)) (m1, cs1, su1)" using stop_pes_step [OF S] by metis
  from I obtain d where I1: "sys_ok m1 cs1" "same_frame m m1" "cs_pes cs1 = filter (\<lambda>p. pe_name m p \<in> seen) (cs_pes cs)"
    "\<And>p. p \<in> set (cs_pes cs1) \<Longrightarrow> h_pe m1 p = h_pe m p" "su1 = su\<lparr>deletedPEs := d\<rparr>" "ismodified cs1 \<or> cs1 = cs"
    "\<And>q f. hosts m1 q f \<longleftrightarrow> hosts m q f \<and> (q \<in> set (cs_pes cs) \<longrightarrow> q \<in> set (cs_pes cs1))" by auto
  have len: "length (cs_pes cs1) \<le> 1021" unfolding I1(3) using ok(4) length_filter_le order_trans by blast
  obtain m2 cs2 where r: "cloudsystem_resetpes m1 cs1 = Some (m2, cs2)" "sys_ok m2 cs2" "hm_clean (pemap cs2)"
    "1021 - length (cs_pes cs2) \<le> hm_room (pemap cs2)" "cs_pes cs2 = cs_pes cs1" "same_but_index m1 m2" "\<not> ismodified cs2"
  proof (cases "ismodified cs1")
    case True
    obtain v where v: "pes cs1 = Some v" "vec_ok v" "None \<notin> set (vec_list v)" using sys_okD(2) [OF I1(1)] by blast
    have "pes_ok m1 (cs_pes cs1)" using I1(1) by (simp add: sys_ok_def)
    then show thesis using resetpes_step [OF sys_okD(1) [OF I1(1)] v _ len True] that by metis
  next
    case False
    then have "cs1 = cs" "cloudsystem_resetpes m1 cs1 = Some (m1, cs1)" using I1(6) by (auto simp: cloudsystem_resetpes_def)
    then show thesis using that [of m1 cs1] I1(1) ok(3,5) False by simp
  qed
  have sn: "same_names m m2"
    by (rule same_names_trans [OF same_frame_names [OF I1(2)] same_but_index_names [OF r(6)]])
  have pes2: "cs_pes cs2 = filter (\<lambda>p. pe_name m p \<in> seen) (cs_pes cs)" using r(5) I1(3) by simp
  have names: "pe_name m2 p = pe_name m p" if "p \<in> set (cs_pes cs)" for p
    using same_names_pe_name [OF sn] sys_okD(5) [OF ok(1) that] by blast
  have am: "pe_amounts m2 p = pe_amounts m p" if "p \<in> set (cs_pes cs2)" for p
    using same_but_index_amounts [OF r(6)] I1(4) that r(5) by (simp add: pe_amounts_def)
  have "amounts m2 cs2 = amounts m cs |` seen"
  proof (rule amounts_cong [OF ok(1) r(2)])
    fix q a assume "cloudsystem_getPE cs2 q = Some a"
    then have a: "a \<in> set (cs_pes cs2)" "pe_name m2 a = q" using getPE_Some_iff [OF r(2)] by auto
    then show "q \<in> seen \<and> cloudsystem_getPE cs q = Some a"
      using pes2 names getPE_Some_iff [OF ok(1)] by auto
    show "pe_amounts m2 a = pe_amounts m a" by (rule am [OF a(1)])
  next
    fix q a assume q: "q \<in> seen" "cloudsystem_getPE cs q = Some a"
    then show "cloudsystem_getPE cs2 q = Some a"
      using pes2 names getPE_Some_iff [OF ok(1)] getPE_Some_iff [OF r(2)] by auto
  qed
  moreover have "uniform m2 cs2 n" by (rule reset_uniform [OF r(6) ok(2) _ r(5) I1(4)]) (auto simp: I1(3))
  moreover have "map_option le_id (h_le m2 a) = map_option le_id (h_le m a)" for a
    using I1(2) same_but_indexD(2) [OF r(6)] by (simp add: same_frame_def)
  moreover have "hosts m2 q f \<longleftrightarrow> hosts m q f \<and> (q \<in> set (cs_pes cs) \<longrightarrow> pe_name m q \<in> seen)" for q f
    unfolding same_but_indexD(5) [OF r(6)] I1(7) I1(3) by auto
  moreover have "sys_idle n m2 cs2" using r(2-4) calculation(2) by (simp add: sys_idle_def)
  ultimately show thesis using that [of m1 cs1 d m2 cs2] s r(1,7) I1(5) sn pes2 by blast
qed

text \<open>Closing a session without LEs restores the idle state.\<close>

lemma stop_step:
  assumes S: "pe_session n k seen (m, cs, su)" "no_le_session (m, cs, su)"
  shows "\<exists>m' cs' su'. stateupdater_stop (m, cs, su) = Some (m', cs', su') \<and> idle_ok n m' cs' \<and> \<not> ismodified cs' \<and>
    \<not> started su' \<and> gen su' = gen su \<and> amounts m' cs' = amounts m cs |` seen \<and>
    map (pe_name m') (cs_pes cs') = filter (\<lambda>k. k \<in> seen) (map (pe_name m) (cs_pes cs))"
proof -
  obtain m1 cs1 d m2 cs2 where r: "stop_pes (m, cs, su) = Some (m1, cs1, su\<lparr>deletedPEs := d\<rparr>)"
    "cloudsystem_resetpes m1 cs1 = Some (m2, cs2)" "sys_idle n m2 cs2" "\<not> ismodified cs2" "amounts m2 cs2 = amounts m cs |` seen"
    "\<And>q f. hosts m2 q f \<longleftrightarrow> hosts m q f \<and> (q \<in> set (cs_pes cs) \<longrightarrow> pe_name m q \<in> seen)"
    "cs_pes cs2 = filter (\<lambda>p. pe_name m p \<in> seen) (cs_pes cs)" "same_names m m2"
    using stop_pes_reset [OF S(1)] by metis
  let ?su1 = "su\<lparr>deletedPEs := d\<rparr>"
  let ?su = "?su1\<lparr>observedPEs := None, observedLEs := None, lemap := None, newplacements := None, started := False\<rparr>"
  have "stop_les (m2, cs2, ?su1) = Some (m2, cs2, ?su1)" "stop_placements (m2, cs2, ?su1) = Some (m2, cs2, ?su1)"
    using S(2) by (simp_all add: stop_les_fresh stop_placements_fresh)
  then have "stateupdater_stop (m, cs, su) = Some (m2, cs2, ?su)"
    using S(1) r(1,2) by (simp add: stateupdater_stop_def)
  moreover have "no_les m2" using S(2) r(6) by (simp add: no_les_def)
  moreover have "map (pe_name m2) (cs_pes cs2) = filter (\<lambda>k. k \<in> seen) (map (pe_name m) (cs_pes cs))"
    using same_names_list [OF r(8), of cs "cs_pes cs2"] S(1) by (simp add: r(7) sys_idle_def filter_map comp_def)
  ultimately show ?thesis using r(3-5) by (auto simp: idle_ok_def)
qed

subsection \<open>Properties of the state updater\<close>

text \<open>A whole session: start, the reports in order, stop.\<close>

definition run_session :: "int \<Rightarrow> nat \<Rightarrow> pe_report list \<Rightarrow> world \<Rightarrow> (bool \<times> world) option" where
  "run_session g n rs w =
     do { (b, w) \<leftarrow> stateupdater_start w g; w \<leftarrow> for_each (\<lambda>r. report r n) rs w; w \<leftarrow> stateupdater_stop w; Some (b, w) }"

lemma session_step:
  assumes "idle_ok n m cs" "\<not> ismodified cs" "\<not> started su" "gen su < g"
    and "length (cs_pes cs) + length rs \<le> 1021" "\<forall>r\<in>set rs. report_ok n r"
  shows "\<exists>m' cs' su'. run_session g n rs (m, cs, su) = Some (True, m', cs', su') \<and>
    amounts m' cs' = reported rs \<and> idle_ok n m' cs' \<and> \<not> ismodified cs' \<and> \<not> started su' \<and> gen su' = g \<and>
    map (pe_name m') (cs_pes cs') = filter (\<lambda>k. k \<in> fst ` set rs) (fold note_name (map fst rs) (map (pe_name m) (cs_pes cs)))"
proof -
  have ok: "sys_idle n m cs" "sys_ok m cs" "no_les m" using assms(1) by (auto simp: idle_ok_def sys_idle_def)
  obtain su1 where s1: "stateupdater_start (m, cs, su) g = Some (True, m, cs, su1)" "pe_session n (length rs) {} (m, cs, su1)" "gen su1 = g"
    "no_le_session (m, cs, su1)"
    by (rule start_step [OF ok(1) assms(3,4) idle_room [OF ok(1) assms(2,5)] assms(5) fill_lemap_no_les [OF ok(2,3)]]) (use ok(3) in simp)
  obtain m2 cs2 su2 where s2: "for_each (\<lambda>r. report r n) rs (m, cs, su1) = Some (m2, cs2, su2)"
    "pe_session n 0 (fst ` set rs) (m2, cs2, su2)" "amounts m2 cs2 = amounts m cs ++ reported rs" "gen su2 = g"
    "le_frame (m, cs, su1) (m2, cs2, su2)" "map (pe_name m2) (cs_pes cs2) = fold note_name (map fst rs) (map (pe_name m) (cs_pes cs))"
    using reports_step [OF s1(2) order.refl assms(6)] s1(3) by auto
  obtain m3 cs3 su3 where s3: "stateupdater_stop (m2, cs2, su2) = Some (m3, cs3, su3)" "idle_ok n m3 cs3" "\<not> ismodified cs3"
    "\<not> started su3" "gen su3 = g" "amounts m3 cs3 = amounts m2 cs2 |` (fst ` set rs)"
    "map (pe_name m3) (cs_pes cs3) = filter (\<lambda>k. k \<in> fst ` set rs) (map (pe_name m2) (cs_pes cs2))"
    using stop_step [OF s2(2) no_le_session_frame [OF s2(5) s1(4)]] s2(4) by auto
  have dom: "dom (reported rs) = fst ` set rs"
    by (force simp: reported_def dom_map_of_conv_image_fst image_iff split: prod.splits)
  have "(amounts m cs ++ reported rs) |` (fst ` set rs) = reported rs"
    using dom by (auto simp: fun_eq_iff restrict_map_def map_add_def split: option.splits)
  then show ?thesis using s1(1) s2(1,3,6) s3 by (auto simp: run_session_def)
qed

text \<open>C8: a session refines a simple specification. Whatever PEs the model held before, as long as none of them hosts an
  LE, after \<open>stateupdater_start\<close>, any sequence of \<open>stateupdater_updatePE\<close> reports (with repetitions, in any order)
  and \<open>stateupdater_stop\<close> the model holds exactly the PEs reported, each with the capacity and usage
  of its last report; every call returns, the system is consistent again, and the generation is the
  one of the session. The PEs that were there before come first, in their old order, followed by the new ones in the order
  of their first report. The default table size bounds the number of PEs. With LEs on the PEs, closing the session takes
  the demand of those that are not reported off the usage; that case is the subject of \<open>Placement\<close>.\<close>

theorem session_refines_reports:
  assumes "idle_ok n m cs" "\<not> ismodified cs" "\<not> started su" "gen su < g"
    and "length (cs_pes cs) + length rs \<le> 1021" "\<forall>r\<in>set rs. report_ok n r"
  shows "\<exists>m' cs' su'. run_session g n rs (m, cs, su) = Some (True, m', cs', su') \<and>
    amounts m' cs' = reported rs \<and> idle_ok n m' cs' \<and> \<not> ismodified cs' \<and> \<not> started su' \<and> gen su' = g \<and>
    map (pe_name m') (cs_pes cs') = filter (\<lambda>k. k \<in> fst ` set rs) (fold note_name (map fst rs) (map (pe_name m) (cs_pes cs)))"
  using session_step [OF assms] .

lemma sample_idle: "idle_ok 2 \<lparr>h_le = Map.empty, h_pe = Map.empty, h_next = 0, h_rng = (\<lambda>_. 0)\<rparr> sample_cs"
  by (simp add: idle_ok_def sys_idle_def sys_ok_def heap_ok_def hosts_def sample_cs_def cs_pes_def pes_ok_def hm.clean_imp_ok
      name_map_def hm_room_fresh uniform_def no_les_def)

theorem session_refines_reports_witness:
  "\<exists>m' cs' su'. run_session 1 2 [(''n1'', [4, 8], None, [1, 2]), (''n1'', [4, 8], None, [2, 2])]
      (\<lparr>h_le = Map.empty, h_pe = Map.empty, h_next = 0, h_rng = (\<lambda>_. 0)\<rparr>, sample_cs, stateupdater_create) = Some (True, m', cs', su') \<and>
    amounts m' cs' = reported [(''n1'', [4, 8], None, [1, 2]), (''n1'', [4, 8], None, [2, 2])]"
proof -
  have "\<not> ismodified sample_cs" "\<not> started stateupdater_create" "gen stateupdater_create < 1"
    "length (cs_pes sample_cs) + length [(''n1'', [4::int, 8], None :: bool list option, [1::int, 2]), (''n1'', [4, 8], None, [2, 2])] \<le> 1021"
    by (simp_all add: sample_cs_def stateupdater_create_def cs_pes_def)
  moreover have "\<forall>r\<in>set [(''n1'', [4, 8], None, [1, 2]), (''n1'', [4, 8], None, [2, 2])]. report_ok 2 r"
    by (simp add: report_ok_def amounts_ok_def in_s32_def)
  ultimately show ?thesis using session_refines_reports [OF sample_idle] by blast
qed

text \<open>C15: a session whose generation number is not larger than that of the last one is refused: the
  model is untouched, no session is open afterwards, and every report and stop that follows is
  ignored.\<close>

theorem stale_session_ignored:
  assumes "g \<le> gen su"
  shows "stateupdater_start (m, cs, su) g = Some (False, m, cs, su\<lparr>started := False\<rparr>) \<and>
    stateupdater_updatePE (m, cs, su\<lparr>started := False\<rparr>) pid cap ovf use len = Some (m, cs, su\<lparr>started := False\<rparr>) \<and>
    stateupdater_updateLE (m, cs, su\<lparr>started := False\<rparr>) lid hid dem len = Some (m, cs, su\<lparr>started := False\<rparr>) \<and>
    stateupdater_stop (m, cs, su\<lparr>started := False\<rparr>) = Some (m, cs, su\<lparr>started := False\<rparr>)"
  using assms
  by (simp add: stateupdater_start_def stateupdater_updatePE_def stateupdater_updateLE_def stateupdater_stop_def)

theorem stale_session_ignored_witness:
  "stateupdater_start (sample_mem, sample_cs, stateupdater_create) (- 1)
     = Some (False, sample_mem, sample_cs, stateupdater_create\<lparr>started := False\<rparr>)"
  using stale_session_ignored [of "- 1" stateupdater_create sample_mem sample_cs]
  by (simp add: stateupdater_create_def)

end
