(* ===== verification/Objective.thy ===== *)
theory Objective
  imports Cloudsystem
begin

section \<open>Objective functions (system/defs.c, objective/*.c)\<close>

text \<open>
  The value of a system under the three policies: \<open>lbfn\<close> (load balancing), \<open>consfn\<close> (consolidation)
  and \<open>abpfn\<close> (adaptive bin packing). They read the memory and the cloud system and change neither,
  so they are functions to a value; \<^term>\<open>None\<close> is an invalid access or a division by zero. Printing is
  left out.

  The theory shows that the balance is never negative, that the scaled unbalance of loads between 0
  and 1 is between 0 and 1, that it leaves this range for an overloaded PE, that names of objectives
  convert back and forth, and that the values depend on the observable part of the memory only.
\<close>

datatype objective_type =
    LOAD_BALANCE | CONSOLIDATE | MAX_LEVEL_RETURN | ZERO_SYSTEM | ZERO_BALANCE | RES_TOPOLOGY | MULTI_BALANCE
  | A_BINPACK | FIT_PACK | FIT_SPREAD | FIT_PACK_BALANCE | FIT_SPREAD_BALANCE | NETWORK | LOAD_BALANCE_NETWORK

definition defs_objtypeTostring :: "objective_type \<Rightarrow> string" where
  "defs_objtypeTostring t =
     (case t of LOAD_BALANCE \<Rightarrow> ''LOAD_BALANCE'' | CONSOLIDATE \<Rightarrow> ''CONSOLIDATE'' | A_BINPACK \<Rightarrow> ''A_BINPACK'' | _ \<Rightarrow> ''A_BINPACK'')"

definition defs_objtypeFromstring :: "string option \<Rightarrow> objective_type" where
  "defs_objtypeFromstring s =
     (case s of None \<Rightarrow> A_BINPACK
      | Some t \<Rightarrow> if strcmp t ''LOAD_BALANCE'' = 0 then LOAD_BALANCE
                 else if strcmp t ''CONSOLIDATE'' = 0 then CONSOLIDATE
                 else if strcmp t ''A_BINPACK'' = 0 then A_BINPACK else A_BINPACK)"

subsection \<open>Balance measures (objective/commonobj.c)\<close>

datatype commonobj_unbalance_type = UNBALANCE_BASIC | UNBALANCE_STDEV | UNBALANCE_SCALED | UNBALANCE_MIXED

definition commonobj_balance :: "real list \<Rightarrow> nat \<Rightarrow> real option" where
  "commonobj_balance x n = mathhelper_stddev x n"

definition unbalance_basic :: "real list \<Rightarrow> nat \<Rightarrow> real option" where
  "unbalance_basic x n =
     do { val \<leftarrow> for_each (\<lambda>i val. do { v \<leftarrow> rd x i; Some (if v > 0 \<and> v < 1 then dadd val (dsqrt v) else val) }) [0..<n] 0;
          Some (ddiv val (real n)) }"

definition unbalance_stdev :: "real list \<Rightarrow> nat \<Rightarrow> real option" where
  "unbalance_stdev x n = do { val \<leftarrow> mathhelper_stddev x n; let val = min val 1; Some (dsub 1 val) }"

definition scaled_term :: "real \<Rightarrow> real \<Rightarrow> real" where
  "scaled_term avg v =
     (if v < avg then ddiv (dsub avg v) avg else if v > avg then ddiv (dsub v avg) (dsub 1 avg) else 0)"

definition unbalance_scaled :: "real list \<Rightarrow> nat \<Rightarrow> real option" where
  "unbalance_scaled x n =
     do { avg \<leftarrow> mathhelper_average x n;
          if avg \<le> 0 \<or> avg \<ge> 1 then Some 0
          else do {
            sum \<leftarrow> for_each (\<lambda>i sum. do { v \<leftarrow> rd x i;
                     Some (if v \<le> 0 \<and> v \<ge> 1 then dadd sum 1
                           else dadd sum (dmul (scaled_term avg v) (scaled_term avg v))) }) [0..<n] 0;
            let val = ddiv sum (real n);
            let val = dsqrt val;
            Some (dsub 1 val) } }"

definition unbalance_mixed :: "real list \<Rightarrow> nat \<Rightarrow> real option" where
  "unbalance_mixed x n =
     do { (n0, product, xMax) \<leftarrow> for_each (\<lambda>i (n0, product, xMax).
              do { v \<leftarrow> rd x i;
                   Some (if v = 0 then (n0 + 1, product, xMax)
                         else let x1 = min v 1 in (n0, dmul product x1, if x1 > xMax then x1 else xMax)) })
            [0..<n] (0::nat, 1, 0);
          if n0 = n \<or> xMax = 0 then Some 0
          else let v1 = ddiv (of_int (int n - int n0 - 1)) (real n);
                   expn = ddiv 1 (of_int (int n - int n0));
                   v2 = dpow product expn;
                   v2 = ddiv v2 (dmul xMax (real n))
               in Some (dadd v1 v2) }"

definition commonobj_unbalance :: "real list option \<Rightarrow> nat \<Rightarrow> commonobj_unbalance_type \<Rightarrow> real option" where
  "commonobj_unbalance x n t =
     (case x of None \<Rightarrow> Some 0
      | Some x \<Rightarrow> if n = 0 then Some 0
          else (case t of UNBALANCE_BASIC \<Rightarrow> unbalance_basic x n | UNBALANCE_STDEV \<Rightarrow> unbalance_stdev x n
                | UNBALANCE_SCALED \<Rightarrow> unbalance_scaled x n | UNBALANCE_MIXED \<Rightarrow> unbalance_mixed x n))"

subsection \<open>Load balancing and consolidation (objective/lbfn.c, objective/consfn.c)\<close>

text \<open>The loop both functions share: the load of the policy resource on every PE.\<close>

definition pe_loads :: "mem \<Rightarrow> cloudsystem \<Rightarrow> int \<Rightarrow> real list option" where
  "pe_loads m cs index =
     do { v \<leftarrow> cloudsystem_getPEs cs;
          for_each (\<lambda>i u.
            do { r \<leftarrow> resource_at m cs i; R \<leftarrow> r;
                 cap \<leftarrow> rdi (resource_getcapacity R) index;
                 x \<leftarrow> (if cap > 0 then do { y \<leftarrow> rdi (resource_getusage R) index; Some (fdiv (sgl (of_int y)) (sgl (of_int cap))) }
                      else Some 1);
                 wr u i x }) [0..<vector_getsize v] (replicate (vector_getsize v) 0) }"

definition lbfn_getsystemvalue :: "mem \<Rightarrow> cloudsystem option \<Rightarrow> int \<Rightarrow> real option" where
  "lbfn_getsystemvalue m cs index =
     (case cs of None \<Rightarrow> Some 0
      | Some cs \<Rightarrow> do { u \<leftarrow> pe_loads m cs index; value \<leftarrow> commonobj_balance u (length u); Some (sgl value) })"

definition consfn_getsystemvalue :: "mem \<Rightarrow> cloudsystem option \<Rightarrow> int \<Rightarrow> real option" where
  "consfn_getsystemvalue m cs index =
     (case cs of None \<Rightarrow> Some 0
      | Some cs \<Rightarrow> do { u \<leftarrow> pe_loads m cs index; value \<leftarrow> commonobj_unbalance (Some u) (length u) UNBALANCE_SCALED; Some (sgl value) })"

subsection \<open>Adaptive bin packing (objective/abpfn.c)\<close>

definition ABPN_USE_STATISTICS :: bool where "ABPN_USE_STATISTICS = True"

definition ABPN_COMPARE_SCALAR :: bool where "ABPN_COMPARE_SCALAR = True"

text \<open>\<open>Some None\<close> stands for the result \<open>false\<close>, \<open>Some (Some (cov, avg))\<close> for \<open>true\<close> with the two outputs.\<close>

definition abpnf_getvariation_system :: "mem \<Rightarrow> cloudsystem option \<Rightarrow> (matrix \<times> array) option option" where
  "abpnf_getvariation_system mm cs =
     (case cs of None \<Rightarrow> Some None
      | Some cs \<Rightarrow> do {
          let n = cloudsystem_getnumPEs cs;
          m \<leftarrow> cloudsystem_getnumresources mm cs;
          if n = 0 \<or> m = 0 then Some None
          else do {
            let sysM = matrix_create m n;
            u \<leftarrow> for_each (\<lambda>i u.
                  do { r \<leftarrow> resource_at mm cs i;
                       (case r of None \<Rightarrow> Some u
                        | Some R \<Rightarrow> do { util \<leftarrow> resource_getutilization R;
                            for_each (\<lambda>j u. do { x \<leftarrow> rd util j; wr2 u j i x }) [0..<m] u }) }) [0..<n] (matrix_getdata sysM);
            let sysM = sysM\<lparr>m_x := u\<rparr>;
            avg \<leftarrow> matrix_average sysM;
            cov \<leftarrow> matrix_covariance sysM;
            Some (Some (cov, avg)) } })"

definition abpnf_getvariation_demand_history :: "mem \<Rightarrow> cloudsystem option \<Rightarrow> (matrix \<times> array) option option" where
  "abpnf_getvariation_demand_history mm cs =
     (case cs of None \<Rightarrow> Some None
      | Some cs \<Rightarrow>
        (case cloudsystem_getdemandstats cs of None \<Rightarrow> Some None
         | Some dstats \<Rightarrow>
           (case (demandstats_getavg dstats, demandstats_getavg2 dstats) of
              (Some mu, Some mu2) \<Rightarrow> do {
                avgcap \<leftarrow> cloudsystem_getaveragecapacity mm cs;
                (case avgcap of None \<Rightarrow> Some None
                 | Some avgcap \<Rightarrow> do {
                     munorm \<leftarrow> array_clone mu;
                     mu2norm \<leftarrow> matrix_clone mu2;
                     let p = matrix_getnumrows mu2norm;
                     (a, b) \<leftarrow> for_each (\<lambda>i (a, b).
                        do { ci \<leftarrow> rd avgcap i;
                             if ci > 0
                             then do { ai \<leftarrow> rd a i; a \<leftarrow> wr a i (fdiv ai ci);
                                       b \<leftarrow> for_each (\<lambda>j b. do { bij \<leftarrow> rd2 b i j; cj \<leftarrow> rd avgcap j;
                                               if fmul ci cj = 0 then None else wr2 b i j (fdiv bij (fmul ci cj)) }) [0..<p] b;
                                       Some (a, b) }
                             else Some (a, b) }) [0..<p] (array_getdata munorm, matrix_getdata mu2norm);
                     let munorm = munorm\<lparr>a_x := a\<rparr>;
                     let mu2norm = mu2norm\<lparr>m_x := b\<rparr>;
                     cov \<leftarrow> matrix_covariance_from_stats mu2norm munorm;
                     (case cov of None \<Rightarrow> Some None | Some c \<Rightarrow> Some (Some (c, munorm))) }) }
            | _ \<Rightarrow> Some None)))"

definition abpnf_getvariation_demand_current :: "mem \<Rightarrow> cloudsystem option \<Rightarrow> (matrix \<times> array) option option" where
  "abpnf_getvariation_demand_current mm cs =
     (case cs of None \<Rightarrow> Some None
      | Some cs \<Rightarrow> do {
          let n = cloudsystem_getnumPEs cs;
          m \<leftarrow> cloudsystem_getnumresources mm cs;
          if n = 0 \<or> m = 0 then Some None
          else do {
            avgcap \<leftarrow> cloudsystem_getaveragecapacity mm cs;
            (case avgcap of None \<Rightarrow> Some None
             | Some avgcap \<Rightarrow> do {
                 pes \<leftarrow> cloudsystem_getPEs cs;
                 numles \<leftarrow> for_each (\<lambda>i k. do { a \<leftarrow> vector_get pes (int i); P \<leftarrow> h_pe mm a;
                              Some (k + vector_getsize (pe_gethostedLE P)) }) [0..<n] 0;
                 if numles = 0 then Some None
                 else do {
                   let demM = matrix_create m numles;
                   (d, _) \<leftarrow> for_each (\<lambda>i (d, index).
                       do { a \<leftarrow> vector_get pes (int i); P \<leftarrow> h_pe mm a;
                            let les = pe_gethostedLE P;
                            for_each (\<lambda>k (d, index).
                              do { e \<leftarrow> vector_get les (int k); E \<leftarrow> h_le mm e;
                                   d \<leftarrow> for_each (\<lambda>j d. do { cj \<leftarrow> rd avgcap j;
                                          x \<leftarrow> (if cj > 0 then do { dj \<leftarrow> rd (le_getdemand E) j; Some (fdiv (sgl (of_int dj)) cj) } else Some 1);
                                          wr2 d j index x }) [0..<m] d;
                                   Some (d, index + 1) }) [0..<vector_getsize les] (d, index) })
                       [0..<n] (matrix_getdata demM, 0);
                   let demM = demM\<lparr>m_x := d\<rparr>;
                   avg \<leftarrow> matrix_average demM;
                   cov \<leftarrow> matrix_covariance demM;
                   Some (Some (cov, avg)) } }) } })"

definition abpfn_diffvalue :: "matrix \<Rightarrow> array \<Rightarrow> matrix \<Rightarrow> array \<Rightarrow> real option" where
  "abpfn_diffvalue cov_sys avg_sys cov_dem avg_dem =
     (if ABPN_COMPARE_SCALAR
      then do { covS \<leftarrow> matrix_coefficient_variation_from_stats cov_sys avg_sys ALBERT_ZHANG;
                covD \<leftarrow> matrix_coefficient_variation_from_stats cov_dem avg_dem ALBERT_ZHANG;
                let diff = dsub covS covD;
                Some (if diff \<ge> 0 then diff else - diff) }
      else do { covS \<leftarrow> matrix_cov2_matrix cov_sys avg_sys;
                covD \<leftarrow> matrix_cov2_matrix cov_dem avg_dem;
                (case (covS, covD) of
                   (Some S, Some D) \<Rightarrow> do {
                     let p = matrix_getnumrows S;
                     diff \<leftarrow> for_each (\<lambda>i. for_each (\<lambda>j diff.
                               do { s \<leftarrow> rd2 (matrix_getdata S) i j; d \<leftarrow> rd2 (matrix_getdata D) i j;
                                    Some (dadd diff (dmul (fsub s d) (fsub s d))) }) [0..<p]) [0..<p] 0;
                     Some (dsqrt diff) }
                 | _ \<Rightarrow> Some 0) })"

definition abpfn_getsystemvalue :: "mem \<Rightarrow> cloudsystem option \<Rightarrow> real option" where
  "abpfn_getsystemvalue m cs =
     do { sys \<leftarrow> abpnf_getvariation_system m cs;
          (case sys of None \<Rightarrow> Some 0
           | Some (cov_sys, avg_sys) \<Rightarrow> do {
               dem \<leftarrow> (if ABPN_USE_STATISTICS then abpnf_getvariation_demand_history m cs
                      else abpnf_getvariation_demand_current m cs);
               (case dem of None \<Rightarrow> Some 0
                | Some (cov_dem, avg_dem) \<Rightarrow> do { value \<leftarrow> abpfn_diffvalue cov_sys avg_sys cov_dem avg_dem; Some (sgl value) }) }) }"

subsection \<open>The objective function object (objective/objfn.c)\<close>

record objfn =
  fn_cs :: "cloudsystem option"
  fn_le :: "nat option"
  resindex :: int
  getsystemvalue :: "mem \<Rightarrow> cloudsystem option \<Rightarrow> int \<Rightarrow> real option"
  isprint :: bool

definition objfn_create :: "cloudsystem option \<Rightarrow> nat option \<Rightarrow> objective_type \<Rightarrow> int \<Rightarrow> objfn" where
  "objfn_create cs e t index =
     \<lparr>fn_cs = cs, fn_le = e, resindex = index,
      getsystemvalue = (case t of LOAD_BALANCE \<Rightarrow> lbfn_getsystemvalue
                        | CONSOLIDATE \<Rightarrow> consfn_getsystemvalue
                        | A_BINPACK \<Rightarrow> (\<lambda>m cs _. abpfn_getsystemvalue m cs)
                        | _ \<Rightarrow> (\<lambda>m cs _. abpfn_getsystemvalue m cs)),
      isprint = False\<rparr>"

definition objfn_getvalue :: "objfn \<Rightarrow> mem \<Rightarrow> real option" where
  "objfn_getvalue f m = getsystemvalue f m (fn_cs f) (resindex f)"

definition objfn_getsystemvalue :: "objfn \<Rightarrow> mem \<Rightarrow> real option" where
  "objfn_getsystemvalue f m = getsystemvalue f m (fn_cs f) (resindex f)"

definition objfn_setprint :: "objfn \<Rightarrow> bool \<Rightarrow> objfn" where
  "objfn_setprint f b = f\<lparr>isprint := b\<rparr>"

definition objfn_isprint :: "objfn \<Rightarrow> bool" where
  "objfn_isprint f = isprint f"

definition objfn_getcloudsystem :: "objfn \<Rightarrow> cloudsystem option" where
  "objfn_getcloudsystem f = fn_cs f"

definition objfn_getresindex :: "objfn \<Rightarrow> int" where
  "objfn_getresindex f = resindex f"

subsection \<open>Names\<close>

text \<open>Every objective the program implements survives the conversion to its name and back, and
  any name that is not known, as well as a missing one, selects adaptive bin packing.\<close>

theorem objtype_roundtrip:
  "(t \<in> {LOAD_BALANCE, CONSOLIDATE, A_BINPACK} \<longrightarrow> defs_objtypeFromstring (Some (defs_objtypeTostring t)) = t) \<and>
   defs_objtypeFromstring None = A_BINPACK \<and>
   (s \<notin> {''LOAD_BALANCE'', ''CONSOLIDATE'', ''A_BINPACK''} \<longrightarrow> defs_objtypeFromstring (Some s) = A_BINPACK)"
  by (auto simp: defs_objtypeFromstring_def defs_objtypeTostring_def strcmp_eq_0)

theorem objtype_roundtrip_witness:
  "defs_objtypeFromstring (Some (defs_objtypeTostring CONSOLIDATE)) = CONSOLIDATE \<and>
   defs_objtypeFromstring (Some ''NETWORK'') = A_BINPACK"
  using objtype_roundtrip [of CONSOLIDATE "''NETWORK''"] by simp

subsection \<open>The scaled unbalance\<close>

lemma scaled_loop:
  assumes "n \<le> length x"
  shows "for_each (\<lambda>i sum. do { v \<leftarrow> rd x i;
      Some (if v \<le> 0 \<and> v \<ge> 1 then dadd sum 1 else dadd sum (dmul (scaled_term avg v) (scaled_term avg v))) }) [0..<n] 0
    = Some (dsum (map (\<lambda>v. dmul (scaled_term avg v) (scaled_term avg v)) (take n x)))"
  using assms
proof (induction n)
  case (Suc n)
  have "\<not> (x ! n \<le> 0 \<and> 1 \<le> x ! n)" by linarith
  then show ?case using Suc by (simp add: for_each_upt_Suc take_Suc_conv_app_nth del: upt_Suc)
qed simp

lemma scaled_term_unit:
  assumes avg: "dbl avg = avg" "0 < avg" "avg < 1" and v: "0 \<le> v" "v \<le> 1"
  shows "0 \<le> scaled_term avg v \<and> scaled_term avg v \<le> 1"
proof -
  have "0 \<le> dsub avg v \<and> dsub avg v \<le> avg" if "v < avg"
    using that v(1) dbl.mono [of "avg - v" avg] avg(1) by (simp add: dsub_def dbl.nonneg)
  moreover have "0 \<le> dsub v avg \<and> dsub v avg \<le> dsub 1 avg" if "avg < v"
    using that v(2) dbl.mono [of "v - avg" "1 - avg"] by (simp add: dsub_def dbl.nonneg)
  ultimately show ?thesis
    by (auto simp: scaled_term_def ddiv_def intro!: dbl.nonneg dbl.div_le_one divide_nonneg_nonneg)
qed

lemma square_unit: "0 \<le> t \<Longrightarrow> t \<le> 1 \<Longrightarrow> 0 \<le> dmul t t \<and> dmul t t \<le> 1"
  by (simp add: dmul_def dbl.nonneg dbl.le_one mult_le_one)

text \<open>C36: the scaled unbalance, the measure the consolidation policy maximises, lies between 0 and 1
  whenever all loads do, with all roundings taken into account.\<close>

theorem unbalance_scaled_unit:
  assumes "n \<le> length x" "0 < n" "n \<le> 2 ^ 53" "\<forall>i<n. 0 \<le> x ! i \<and> x ! i \<le> 1"
  shows "\<exists>val. unbalance_scaled x n = Some val \<and> 0 \<le> val \<and> val \<le> 1"
proof -
  let ?x = "take n x" and ?avg = "dmean (take n x)"
  have x: "\<forall>v\<in>set ?x. 0 \<le> v \<and> v \<le> 1" using assms(1,4) by (auto simp: set_conv_nth)
  have avg: "mathhelper_average x n = Some ?avg" using assms by (simp add: mathhelper_average_eq)
  show ?thesis
  proof (cases "?avg \<le> 0 \<or> 1 \<le> ?avg")
    case True
    then show ?thesis using avg by (simp add: unbalance_scaled_def)
  next
    case False
    have idem: "dbl ?avg = ?avg" by (simp add: dmean_def ddiv_def)
    let ?ts = "map (\<lambda>v. dmul (scaled_term ?avg v) (scaled_term ?avg v)) ?x"
    have "\<forall>t\<in>set ?ts. 0 \<le> t \<and> t \<le> 1" using scaled_term_unit [OF idem] False x square_unit by auto
    then have sum: "0 \<le> dsum ?ts" "dsum ?ts \<le> real n" using dsum_unit [of ?ts] assms(1,3) by auto
    define q where "q = dsqrt (ddiv (dsum ?ts) (real n))"
    have "0 \<le> ddiv (dsum ?ts) (real n)" "ddiv (dsum ?ts) (real n) \<le> 1"
      using sum by (simp_all add: ddiv_def dbl.div_le_one dbl.nonneg)
    then have q: "0 \<le> q" "q \<le> 1" by (simp_all add: q_def dsqrt_def dbl.nonneg dbl.le_one)
    have "unbalance_scaled x n = Some (dsub 1 q)"
      using False avg scaled_loop [OF assms(1), of ?avg] by (simp add: unbalance_scaled_def q_def not_le)
    then show ?thesis using q by (simp add: dsub_def dbl.nonneg dbl.le_one)
  qed
qed

theorem unbalance_scaled_unit_witness:
  "\<exists>val. unbalance_scaled [0, 1 / 2, 1] 3 = Some val \<and> 0 \<le> val \<and> val \<le> 1"
  by (rule unbalance_scaled_unit) (auto simp: nth_Cons split: nat.split)

lemma dbl_simps:
  "dbl 2 = 2" "dbl 3 = 3" "dbl 4 = 4" "dbl 9 = 9" "dbl 12 = 12" "dbl (1 / 2) = 1 / 2" "dbl (3 / 2) = 3 / 2"
  "dbl (- (1 / 2)) = - (1 / 2)" "dbl 10 = 10" "dbl 11 = 11"
  using dbl_dyadic [of 1 1] dbl_dyadic [of 3 1] dbl_dyadic [of "- 1" 1] by (simp_all add: dbl_numeral)

text \<open>The condition that is meant to count a load outside the open unit interval as 1 is
  \<open>x <= 0 && x >= 1\<close> and can never hold, so a PE whose usage exceeds its capacity contributes the
  square of its deviation instead and the measure becomes negative.\<close>

theorem unbalance_scaled_negative: "\<exists>val. unbalance_scaled [0, 0, 0, 2] 4 = Some val \<and> val < 0"
proof -
  have avg: "mathhelper_average [0, 0, 0, 2] 4 = Some (1 / 2)"
    by (simp add: mathhelper_average_eq dmean_def dsum_def fp_ops dbl_simps)
  have t: "scaled_term (1 / 2) 0 = 1" "scaled_term (1 / 2) 2 = 3"
    by (simp_all add: scaled_term_def fp_ops dbl_simps)
  have "dsum (map (\<lambda>v. dmul (scaled_term (1 / 2) v) (scaled_term (1 / 2) v)) (take 4 [0, 0, 0, 2])) = 12"
    by (simp add: dsum_def t fp_ops dbl_simps)
  then have eq: "unbalance_scaled [0, 0, 0, 2] 4 = Some (dsub 1 (dsqrt 3))"
    using avg scaled_loop [of 4 "[0, 0, 0, 2]" "1 / 2"] by (simp add: unbalance_scaled_def ddiv_def dbl_simps)
  have "3 / 2 \<le> sqrt 3" by (rule real_le_rsqrt) (simp add: power2_eq_square)
  then have "3 / 2 \<le> dsqrt 3" using dbl.mono [of "3 / 2" "sqrt 3"] by (simp add: dsqrt_def dbl_simps)
  then have "dsub 1 (dsqrt 3) \<le> - (1 / 2)" using dbl.mono [of "1 - dsqrt 3" "- (1 / 2)"] by (simp add: dsub_def dbl_simps)
  then show ?thesis using eq by auto
qed

subsection \<open>What the values depend on\<close>

lemma resource_at_view:
  assumes "mem_view m = mem_view m'"
  shows "resource_at m = resource_at m'"
proof -
  have v: "map_option pe_view (h_pe m a) = map_option pe_view (h_pe m' a)" for a
    using assms by (simp add: mem_view_def fun_eq_iff)
  have "do { P \<leftarrow> h_pe m a; Some (pe_getresource P) } = do { P \<leftarrow> h_pe m' a; Some (pe_getresource P) }" for a
    using v [of a] by (cases "h_pe m a"; cases "h_pe m' a") (simp_all add: pe_view_def pe_getresource_def)
  then show ?thesis by (simp add: resource_at_def fun_eq_iff)
qed

lemma getnumresources_view:
  assumes "mem_view m = mem_view m'"
  shows "cloudsystem_getnumresources m = cloudsystem_getnumresources m'"
proof -
  have v: "map_option pe_view (h_pe m a) = map_option pe_view (h_pe m' a)" for a
    using assms by (simp add: mem_view_def fun_eq_iff)
  have "do { P \<leftarrow> h_pe m a; Some (case pe_getresource P of None \<Rightarrow> 0 | Some r \<Rightarrow> resource_getnum r) }
      = do { P \<leftarrow> h_pe m' a; Some (case pe_getresource P of None \<Rightarrow> 0 | Some r \<Rightarrow> resource_getnum r) }" for a
    using v [of a] by (cases "h_pe m a"; cases "h_pe m' a") (simp_all add: pe_view_def pe_getresource_def)
  then show ?thesis by (simp add: cloudsystem_getnumresources_def fun_eq_iff cong: option.case_cong)
qed

lemma getaveragecapacity_view:
  assumes "mem_view m = mem_view m'"
  shows "cloudsystem_getaveragecapacity m = cloudsystem_getaveragecapacity m'"
  unfolding fun_eq_iff cloudsystem_getaveragecapacity_def resource_at_view [OF assms] getnumresources_view [OF assms] by simp

lemma pe_loads_view: "mem_view m = mem_view m' \<Longrightarrow> pe_loads m = pe_loads m'"
  unfolding fun_eq_iff pe_loads_def by (drule resource_at_view) simp

lemma lbfn_view: "mem_view m = mem_view m' \<Longrightarrow> lbfn_getsystemvalue m = lbfn_getsystemvalue m'"
  unfolding fun_eq_iff lbfn_getsystemvalue_def by (drule pe_loads_view) (simp split: option.split)

lemma consfn_view: "mem_view m = mem_view m' \<Longrightarrow> consfn_getsystemvalue m = consfn_getsystemvalue m'"
  unfolding fun_eq_iff consfn_getsystemvalue_def by (drule pe_loads_view) (simp split: option.split)

lemma abpfn_view:
  assumes "mem_view m = mem_view m'"
  shows "abpfn_getsystemvalue m = abpfn_getsystemvalue m'"
proof -
  have "abpnf_getvariation_system m = abpnf_getvariation_system m'"
    unfolding fun_eq_iff abpnf_getvariation_system_def resource_at_view [OF assms] getnumresources_view [OF assms] by simp
  moreover have "abpnf_getvariation_demand_history m = abpnf_getvariation_demand_history m'"
    unfolding fun_eq_iff abpnf_getvariation_demand_history_def getaveragecapacity_view [OF assms] by simp
  ultimately show ?thesis by (simp add: abpfn_getsystemvalue_def ABPN_USE_STATISTICS_def fun_eq_iff)
qed

subsection \<open>When the values are defined\<close>

text \<open>
  The load based objectives need the policy resource to exist on every PE. Adaptive bin packing needs
  the PEs to have the same resources; when there are statistics it also needs them to be about these
  resources and every capacity to be positive, since it divides by the product of two average
  capacities.
\<close>

definition good_index :: "mem \<Rightarrow> cloudsystem \<Rightarrow> int \<Rightarrow> bool" where
  "good_index m cs index \<longleftrightarrow> sys_ok m cs \<and> (\<exists>n. uniform m cs n \<and> 0 \<le> index \<and> index < int n)"

definition all_capacity :: "mem \<Rightarrow> cloudsystem \<Rightarrow> bool" where
  "all_capacity m cs \<longleftrightarrow> (\<forall>p\<in>set (cs_pes cs). \<forall>P R. h_pe m p = Some P \<longrightarrow> pe_resource P = Some R \<longrightarrow> (\<forall>c\<in>set (capacity R). 0 < c))"

definition good_stats :: "mem \<Rightarrow> cloudsystem \<Rightarrow> int \<Rightarrow> bool" where
  "good_stats m cs index \<longleftrightarrow> sys_ok m cs \<and>
     (\<exists>n. uniform m cs n \<and> (\<forall>d. ds cs = Some d \<longrightarrow> stats_ok n d \<and> all_capacity m cs))"

lemma frame_capacity: "same_frame m m' \<Longrightarrow> all_capacity m cs \<Longrightarrow> all_capacity m' cs"
  unfolding all_capacity_def by (clarify, erule (2) same_frame_back) auto

lemma good_index_frame: "good_index m cs i \<Longrightarrow> heap_ok m' \<Longrightarrow> same_frame m m' \<Longrightarrow> good_index m' cs i"
  unfolding good_index_def using frame_uniform frame_sys by blast

lemma good_stats_frame: "good_stats m cs i \<Longrightarrow> heap_ok m' \<Longrightarrow> same_frame m m' \<Longrightarrow> good_stats m' cs i"
  unfolding good_stats_def using frame_uniform frame_sys frame_capacity by blast

lemma pe_loads_total:
  assumes "good_index m cs index"
  shows "\<exists>u. pe_loads m cs index = Some u \<and> length u = length (cs_pes cs)"
proof -
  obtain n where n: "uniform m cs n" "0 \<le> index" "nat index < n" and ok: "sys_ok m cs"
    using assms by (auto simp: good_index_def)
  obtain v where v: "pes cs = Some v" "vec_ok v" using sys_okD(2) [OF ok] by blast
  let ?k = "length (cs_pes cs)"
  let ?f = "\<lambda>i u. do { r \<leftarrow> resource_at m cs i; R \<leftarrow> r; cap \<leftarrow> rdi (resource_getcapacity R) index;
      x \<leftarrow> (if cap > 0 then do { y \<leftarrow> rdi (resource_getusage R) index; Some (fdiv (sgl (of_int y)) (sgl (of_int cap))) } else Some 1);
      wr u i x }"
  have "\<exists>u. for_each ?f [0..<?k] (replicate ?k 0) = Some u \<and> length u = ?k"
  proof (rule for_each_upt_total [where P = "\<lambda>_ u. length u = ?k"])
    fix i and u :: "real list"
    assume i: "i < ?k" and u: "length u = ?k"
    obtain R where R: "resource_at m cs i = Some (Some R)" "res_wf R" "rnum R = n"
      using resource_at_eq [OF ok n(1) i] by blast
    then have len: "nat index < length (capacity R)" "nat index < length (usage R)" using n(3) by (auto simp: res_wf_def)
    show "\<exists>u'. ?f i u = Some u' \<and> length u' = length (cs_pes cs)"
      using R(1) len n(2) i u by (simp add: rdi_def resource_getcapacity_def resource_getusage_def)
  qed simp
  then show ?thesis using v by (simp add: pe_loads_def cloudsystem_getPEs_def)
qed

lemma lbfn_total: "good_index m cs i \<Longrightarrow> \<exists>v. lbfn_getsystemvalue m (Some cs) i = Some v"
  using pe_loads_total [of m cs i] by (auto simp: lbfn_getsystemvalue_def commonobj_balance_def mathhelper_stddev_eq)

lemma unbalance_scaled_total: "\<exists>v. unbalance_scaled u (length u) = Some v"
  using scaled_loop [of "length u" u] by (simp add: unbalance_scaled_def mathhelper_average_eq)

lemma consfn_total: "good_index m cs i \<Longrightarrow> \<exists>v. consfn_getsystemvalue m (Some cs) i = Some v"
proof -
  assume "good_index m cs i"
  from pe_loads_total [OF this] obtain u where "pe_loads m cs i = Some u" by blast
  then show ?thesis using unbalance_scaled_total [of u]
    by (cases "length u = 0") (auto simp: consfn_getsystemvalue_def commonobj_unbalance_def)
qed

lemma fill_column:
  assumes "shape r c u" "i < c" "r \<le> length util"
  shows "\<exists>u'. for_each (\<lambda>j u. do { x \<leftarrow> rd util j; wr2 u j i x }) [0..<r] u = Some u' \<and> shape r c u'"
  by (rule for_each_upt_total [where P = "\<lambda>_. shape r c"]) (use assms in auto)

lemma variation_system_total:
  assumes ok: "sys_ok m cs" and n: "uniform m cs n"
  shows "\<exists>r. abpnf_getvariation_system m (Some cs) = Some r \<and>
    (\<forall>cov avg. r = Some (cov, avg) \<longrightarrow> mat_ok cov \<and> arr_ok avg \<and> cs_pes cs \<noteq> [] \<and> n \<noteq> 0)"
proof (cases "cs_pes cs = [] \<or> n = 0")
  case True
  then show ?thesis
    by (auto simp: abpnf_getvariation_system_def getnumPEs_eq [OF ok] getnumresources_eq [OF ok n])
next
  case False
  let ?k = "length (cs_pes cs)"
  let ?f = "\<lambda>i u. do { r \<leftarrow> resource_at m cs i;
     (case r of None \<Rightarrow> Some u
      | Some R \<Rightarrow> do { util \<leftarrow> resource_getutilization R;
          for_each (\<lambda>j u. do { x \<leftarrow> rd util j; wr2 u j i x }) [0..<n] u }) }"
  let ?M = "matrix_create n ?k"
  have M: "nrows ?M = n" "ncols ?M = ?k" "shape n ?k (m_x ?M)" using matrix_create_simps [of n ?k] False by auto
  have "\<exists>u. for_each ?f [0..<?k] (m_x ?M) = Some u \<and> shape n ?k u"
  proof (rule for_each_upt_total [where P = "\<lambda>_. shape n ?k"])
    fix i u assume i: "i < ?k" and u: "shape n ?k u"
    obtain R where R: "resource_at m cs i = Some (Some R)" "res_wf R" "rnum R = n"
      using resource_at_eq [OF ok n i] by blast
    then obtain util where "resource_getutilization R = Some util" "length util = n"
      using resource_getutilization_eq [of R] by (auto simp: res_wf_def)
    then show "\<exists>u'. ?f i u = Some u' \<and> shape n ?k u'"
      using R(1) fill_column [OF u i, of util] by simp
  qed (rule M)
  then obtain u where u: "for_each ?f [0..<?k] (m_x ?M) = Some u" "shape n ?k u" by blast
  have "mat_ok (?M\<lparr>m_x := u\<rparr>)" using u(2) M(1,2) by (intro mat_ok_upd) simp_all
  note avg = matrix_average_eq [OF this] and cov = matrix_covariance_eq [OF this]
  have "mat_ok ((matrix_create_square n)\<lparr>m_x := tabulate n n h\<rparr>)" for h
    using create_shape [of n n] by (simp add: matrix_create_square_def mat_ok_def)
  moreover have "arr_ok ((array_create n)\<lparr>a_x := map h u\<rparr>)" for h
    using u(2) by (simp add: arr_ok_def shape_def)
  ultimately show ?thesis using False u(1) avg cov M(1)
    by (simp add: abpnf_getvariation_system_def getnumPEs_eq [OF ok] getnumresources_eq [OF ok n] matrix_getdata_def Let_def)
qed

text \<open>The sums and counts of the capacities seen so far.\<close>

definition cap_sums :: "nat \<Rightarrow> bool \<Rightarrow> real list \<times> int list \<Rightarrow> bool" where
  "cap_sums n pos s \<longleftrightarrow> length (fst s) = n \<and> length (snd s) = n \<and>
     (\<forall>j<n. 0 \<le> fst s ! j \<and> 0 \<le> snd s ! j \<and> (pos \<longrightarrow> 0 < fst s ! j \<and> 0 < snd s ! j))"

definition cap_add :: "int list \<Rightarrow> nat \<Rightarrow> real list \<times> int list \<Rightarrow> (real list \<times> int list) option" where
  "cap_add cap j s = (case s of (avgcap, count) \<Rightarrow>
     do { c \<leftarrow> rd cap j;
          if c > 0
          then do { a \<leftarrow> rd avgcap j; avgcap \<leftarrow> wr avgcap j (fadd a (sgl (of_int c)));
                    n \<leftarrow> rd count j; count \<leftarrow> wr count j (n + 1); Some (avgcap, count) }
          else Some (avgcap, count) })"

lemma cap_loop:
  assumes "cap_sums n pos s" "length cap = n" "\<forall>c\<in>set cap. 0 < c"
  shows "\<exists>s'. for_each (cap_add cap) [0..<n] s = Some s' \<and> cap_sums n True s'"
proof -
  let ?P = "\<lambda>i (a :: real list, c :: int list). length a = n \<and> length c = n \<and> (\<forall>j<n. 0 \<le> a ! j \<and> 0 \<le> c ! j) \<and> (\<forall>j<i. 0 < a ! j \<and> 0 < c ! (j::nat))"
  have "\<exists>s'. for_each (cap_add cap) [0..<n] s = Some s' \<and> ?P n s'"
  proof (rule for_each_upt_total [where P = ?P])
    fix i s assume i: "i < n" and P: "?P i s"
    obtain a :: "real list" and c :: "int list" where s: "s = (a, c)" by (cases s)
    have pos: "0 < cap ! i" using assms(2,3) i by auto
    then have "0 < fadd (a ! i) (sgl (of_int (cap ! i)))" using P i s by (intro fp_pos sgl_pos) auto
    then have "?P (Suc i) (a[i := fadd (a ! i) (sgl (of_int (cap ! i)))], c[i := c ! i + 1])"
      using P i s by (auto simp: nth_list_update less_Suc_eq intro: less_imp_le)
    moreover have "cap_add cap i s = Some (a[i := fadd (a ! i) (sgl (of_int (cap ! i)))], c[i := c ! i + 1])"
      using P i s pos assms(2) by (simp add: cap_add_def)
    ultimately show "\<exists>s'. cap_add cap i s = Some s' \<and> ?P (Suc i) s'" by blast
  qed (use assms(1) in \<open>auto simp: cap_sums_def\<close>)
  then show ?thesis by (auto simp: cap_sums_def)
qed

lemma averagecapacity_total:
  assumes ok: "sys_ok m cs" and n: "uniform m cs n" and cap: "all_capacity m cs" and ne: "cs_pes cs \<noteq> []" "n \<noteq> 0"
  shows "\<exists>avgcap. cloudsystem_getaveragecapacity m cs = Some (Some avgcap) \<and> length avgcap = n \<and> (\<forall>c\<in>set avgcap. 0 < c)"
proof -
  let ?k = "length (cs_pes cs)"
  let ?f = "\<lambda>i s. do { r \<leftarrow> resource_at m cs i;
     (case r of None \<Rightarrow> Some s | Some R \<Rightarrow> for_each (cap_add (resource_getcapacity R)) [0..<n] s) }"
  have "\<exists>s. for_each ?f [0..<?k] (replicate n 0, replicate n 0) = Some s \<and> cap_sums n (0 < ?k) s"
  proof (rule for_each_upt_total [where P = "\<lambda>i. cap_sums n (0 < i)"])
    fix i s assume i: "i < ?k" and s: "cap_sums n (0 < i) s"
    obtain R where R: "resource_at m cs i = Some (Some R)" "res_wf R" "rnum R = n"
      using resource_at_eq [OF ok n i] by blast
    have "\<forall>c\<in>set (capacity R). 0 < c"
    proof -
      obtain v where v: "pes cs = Some v" using sys_okD(2) [OF ok] by blast
      show ?thesis using R(1) vec_getPE [OF ok v i] v cap nth_mem [OF i]
        by (auto simp: resource_at_def pe_getresource_def bind_eq_Some_conv all_capacity_def)
    qed
    with R s show "\<exists>s'. ?f i s = Some s' \<and> cap_sums n (0 < Suc i) s'"
      using cap_loop [OF s, of "capacity R"] by (simp add: res_wf_def resource_getcapacity_def)
  qed (simp add: cap_sums_def)
  then obtain a c where s: "for_each ?f [0..<?k] (replicate n 0, replicate n 0) = Some (a, c)" "cap_sums n True (a, c)"
    using ne(1) by auto
  let ?g = "\<lambda>j avgcap. do { n \<leftarrow> rd c j; if n > 0 then do { a \<leftarrow> rd avgcap j; wr avgcap j (fdiv a (sgl (of_int n))) } else Some avgcap }"
  have "for_each ?g [0..<n] a = Some (map (\<lambda>j. fdiv (a ! j) (sgl (of_int (c ! j)))) [0..<n] @ drop n a)"
    using s(2) by (intro for_each_update [where g = "\<lambda>j x. fdiv x (sgl (of_int (c ! j)))"]) (auto simp: cap_sums_def)
  moreover have "\<forall>x\<in>set (map (\<lambda>j. fdiv (a ! j) (sgl (of_int (c ! j)))) [0..<n]). 0 < x"
    using s(2) by (auto simp: cap_sums_def intro!: fp_pos sgl_pos)
  ultimately show ?thesis using s ne
    by (simp add: cloudsystem_getaveragecapacity_def getnumresources_eq [OF ok n] getnumPEs_eq [OF ok]
        cap_add_def cap_sums_def split_def cong: option.case_cong)
qed

lemma row_loop:
  assumes "length avgcap = p" "\<forall>c\<in>set avgcap. 0 < c" "shape p p b" "i < p" "0 < ci"
  shows "\<exists>b'. for_each (\<lambda>j b. do { bij \<leftarrow> rd2 b i j; cj \<leftarrow> rd avgcap j;
     if fmul ci cj = 0 then None else wr2 b i j (fdiv bij (fmul ci cj)) }) [0..<p] b = Some b' \<and> shape p p b'"
proof (rule for_each_upt_total [where P = "\<lambda>_. shape p p"])
  fix j b assume "j < p" "shape p p b"
  moreover from this have "fmul ci (avgcap ! j) \<noteq> 0" using assms(1,2,5) fp_pos(2) [of ci "avgcap ! j"] by simp
  ultimately show "\<exists>b'. do { bij \<leftarrow> rd2 b i j; cj \<leftarrow> rd avgcap j;
     if fmul ci cj = 0 then None else wr2 b i j (fdiv bij (fmul ci cj)) } = Some b' \<and> shape p p b'"
    using assms(1,4) by simp
qed (rule assms)

lemma normalise_loop:
  assumes "length avgcap = p" "\<forall>c\<in>set avgcap. 0 < c" "length a = p" "shape p p b"
  shows "\<exists>a' b'. for_each (\<lambda>i (a, b). do { ci \<leftarrow> rd avgcap i;
     if ci > 0 then do { ai \<leftarrow> rd a i; a \<leftarrow> wr a i (fdiv ai ci);
        b \<leftarrow> for_each (\<lambda>j b. do { bij \<leftarrow> rd2 b i j; cj \<leftarrow> rd avgcap j;
              if fmul ci cj = 0 then None else wr2 b i j (fdiv bij (fmul ci cj)) }) [0..<p] b;
        Some (a, b) }
     else Some (a, b) }) [0..<p] (a, b) = Some (a', b') \<and> length a' = p \<and> shape p p b'"
    (is "\<exists>a' b'. for_each ?f _ _ = _ \<and> _ \<and> _")
proof -
  have "\<exists>s. for_each ?f [0..<p] (a, b) = Some s \<and> length (fst s) = p \<and> shape p p (snd s)"
  proof (rule for_each_upt_total [where P = "\<lambda>_ s. length (fst s) = p \<and> shape p p (snd s)"])
    fix i and s :: "real list \<times> real list list"
    assume i: "i < p" and s: "length (fst s) = p \<and> shape p p (snd s)"
    have pos: "0 < avgcap ! i" using assms(1,2) i by simp
    obtain b' where b': "for_each (\<lambda>j b. do { bij \<leftarrow> rd2 b i j; cj \<leftarrow> rd avgcap j;
       if fmul (avgcap ! i) cj = 0 then None else wr2 b i j (fdiv bij (fmul (avgcap ! i) cj)) }) [0..<p] (snd s) = Some b'" "shape p p b'"
      using row_loop [OF assms(1,2) conjunct2 [OF s] i pos] by blast
    then show "\<exists>s'. ?f i s = Some s' \<and> length (fst s') = p \<and> shape p p (snd s')"
      using i pos assms(1) s by (simp add: split_def)
  qed (use assms in simp)
  then show ?thesis by auto
qed

lemma variation_history_total:
  assumes good: "sys_ok m cs" "uniform m cs n" "\<And>d. ds cs = Some d \<Longrightarrow> stats_ok n d \<and> all_capacity m cs"
    and ne: "cs_pes cs \<noteq> []" "n \<noteq> 0"
  shows "\<exists>r. abpnf_getvariation_demand_history m (Some cs) = Some r \<and>
    (\<forall>cov avg. r = Some (cov, avg) \<longrightarrow> mat_ok cov \<and> arr_ok avg)"
proof (cases "\<exists>d mu mu2. ds cs = Some d \<and> demandavg d = Some mu \<and> demandavg2 d = Some mu2")
  case False
  then show ?thesis
    by (auto simp: abpnf_getvariation_demand_history_def cloudsystem_getdemandstats_def demandstats_getavg_def
        demandstats_getavg2_def split: option.split)
next
  case True
  then obtain d mu mu2 where d: "ds cs = Some d" "demandavg d = Some mu" "demandavg2 d = Some mu2" by blast
  have st: "arr_ok mu" "a_size mu = n" "mat_ok mu2" "nrows mu2 = n" "ncols mu2 = n" and cap: "all_capacity m cs"
    using good(3) [OF d(1)] d by (auto simp: stats_ok_def)
  obtain avgcap where avgcap: "cloudsystem_getaveragecapacity m cs = Some (Some avgcap)" "length avgcap = n" "\<forall>c\<in>set avgcap. 0 < c"
    using averagecapacity_total [OF good(1,2) cap ne] by blast
  obtain c where c: "matrix_clone mu2 = Some c" "m_x c = m_x mu2" "nrows c = n" "ncols c = n"
    using matrix_clone_eq [OF st(3)] st by auto
  have len: "length (a_x mu) = n" "shape n n (m_x mu2)" using st mat_okD(1) [OF st(3)] by (simp_all add: arr_ok_def)
  obtain a b where ab: "for_each (\<lambda>i (a, b). do { ci \<leftarrow> rd avgcap i;
     if ci > 0 then do { ai \<leftarrow> rd a i; a \<leftarrow> wr a i (fdiv ai ci);
        b \<leftarrow> for_each (\<lambda>j b. do { bij \<leftarrow> rd2 b i j; cj \<leftarrow> rd avgcap j;
              if fmul ci cj = 0 then None else wr2 b i j (fdiv bij (fmul ci cj)) }) [0..<nrows c] b;
        Some (a, b) }
     else Some (a, b) }) [0..<nrows c] (a_x mu, m_x mu2) = Some (a, b)" "length a = n" "shape n n b"
    using normalise_loop [OF avgcap(2,3) len] unfolding c(3) by blast
  let ?mu = "mu\<lparr>a_allocated := True, a_x := a\<rparr>" and ?mu2 = "c\<lparr>m_x := b\<rparr>"
  have ok: "mat_ok ?mu2" "arr_ok ?mu" "matrix_issquare ?mu2" "nrows ?mu2 = a_size ?mu" "a_size ?mu \<noteq> 0"
    using c ab st ne(2) by (simp_all add: mat_ok_def arr_ok_def matrix_issquare_def)
  have cov: "mat_ok ((matrix_create_square k)\<lparr>m_x := tabulate k k h\<rparr>)" for k h
    using create_shape [of k k] by (simp add: matrix_create_square_def mat_ok_def)
  show ?thesis
    using d avgcap(1) c(1,2) ab(1) st(1) ok(1,2) cov matrix_covariance_from_stats_eq [OF ok]
    by (simp add: abpnf_getvariation_demand_history_def cloudsystem_getdemandstats_def demandstats_getavg_def
        demandstats_getavg2_def array_clone_eq matrix_getnumrows_def array_getdata_def matrix_getdata_def Let_def)
qed

lemma abpfn_total:
  assumes "good_stats m cs i"
  shows "\<exists>v. abpfn_getsystemvalue m (Some cs) = Some v \<and> 0 \<le> v"
proof -
  obtain n where good: "sys_ok m cs" "uniform m cs n" "\<And>d. ds cs = Some d \<Longrightarrow> stats_ok n d \<and> all_capacity m cs"
    using assms by (auto simp: good_stats_def)
  obtain r where r: "abpnf_getvariation_system m (Some cs) = Some r"
    "\<And>cov avg. r = Some (cov, avg) \<Longrightarrow> mat_ok cov \<and> arr_ok avg \<and> cs_pes cs \<noteq> [] \<and> n \<noteq> 0"
    using variation_system_total [OF good(1,2)] by blast
  show ?thesis
  proof (cases r)
    case None
    then show ?thesis using r(1) by (simp add: abpfn_getsystemvalue_def)
  next
    case (Some ca)
    obtain cov avg where ca: "ca = (cov, avg)" by (cases ca)
    note sys = r(2) [of cov avg]
    obtain q where q: "abpnf_getvariation_demand_history m (Some cs) = Some q"
      "\<And>c a. q = Some (c, a) \<Longrightarrow> mat_ok c \<and> arr_ok a"
      using variation_history_total [OF good] sys Some ca by blast
    show ?thesis
    proof (cases q)
      case None
      then show ?thesis using r(1) q(1) Some ca by (simp add: abpfn_getsystemvalue_def ABPN_USE_STATISTICS_def)
    next
      case (Some da)
      obtain c a where da: "da = (c, a)" by (cases da)
      obtain x y where "matrix_coefficient_variation_from_stats cov avg ALBERT_ZHANG = Some x"
        "matrix_coefficient_variation_from_stats c a ALBERT_ZHANG = Some y"
        using coefficient_variation_total sys q(2) [of c a] Some da \<open>r = Some ca\<close> ca by metis
      then show ?thesis using r(1) q(1) Some da ca \<open>r = Some ca\<close>
        by (simp add: abpfn_getsystemvalue_def ABPN_USE_STATISTICS_def abpfn_diffvalue_def ABPN_COMPARE_SCALAR_def sgl.nonneg Let_def)
    qed
  qed
qed

subsection \<open>The interface of an objective function\<close>

lemma view_frame:
  assumes "mem_view m' = mem_view m" "h_next m' = h_next m" "h_rng m' = h_rng m"
  shows "same_frame m m'"
proof -
  have "map_option pe_id (h_pe m' a) = map_option pe_id (h_pe m a)" for a
  proof -
    have "map_option pe_view (h_pe m' a) = map_option pe_view (h_pe m a)"
      using assms(1) by (simp add: mem_view_def fun_eq_iff)
    then show ?thesis by (cases "h_pe m a"; cases "h_pe m' a") (auto simp: pe_id_def pe_view_def)
  qed
  moreover have "h_le m' = h_le m" using assms(1) by (simp add: mem_view_def)
  ultimately show ?thesis using assms(2,3) by (simp add: same_frame_def)
qed

lemma good_sys: "good_index m cs i \<Longrightarrow> sys_ok m cs" "good_stats m cs i \<Longrightarrow> sys_ok m cs"
  by (simp_all add: good_index_def good_stats_def)

text \<open>
  What the evaluator relies on when it calls the function pointer of an \<open>objfn\<close>: the value depends
  on the observable memory only, it is defined in every good state, and placing or removing LEs, which
  keeps names, capacities and the invariant of the memory, leads from a good state to a good one.
\<close>

locale objective =
  fixes val :: "mem \<Rightarrow> cloudsystem option \<Rightarrow> int \<Rightarrow> real option"
    and good :: "mem \<Rightarrow> cloudsystem \<Rightarrow> int \<Rightarrow> bool"
  assumes view: "mem_view m = mem_view m' \<Longrightarrow> val m = val m'"
    and total: "good m cs i \<Longrightarrow> \<exists>v. val m (Some cs) i = Some v"
    and frame: "good m cs i \<Longrightarrow> heap_ok m' \<Longrightarrow> same_frame m m' \<Longrightarrow> good m' cs i"
    and sys: "good m cs i \<Longrightarrow> sys_ok m cs"
begin

text \<open>A client that places an LE, asks for the value and removes the LE again gets the value of the
  system with the LE placed and sees no other change.\<close>

lemma probe:
  assumes good: "good m cs i" and at: "h_pe m p = Some P" "pe_resource P = Some R" "h_le m e = Some E"
    and free: "host E = None" and fits: "le_fits (rnum R) E" and R: "res_ok R"
  obtains b m1 v b' m2 where "pe_placeLE m p e True = Some (b, m1)" "val m1 (Some cs) i = Some v"
    "pe_removeLE m1 p e True = Some (b', m2)" "mem_view m2 = mem_view m" "good m2 cs i"
    "h_next m2 = h_next m" "h_rng m2 = h_rng m" "m1 = placed m p P R e E"
proof -
  note ok = sys_okD(1) [OF sys [OF good]]
  note Pok = heap_okD(1) [OF ok at(1)]
  have nh: "\<not> hosts m p e" using heap_okD(2) [OF ok] at(3) free by simp
  let ?m1 = "placed m p P R e E"
  have m1: "heap_ok ?m1" "same_frame m ?m1" by (rule placed_ok [OF ok at free fits], rule placed_frame [OF at])
  from total [OF frame [OF good m1]] obtain v where v: "val ?m1 (Some cs) i = Some v" by blast
  obtain m2 where m2: "pe_removeLE ?m1 p e True = Some (True, m2)" "mem_view m2 = mem_view m"
    "h_next m2 = h_next m" "h_rng m2 = h_rng m" "heap_ok m2"
    using remove_placed [OF ok at free fits R] by blast
  have "same_frame m m2" by (rule view_frame [OF m2(2,3,4)])
  then have "good m2 cs i" using frame [OF good m2(5)] by blast
  then show thesis using that pe_placeLE_eq [OF at(1) Pok at(2,3) fits nh] v m2 by blast
qed

end

interpretation lb: objective lbfn_getsystemvalue good_index
  by unfold_locales (rule lbfn_view lbfn_total good_index_frame good_sys; assumption)+

interpretation cons: objective consfn_getsystemvalue good_index
  by unfold_locales (rule consfn_view consfn_total good_index_frame good_sys; assumption)+

interpretation abp: objective "\<lambda>m cs _. abpfn_getsystemvalue m cs" good_stats
proof unfold_locales
  show "\<exists>v. abpfn_getsystemvalue m (Some cs) = Some v" if "good_stats m cs i" for m cs i
    using abpfn_total [OF that] by blast
  show "(\<lambda>cs _. abpfn_getsystemvalue m cs) = (\<lambda>cs _. abpfn_getsystemvalue m' cs)" if "mem_view m = mem_view m'" for m m'
    by (simp only: abpfn_view [OF that])
qed (rule good_stats_frame good_sys; assumption)+

end
