(* ===== verification/Evaluator.thy ===== *)
theory Evaluator
  imports Stateupdater Objective
begin

section \<open>The evaluator (evaluator.c)\<close>

text \<open>
  The evaluator is the entry point the scheduler calls: it owns a cloud system and its state updater,
  and \<open>evaluator_eval\<close> computes for an LE the value of the objective on every PE, by placing the LE on
  the PE, evaluating the system and removing the LE again; a PE that cannot take the LE gets \<open>NAN\<close>,
  which is \<^term>\<open>None\<close> in the list of values. The memory, the cloud system and the updater are the
  \<open>world\<close> of the state updater; the struct keeps the two policy fields.

  The theory shows that a fresh evaluator has an empty, consistent system, and what an evaluation
  returns: one value per PE, in the order of the PEs, equal to the objective of the system with the
  LE placed there, and no trace of the tentative placements in the memory.
\<close>

record evaluator =
  policyresourceindex :: int
  policyobjective :: objective_type

definition evaluator_create :: "mem \<Rightarrow> int \<Rightarrow> objective_type \<Rightarrow> (evaluator \<times> world) option" where
  "evaluator_create m index obj =
     do { let pes = vector_create;
          (m, cs) \<leftarrow> cloudsystem_create m (Some pes);
          let su = stateupdater_create;
          let cs = (if obj = A_BINPACK then cloudsystem_setdemandstats cs (Some (demandstats_create 0)) else cs);
          Some (\<lparr>policyresourceindex = index, policyobjective = obj\<rparr>, m, cs, su) }"

text \<open>The round of the loop over the hosts for the PE at position \<open>i\<close>.\<close>

definition eval_host :: "objfn \<Rightarrow> nat vector \<Rightarrow> nat \<Rightarrow> nat \<Rightarrow> real option list \<times> mem \<Rightarrow> (real option list \<times> mem) option" where
  "eval_host fn hostv e i = (\<lambda>(val, m).
     (case vector_get hostv (int i) of
        None \<Rightarrow> do { val \<leftarrow> wr val i None; Some (val, m) }
      | Some pei \<Rightarrow> do {
          ok \<leftarrow> pe_canplaceLE m pei e;
          if ok
          then do { (_, m) \<leftarrow> pe_placeLE m pei e True;
                    v \<leftarrow> objfn_getvalue fn m;
                    val \<leftarrow> wr val i (Some v);
                    (_, m) \<leftarrow> pe_removeLE m pei e True;
                    Some (val, m) }
          else do { val \<leftarrow> wr val i None; Some (val, m) } }))"

definition evaluator_eval :: "evaluator \<Rightarrow> world \<Rightarrow> nat option \<Rightarrow> (real option list option \<times> world) option" where
  "evaluator_eval ev = (\<lambda>(m, cs, su) e.
     (case e of None \<Rightarrow> Some (None, m, cs, su)
      | Some e \<Rightarrow> do {
          cs \<leftarrow> (case cloudsystem_getdemandstats cs of
                   None \<Rightarrow> Some cs
                 | Some d \<Rightarrow> do { E \<leftarrow> h_le m e; d \<leftarrow> demandstats_add d E; Some (cloudsystem_setdemandstats cs (Some d)) });
          let fn = objfn_create (Some cs) (Some e) (policyobjective ev) (policyresourceindex ev);
          hostv \<leftarrow> cloudsystem_getPEs cs;
          let n = vector_getsize hostv;
          (val, m) \<leftarrow> for_each (eval_host fn hostv e) [0..<n] (replicate n None, m);
          Some (Some val, m, cs, su) }))"

definition evaluator_getstateupdater :: "world \<Rightarrow> stateupdater" where
  "evaluator_getstateupdater = (\<lambda>(m, cs, su). su)"

definition evaluator_getnumresources :: "world \<Rightarrow> nat option" where
  "evaluator_getnumresources = (\<lambda>(m, cs, su). cloudsystem_getnumresources m cs)"

definition evaluator_getpolicyobjective :: "evaluator \<Rightarrow> string" where
  "evaluator_getpolicyobjective ev = defs_objtypeTostring (policyobjective ev)"

definition evaluator_setpolicyobjective :: "evaluator \<Rightarrow> string option \<Rightarrow> evaluator" where
  "evaluator_setpolicyobjective ev s = ev\<lparr>policyobjective := defs_objtypeFromstring s\<rparr>"

definition evaluator_destroy :: "world \<Rightarrow> mem option" where
  "evaluator_destroy = (\<lambda>(m, cs, su). cloudsystem_destroy m cs)"

subsection \<open>Tentative placements\<close>

text \<open>An LE can be evaluated when it is not hosted and has a demand for every resource of every PE.\<close>

definition eval_ready :: "mem \<Rightarrow> cloudsystem \<Rightarrow> nat \<Rightarrow> bool" where
  "eval_ready m cs e \<longleftrightarrow> (\<exists>E. h_le m e = Some E \<and> host E = None \<and>
     (\<forall>p\<in>set (cs_pes cs). \<forall>P R. h_pe m p = Some P \<longrightarrow> pe_resource P = Some R \<longrightarrow> res_ok R \<and> le_fits (rnum R) E))"

text \<open>The value an evaluation is meant to report for the PE at \<open>p\<close>.\<close>

definition placed_value :: "(mem \<Rightarrow> real option) \<Rightarrow> mem \<Rightarrow> nat \<Rightarrow> nat \<Rightarrow> real option" where
  "placed_value f m e p =
     do { ok \<leftarrow> pe_canplaceLE m p e;
          if ok then do { (_, m1) \<leftarrow> pe_placeLE m p e True; f m1 } else None }"

lemma view_pe:
  assumes "mem_view m' = mem_view m" "h_pe m p = Some P"
  obtains P' where "h_pe m' p = Some P'" "pe_view P' = pe_view P"
proof -
  have "map_option pe_view (h_pe m' p) = map_option pe_view (h_pe m p)"
    using assms(1) by (simp add: mem_view_def fun_eq_iff)
  then show thesis using that assms(2) by auto
qed

lemma view_canplace: "mem_view m' = mem_view m \<Longrightarrow> pe_canplaceLE m' p e = pe_canplaceLE m p e"
proof -
  assume v: "mem_view m' = mem_view m"
  then have "map_option pe_view (h_pe m' p) = map_option pe_view (h_pe m p)" "h_le m' = h_le m"
    by (simp_all add: mem_view_def fun_eq_iff)
  then show ?thesis by (cases "h_pe m p"; cases "h_pe m' p") (simp_all add: pe_canplaceLE_def pe_view_def)
qed

lemma view_placed:
  assumes v: "mem_view m' = mem_view m" and P: "h_pe m p = Some P" "h_pe m' p = Some P'" "pe_view P' = pe_view P"
    and ok: "pe_ok P" "pe_ok P'"
  shows "mem_view (placed m' p P' R e E) = mem_view (placed m p P R e E)"
proof -
  have le: "h_le m' = h_le m" and pe: "\<And>q. map_option pe_view (h_pe m' q) = map_option pe_view (h_pe m q)"
    using v by (simp_all add: mem_view_def fun_eq_iff)
  have "vec_list (vector_append (hostedLE P') x) = vec_list (vector_append (hostedLE P) x)" for x
    using P(3) ok by (simp add: pe_view_def pe_okD)
  then have "pe_view (P'\<lparr>pe_resource := r, hostedLE := vector_append (hostedLE P') x\<rparr>)
      = pe_view (P\<lparr>pe_resource := r, hostedLE := vector_append (hostedLE P) x\<rparr>)" for r x
    using P(3) by (simp add: pe_view_def)
  then show ?thesis using le pe by (auto simp: mem_view_def placed_def fun_eq_iff)
qed

subsection \<open>The loop over the hosts\<close>

lemma ready_at:
  assumes ok: "sys_ok m cs" and ready: "eval_ready m cs e" and p: "p \<in> set (cs_pes cs)"
  obtains P R E can where "h_pe m p = Some P" "pe_resource P = Some R" "h_le m e = Some E" "host E = None"
    "le_fits (rnum R) E" "res_ok R" "pe_canplaceLE m p e = Some can"
proof -
  obtain P where P: "h_pe m p = Some P" using sys_okD(5) [OF ok p] by blast
  obtain R where R: "pe_resource P = Some R" using heap_okD(1) [OF sys_okD(1) [OF ok] P] by (auto simp: pe_ok_def)
  obtain E where E: "h_le m e = Some E" "host E = None" "res_ok R" "le_fits (rnum R) E"
    using ready p P R by (auto simp: eval_ready_def)
  have "pe_canplaceLE m p e \<noteq> None"
    using resource_canuse_eq [OF E(3,4)] P R E(1) by (auto simp: pe_canplaceLE_def)
  then show thesis using that P R E by blast
qed

context objective
begin

text \<open>One round: whatever the vectors of the memory look like inside, the value reported for a PE is the
  one of the initial memory with the LE placed, and the observable memory is restored.\<close>

lemma placed_defined:
  assumes good: "good m cs i" and ready: "eval_ready m cs e" and p: "p \<in> set (cs_pes cs)"
  shows "placed_value (\<lambda>m. val m (Some cs) i) m e p = None \<longleftrightarrow> pe_canplaceLE m p e = Some False"
proof -
  obtain P R E can where at: "h_pe m p = Some P" "pe_resource P = Some R" "h_le m e = Some E" "host E = None"
    "le_fits (rnum R) E" "res_ok R" "pe_canplaceLE m p e = Some can"
    using ready_at [OF sys [OF good] ready p] by metis
  show ?thesis
  proof (cases can)
    case True
    obtain b m1 w where "pe_placeLE m p e True = Some (b, m1)" "val m1 (Some cs) i = Some w"
      using probe [OF good at(1-6)] by blast
    then show ?thesis using at(7) True by (simp add: placed_value_def)
  qed (use at(7) in \<open>simp add: placed_value_def\<close>)
qed

lemma round:
  assumes good: "good m cs i" and v: "mem_view m = mem_view m0" and ready: "eval_ready m0 cs e"
    and ok0: "sys_ok m0 cs" and p: "p \<in> set (cs_pes cs)"
    and fn: "objfn_getvalue fn = (\<lambda>m. val m (Some cs) i)"
    and get: "vector_get hostv (int k) = Some p" and k: "k < length xs"
  obtains m' where "eval_host fn hostv e k (xs, m) = Some (xs[k := placed_value (\<lambda>m. val m (Some cs) i) m0 e p], m')"
    "mem_view m' = mem_view m0" "good m' cs i" "h_next m' = h_next m" "h_rng m' = h_rng m"
proof -
  obtain P0 R E can where at0: "h_pe m0 p = Some P0" "pe_resource P0 = Some R" "h_le m0 e = Some E" "host E = None"
    "le_fits (rnum R) E" "res_ok R" "pe_canplaceLE m0 p e = Some can"
    using ready_at [OF ok0 ready p] by metis
  note P0ok = heap_okD(1) [OF sys_okD(1) [OF ok0] at0(1)]
  obtain P where P: "h_pe m p = Some P" "pe_view P = pe_view P0" using view_pe [OF v at0(1)] by blast
  note Pok = heap_okD(1) [OF sys_okD(1) [OF sys [OF good]] P(1)]
  have R: "pe_resource P = Some R" using P(2) at0(2) by (simp add: pe_view_def)
  have E: "h_le m e = Some E" using v at0(3) by (simp add: mem_view_def)
  have nh: "\<not> hosts m0 p e" using heap_okD(2) [OF sys_okD(1) [OF ok0]] at0(3,4) by simp
  have can': "pe_canplaceLE m p e = Some can" using view_canplace [OF v] at0(7) by simp
  show thesis
  proof (cases can)
    case False
    then show ?thesis using that [of m] at0(7) can' get k v good by (simp add: eval_host_def placed_value_def)
  next
    case True
    obtain b m1 w b' m2 where pr: "pe_placeLE m p e True = Some (b, m1)" "val m1 (Some cs) i = Some w"
      "pe_removeLE m1 p e True = Some (b', m2)" "mem_view m2 = mem_view m" "good m2 cs i"
      "h_next m2 = h_next m" "h_rng m2 = h_rng m" "m1 = placed m p P R e E"
      using probe [OF good P(1) R E at0(4-6)] by blast
    have "val (placed m0 p P0 R e E) = val m1"
      unfolding pr(8) by (rule view [OF view_placed [OF v at0(1) P P0ok Pok, symmetric]])
    then have "placed_value (\<lambda>m. val m (Some cs) i) m0 e p = Some w"
      using True at0(7) pr(2) pe_placeLE_eq [OF at0(1) P0ok at0(2,3,5) nh] by (simp add: placed_value_def)
    then show ?thesis using that [of m2] True can' get k v pr fn by (simp add: eval_host_def)
  qed
qed

lemma loop:
  assumes good: "good m cs i" and ready: "eval_ready m cs e"
    and fn: "objfn_getvalue fn = (\<lambda>m. val m (Some cs) i)" and pes: "pes cs = Some hostv"
  obtains m' where "for_each (eval_host fn hostv e) [0..<vector_getsize hostv] (replicate (vector_getsize hostv) None, m)
      = Some (map (placed_value (\<lambda>m. val m (Some cs) i) m e) (cs_pes cs), m')"
    "mem_view m' = mem_view m" "sys_ok m' cs" "h_next m' = h_next m" "h_rng m' = h_rng m"
proof -
  let ?n = "length (cs_pes cs)" and ?v = "placed_value (\<lambda>m. val m (Some cs) i) m e"
  note ok = sys [OF good]
  have n: "vector_getsize hostv = ?n" using getnumPEs_eq [OF ok] pes by (simp add: cloudsystem_getnumPEs_def)
  let ?I = "\<lambda>k (xs, m'). xs = map ?v (take k (cs_pes cs)) @ replicate (?n - k) None \<and>
     mem_view m' = mem_view m \<and> good m' cs i \<and> h_next m' = h_next m \<and> h_rng m' = h_rng m"
  have "\<exists>s. for_each (eval_host fn hostv e) [0..<?n] (replicate ?n None, m) = Some s \<and> ?I ?n s"
  proof (rule for_each_upt_total [where P = ?I])
    fix k s assume k: "k < ?n" and I: "?I k s"
    obtain xs m1 where s: "s = (xs, m1)" by (cases s)
    have xs: "xs = map ?v (take k (cs_pes cs)) @ replicate (?n - k) None" and m1: "mem_view m1 = mem_view m" "good m1 cs i"
      "h_next m1 = h_next m" "h_rng m1 = h_rng m" using I s by auto
    have len: "k < length xs" using k xs by simp
    obtain m' where "eval_host fn hostv e k (xs, m1) = Some (xs[k := ?v (cs_pes cs ! k)], m')"
      "mem_view m' = mem_view m" "good m' cs i" "h_next m' = h_next m1" "h_rng m' = h_rng m1"
      using round [OF m1(2,1) ready ok nth_mem [OF k] fn vec_getPE [OF ok pes k] len] by blast
    moreover have "xs[k := ?v (cs_pes cs ! k)] = map ?v (take (Suc k) (cs_pes cs)) @ replicate (?n - Suc k) None"
      using k by (auto simp: xs take_Suc_conv_app_nth list_update_append Suc_diff_Suc [symmetric])
    ultimately show "\<exists>s'. eval_host fn hostv e k s = Some s' \<and> ?I (Suc k) s'" using s m1(3,4) by auto
  qed (use good in simp)
  then show thesis using that sys unfolding n by auto
qed

end

subsection \<open>Evaluations\<close>

text \<open>What the chosen objective needs of the system for the LE at \<open>e\<close>; the statistics, if there are any,
  are about as many resources as the LE has demands.\<close>

definition eval_good :: "evaluator \<Rightarrow> mem \<Rightarrow> cloudsystem \<Rightarrow> nat \<Rightarrow> bool" where
  "eval_good ev m cs e \<longleftrightarrow> sys_ok m cs \<and> eval_ready m cs e \<and>
     (\<exists>n E. uniform m cs n \<and> h_le m e = Some E \<and> numdemand E = n \<and> n \<le> length (demand E) \<and>
        (\<forall>d. ds cs = Some d \<longrightarrow> stats_ok n d) \<and>
        (if policyobjective ev \<in> {LOAD_BALANCE, CONSOLIDATE}
         then 0 \<le> policyresourceindex ev \<and> policyresourceindex ev < int n
         else ds cs \<noteq> None \<longrightarrow> all_capacity m cs))"

lemma sys_ok_ds [simp]: "sys_ok m (cs\<lparr>ds := d\<rparr>) = sys_ok m cs"
  by (simp add: sys_ok_def cs_pes_def)

lemma cs_pes_ds [simp]: "cs_pes (cs\<lparr>ds := d\<rparr>) = cs_pes cs"
  by (simp add: cs_pes_def)

lemma ds_simps [simp]:
  "uniform m (cs\<lparr>ds := d\<rparr>) n = uniform m cs n" "all_capacity m (cs\<lparr>ds := d\<rparr>) = all_capacity m cs"
  "eval_ready m (cs\<lparr>ds := d\<rparr>) e = eval_ready m cs e"
  by (simp_all add: uniform_def all_capacity_def eval_ready_def)

text \<open>The statistics after the LE was added.\<close>

definition add_sample :: "mem \<Rightarrow> cloudsystem \<Rightarrow> nat \<Rightarrow> cloudsystem option" where
  "add_sample m cs e =
     (case cloudsystem_getdemandstats cs of
        None \<Rightarrow> Some cs
      | Some d \<Rightarrow> do { E \<leftarrow> h_le m e; d \<leftarrow> demandstats_add d E; Some (cloudsystem_setdemandstats cs (Some d)) })"

lemma add_sample_step:
  assumes "eval_good ev m cs e"
  obtains cs' d' where "add_sample m cs e = Some cs'" "cs' = cs\<lparr>ds := d'\<rparr>" "eval_good ev m cs' e"
    "d' = None \<longleftrightarrow> ds cs = None"
proof (cases "ds cs")
  case None
  then show ?thesis using that [of cs None] assms by (simp add: add_sample_def cloudsystem_getdemandstats_def)
next
  case (Some d)
  obtain n E where E: "uniform m cs n" "h_le m e = Some E" "numdemand E = n" "n \<le> length (demand E)" "stats_ok n d"
    using assms Some by (auto simp: eval_good_def)
  obtain d' where d': "demandstats_add d E = Some d'" "stats_ok n d'"
    using add_step [of n d E] E by (auto simp: le_getnumdemand_def)
  have "eval_good ev m (cs\<lparr>ds := Some d'\<rparr>) e" using assms E d' Some by (auto simp: eval_good_def)
  then show ?thesis using that [of "cs\<lparr>ds := Some d'\<rparr>" "Some d'"] Some E d'
    by (simp add: add_sample_def cloudsystem_getdemandstats_def cloudsystem_setdemandstats_def)
qed

lemma evaluator_eval_alt:
  "evaluator_eval ev (m, cs, su) (Some e) =
     do { cs \<leftarrow> add_sample m cs e;
          let fn = objfn_create (Some cs) (Some e) (policyobjective ev) (policyresourceindex ev);
          hostv \<leftarrow> cloudsystem_getPEs cs;
          let n = vector_getsize hostv;
          (val, m) \<leftarrow> for_each (eval_host fn hostv e) [0..<n] (replicate n None, m);
          Some (Some val, m, cs, su) }"
  by (simp add: evaluator_eval_def add_sample_def)

abbreviation eval_fn :: "evaluator \<Rightarrow> cloudsystem \<Rightarrow> nat \<Rightarrow> objfn" where
  "eval_fn ev cs e \<equiv> objfn_create (Some cs) (Some e) (policyobjective ev) (policyresourceindex ev)"

lemma objfn_getvalue_cases:
  "objfn_getvalue (objfn_create (Some cs) e t i) = (\<lambda>m.
     if t = LOAD_BALANCE then lbfn_getsystemvalue m (Some cs) i
     else if t = CONSOLIDATE then consfn_getsystemvalue m (Some cs) i else abpfn_getsystemvalue m (Some cs))"
  by (cases t) (simp_all add: objfn_create_def objfn_getvalue_def fun_eq_iff)

lemma eval_loop:
  assumes g: "eval_good ev m cs e" and pes: "pes cs = Some hostv"
  obtains m' where "for_each (eval_host (eval_fn ev cs e) hostv e) [0..<vector_getsize hostv] (replicate (vector_getsize hostv) None, m)
      = Some (map (placed_value (objfn_getvalue (eval_fn ev cs e)) m e) (cs_pes cs), m')"
    "mem_view m' = mem_view m" "sys_ok m' cs"
    "\<And>p. p \<in> set (cs_pes cs) \<Longrightarrow> placed_value (objfn_getvalue (eval_fn ev cs e)) m e p = None \<longleftrightarrow> pe_canplaceLE m p e = Some False"
proof -
  note gv = objfn_getvalue_cases [of cs "Some e" "policyobjective ev" "policyresourceindex ev"]
  have ready: "eval_ready m cs e" using g by (simp add: eval_good_def)
  consider "policyobjective ev = LOAD_BALANCE" | "policyobjective ev = CONSOLIDATE"
    | "policyobjective ev \<notin> {LOAD_BALANCE, CONSOLIDATE}" by blast
  then show thesis
  proof cases
    case 1
    then have "good_index m cs (policyresourceindex ev)" using g by (auto simp: eval_good_def good_index_def)
    moreover have fn: "objfn_getvalue (eval_fn ev cs e) = (\<lambda>m. lbfn_getsystemvalue m (Some cs) (policyresourceindex ev))"
      using 1 gv by simp
    ultimately show ?thesis using lb.loop [OF _ ready fn pes] lb.placed_defined [OF _ ready] that unfolding fn by metis
  next
    case 2
    then have "good_index m cs (policyresourceindex ev)" using g by (auto simp: eval_good_def good_index_def)
    moreover have fn: "objfn_getvalue (eval_fn ev cs e) = (\<lambda>m. consfn_getsystemvalue m (Some cs) (policyresourceindex ev))"
      using 2 gv by simp
    ultimately show ?thesis using cons.loop [OF _ ready fn pes] cons.placed_defined [OF _ ready] that unfolding fn by metis
  next
    case 3
    then have good: "good_stats m cs (policyresourceindex ev)" using g by (auto simp: eval_good_def good_stats_def)
    have fn: "objfn_getvalue (eval_fn ev cs e) = (\<lambda>m. abpfn_getsystemvalue m (Some cs))" using 3 gv by simp
    then show ?thesis using abp.loop [OF good ready fn pes] abp.placed_defined [OF good ready] that unfolding fn by metis
  qed
qed

lemma eval_step:
  assumes "eval_good ev m cs e"
  shows "\<exists>val m' d. evaluator_eval ev (m, cs, su) (Some e) = Some (Some val, m', cs\<lparr>ds := d\<rparr>, su) \<and>
    val = map (placed_value (objfn_getvalue (eval_fn ev (cs\<lparr>ds := d\<rparr>) e)) m e) (cs_pes cs) \<and>
    (\<forall>i<length val. val ! i = None \<longleftrightarrow> pe_canplaceLE m (cs_pes cs ! i) e = Some False) \<and>
    mem_view m' = mem_view m \<and> sys_ok m' (cs\<lparr>ds := d\<rparr>)"
proof -
  obtain cs' d where cs': "add_sample m cs e = Some cs'" "cs' = cs\<lparr>ds := d\<rparr>" "eval_good ev m cs' e"
    using add_sample_step [OF assms] by metis
  then obtain hostv where pes: "pes cs' = Some hostv" using sys_okD(2) [of m cs'] by (auto simp: eval_good_def)
  obtain m' where "for_each (eval_host (eval_fn ev cs' e) hostv e) [0..<vector_getsize hostv] (replicate (vector_getsize hostv) None, m)
      = Some (map (placed_value (objfn_getvalue (eval_fn ev cs' e)) m e) (cs_pes cs'), m')"
    "mem_view m' = mem_view m" "sys_ok m' cs'"
    "\<And>p. p \<in> set (cs_pes cs') \<Longrightarrow> placed_value (objfn_getvalue (eval_fn ev cs' e)) m e p = None \<longleftrightarrow> pe_canplaceLE m p e = Some False"
    using eval_loop [OF cs'(3) pes] by metis
  then show ?thesis using cs' pes by (auto simp: evaluator_eval_alt cloudsystem_getPEs_def)
qed

subsection \<open>Properties of the evaluator\<close>

text \<open>C9: an evaluation of an LE that is not hosted returns one value for each PE, in the order of the
  PEs. The value of a PE is the objective of the whole system with the LE placed there, and \<open>NAN\<close>
  exactly when the PE cannot take the LE. Afterwards every LE, resource, hosted list and index is
  what it was; only the demand statistics have changed.\<close>

theorem evaluator_eval_correct:
  assumes "eval_good ev m cs e"
  shows "\<exists>val m' d. evaluator_eval ev (m, cs, su) (Some e) = Some (Some val, m', cs\<lparr>ds := d\<rparr>, su) \<and>
    val = map (placed_value (objfn_getvalue (eval_fn ev (cs\<lparr>ds := d\<rparr>) e)) m e) (cs_pes cs) \<and>
    (\<forall>i<length val. val ! i = None \<longleftrightarrow> pe_canplaceLE m (cs_pes cs ! i) e = Some False) \<and>
    mem_view m' = mem_view m \<and> sys_ok m' (cs\<lparr>ds := d\<rparr>)"
  using eval_step [OF assms] .

definition sample_ev :: evaluator where
  "sample_ev = \<lparr>policyresourceindex = 0, policyobjective = A_BINPACK\<rparr>"

text \<open>The sample system with one PE and statistics, ready to evaluate the sample LE.\<close>

lemma sample_system:
  obtains cs where "cloudsystem_addPE sample_mem sample_cs (Some 0) = Some (sample_mem, cs)" "cs_pes cs = [0]"
    "eval_good sample_ev sample_mem (cs\<lparr>ds := Some (demandstats_create 0)\<rparr>) 1"
proof -
  have new: "\<forall>p\<in>set (cs_pes sample_cs). pe_name sample_mem p \<noteq> pe_label sample_pe"
    by (simp add: sample_cs_def cs_pes_def)
  obtain cs where cs: "cloudsystem_addPE sample_mem sample_cs (Some 0) = Some (sample_mem, cs)" "sys_ok sample_mem cs"
    "cs_pes cs = cs_pes sample_cs @ [0]" using addPE_step [OF sample_cs_ok sample_heap(2) new] by metis
  then have pes: "cs_pes cs = [0]" by (simp add: sample_cs_def cs_pes_def)
  have "uniform sample_mem cs 2" "all_capacity sample_mem cs" "eval_ready sample_mem cs 1"
    using sample_heap sample_ok
    by (auto simp: uniform_def all_capacity_def eval_ready_def pes sample_res_def)
  moreover have "stats_ok 2 (demandstats_create 0)"
    by (simp add: stats_ok_def demandstats_create_def countmax_def Let_def)
  moreover have "numdemand sample_le = 2" "2 \<le> length (demand sample_le)" by (simp_all add: sample_le_def)
  ultimately have "eval_good sample_ev sample_mem (cs\<lparr>ds := Some (demandstats_create 0)\<rparr>) 1"
    using cs(2) sample_heap(4) by (auto simp: eval_good_def sample_ev_def)
  then show thesis using that cs(1) pes by blast
qed

theorem evaluator_eval_correct_witness:
  "\<exists>cs v m' d. cs_pes cs = [0] \<and>
    evaluator_eval sample_ev (sample_mem, cs, stateupdater_create) (Some 1) = Some (Some [Some v], m', cs\<lparr>ds := d\<rparr>, stateupdater_create) \<and>
    mem_view m' = mem_view sample_mem"
proof -
  obtain cs where pes: "cs_pes cs = [0]" and good: "eval_good sample_ev sample_mem (cs\<lparr>ds := Some (demandstats_create 0)\<rparr>) 1"
    by (rule sample_system)
  let ?cs = "cs\<lparr>ds := Some (demandstats_create 0)\<rparr>"
  have can: "pe_canplaceLE sample_mem 0 1 = Some True"
    using sample_heap sample_ok resource_canuse_eq [OF sample_ok(1,2)]
    by (auto simp: pe_canplaceLE_def sample_res_def sample_le_def less_Suc_eq numeral_2_eq_2)
  obtain val m' d where ev: "evaluator_eval sample_ev (sample_mem, ?cs, stateupdater_create) (Some 1) = Some (Some val, m', ?cs\<lparr>ds := d\<rparr>, stateupdater_create)"
    "length val = 1" "val ! 0 \<noteq> None" "mem_view m' = mem_view sample_mem"
    using evaluator_eval_correct [OF good, of stateupdater_create] pes can by auto
  then obtain v where "val = [Some v]" by (cases val) auto
  then show ?thesis using ev pes by (intro exI [of _ ?cs] exI [of _ v] exI [of _ m'] exI [of _ d]) simp
qed

text \<open>A fresh evaluator has a consistent cloud system without PEs and an updater that is outside a
  session and accepts every generation that is not negative; the memory keeps its LEs and PEs.\<close>

theorem evaluator_create_fresh:
  assumes "heap_ok m"
  shows "\<exists>ev m' cs. evaluator_create m index obj = Some (ev, m', cs, stateupdater_create) \<and>
    sys_ok m' cs \<and> cs_pes cs = [] \<and> mem_view m' = mem_view m \<and>
    (ds cs \<noteq> None \<longleftrightarrow> obj = A_BINPACK) \<and> evaluator_getpolicyobjective ev = defs_objtypeTostring obj"
proof -
  let ?cs = "\<lparr>pes = Some (vector_create :: nat vector), pemap = fresh_table TABLE_STARTSIZE, ds = None,
    orderedutil = None, orderedcount = 0, ismodified = False\<rparr>"
  have create: "cloudsystem_create m (Some vector_create) = Some (m, ?cs)"
    by (simp add: cloudsystem_create_def cloudsystem_resetpes_def hashmap_create_def vector_getsize_def vector_create_def)
  have "sys_ok m (?cs\<lparr>ds := d\<rparr>)" "cs_pes (?cs\<lparr>ds := d\<rparr>) = []" for d
    using assms by (simp_all add: sys_ok_def cs_pes_def pes_ok_def hm.clean_imp_ok name_map_def)
  from this [of None] this [of "Some (demandstats_create 0)"] create show ?thesis
    by (auto simp: evaluator_create_def cloudsystem_setdemandstats_def evaluator_getpolicyobjective_def)
qed

theorem evaluator_create_fresh_witness:
  "\<exists>ev m' cs. evaluator_create sample_mem 0 A_BINPACK = Some (ev, m', cs, stateupdater_create) \<and>
    sys_ok m' cs \<and> cs_pes cs = [] \<and> mem_view m' = mem_view sample_mem \<and>
    (ds cs \<noteq> None \<longleftrightarrow> A_BINPACK = A_BINPACK) \<and> evaluator_getpolicyobjective ev = defs_objtypeTostring A_BINPACK"
  by (rule evaluator_create_fresh [OF sample_heap(1)])

end
