(* ===== verification/Placement.thy ===== *)
theory Placement
  imports Stateupdater
begin

section \<open>Sessions that report LEs (system/stateupdater.c)\<close>

text \<open>
  A session reports LEs with the PE that hosts them, interleaved with the reports of PEs. The updater
  keeps a map of all LEs it knows, filled from the model when the session starts, and a map of the
  placements still to be made; an LE that is reported on another PE is taken off its host at once, and
  put on the new one when the session is closed.

  The theory shows what comes out: whatever was placed before, after the session exactly the LEs
  reported are placed, each on the PE of its last report, provided that this PE was reported too. The
  invariant during a session says for every LE reported that it is either where its last report says, with
  nothing pending, or placed nowhere, with that placement pending.
\<close>

subsection \<open>Where LEs are\<close>

definition le_nm :: "mem \<Rightarrow> nat \<Rightarrow> string" where
  "le_nm m e = le_label (the (h_le m e))"

definition hosted :: "mem \<Rightarrow> nat \<Rightarrow> nat list" where
  "hosted m p = map the (vec_list (hostedLE (the (h_pe m p))))"

definition all_les :: "mem \<Rightarrow> cloudsystem \<Rightarrow> nat list" where
  "all_les m cs = concat (map (hosted m) (cs_pes cs))"

definition host_name :: "mem \<Rightarrow> nat \<Rightarrow> string" where
  "host_name m e = pe_name m (the (host (the (h_le m e))))"

text \<open>The abstract state: the name of the PE an LE is placed on, by the name of the LE.\<close>

definition placements :: "mem \<Rightarrow> cloudsystem \<Rightarrow> string \<rightharpoonup> string" where
  "placements m cs = map_of (map (\<lambda>e. (le_nm m e, host_name m e)) (all_les m cs))"

text \<open>Between sessions: only PEs of the system host LEs, and no two hosted LEs have the same name.\<close>

definition les_idle :: "mem \<Rightarrow> cloudsystem \<Rightarrow> bool" where
  "les_idle m cs \<longleftrightarrow> (\<forall>p e. hosts m p e \<longrightarrow> p \<in> set (cs_pes cs)) \<and> distinct (map (le_nm m) (all_les m cs))"

lemma hosted_iff:
  assumes "heap_ok m" "h_pe m p = Some P"
  shows "e \<in> set (hosted m p) \<longleftrightarrow> hosts m p e"
proof -
  have "None \<notin> set (vec_list (hostedLE P))" using pe_okD(3) [OF heap_okD(1) [OF assms]] .
  then have "map Some (hosted m p) = vec_list (hostedLE P)" using assms(2) map_Some_the by (simp add: hosted_def)
  then have "Some ` set (hosted m p) = set (vec_list (hostedLE P))" by (metis list.set_map)
  then show ?thesis using assms(2) by (auto simp: hosts_def)
qed

lemma all_les_iff:
  assumes "sys_ok m cs"
  shows "e \<in> set (all_les m cs) \<longleftrightarrow> (\<exists>p\<in>set (cs_pes cs). hosts m p e)"
  using hosted_iff [OF sys_okD(1) [OF assms]] sys_okD(5) [OF assms] by (fastforce simp: all_les_def)

lemma host_of:
  assumes "heap_ok m" "hosts m p e"
  obtains E where "h_le m e = Some E" "host E = Some p"
  using heap_okD(2) [OF assms(1)] assms(2) by blast

lemma hosts_unique: "heap_ok m \<Longrightarrow> hosts m p e \<Longrightarrow> hosts m q e \<Longrightarrow> p = q"
  by (metis heap_okD(2) option.inject)

subsection \<open>The invariant of the reports of LEs\<close>

definition where_is :: "mem \<Rightarrow> (string \<rightharpoonup> nat) \<Rightarrow> string \<rightharpoonup> string" where
  "where_is m LM k = do { e \<leftarrow> LM k; E \<leftarrow> h_le m e; p \<leftarrow> host E; Some (pe_name m p) }"

definition known_ok :: "nat \<Rightarrow> mem \<Rightarrow> cloudsystem \<Rightarrow> (string \<rightharpoonup> nat) \<Rightarrow> bool" where
  "known_ok n m cs LM \<longleftrightarrow> (\<forall>p e. hosts m p e \<longrightarrow> p \<in> set (cs_pes cs) \<and> LM (le_nm m e) = Some e) \<and>
     (\<forall>k e. LM k = Some e \<longrightarrow> (\<exists>E. h_le m e = Some E \<and> le_label E = k \<and> le_fits n E))"

text \<open>\<open>L\<close> is the host last reported for each LE reported so far.\<close>

definition pending_ok :: "(string \<rightharpoonup> string) \<Rightarrow> (string \<rightharpoonup> nat) \<Rightarrow> (string \<rightharpoonup> string) \<Rightarrow> (string \<rightharpoonup> string) \<Rightarrow> bool" where
  "pending_ok W LM NP L \<longleftrightarrow> (\<forall>k. L k = None \<longrightarrow> NP k = None) \<and>
     (\<forall>k h. L k = Some h \<longrightarrow> LM k \<noteq> None \<and> (NP k = None \<and> W k = Some h \<or> NP k = Some h \<and> W k = None))"

fun le_session :: "nat \<Rightarrow> nat \<Rightarrow> (string \<rightharpoonup> string) \<Rightarrow> world \<Rightarrow> bool" where
  "le_session n j L (m, cs, su) \<longleftrightarrow>
     (\<exists>s lm np. observedLEs su = Some s \<and> hs_clean s \<and> hs_set s = dom L \<and> j \<le> hs_room s \<and>
        lemap su = Some lm \<and> hm_clean lm \<and> j \<le> hm_room lm \<and>
        newplacements su = Some np \<and> hm_clean np \<and> j \<le> hm_room np \<and>
        known_ok n m cs (hm_map lm) \<and> pending_ok (where_is m (hm_map lm)) (hm_map lm) (hm_map np) L)"

lemma known_okD:
  assumes "known_ok n m cs LM"
  shows "hosts m p e \<Longrightarrow> p \<in> set (cs_pes cs)" "hosts m p e \<Longrightarrow> LM (le_nm m e) = Some e"
    "LM k = Some e \<Longrightarrow> \<exists>E. h_le m e = Some E \<and> le_label E = k \<and> le_fits n E"
  using assms unfolding known_ok_def by blast+

lemma known_inj: "known_ok n m cs LM \<Longrightarrow> LM k = Some e \<Longrightarrow> LM k' = Some e \<Longrightarrow> k = k'"
  using known_okD(3) [of n m cs LM k e] known_okD(3) [of n m cs LM k' e] by auto

text \<open>Where an LE is, in terms of who hosts it.\<close>

lemma where_is_Some:
  assumes "heap_ok m"
  shows "where_is m LM k = Some h \<longleftrightarrow> (\<exists>e p. LM k = Some e \<and> hosts m p e \<and> pe_name m p = h)"
  using heap_okD(2) [OF assms] by (fastforce simp: where_is_def bind_eq_Some_conv)

lemma where_is_None:
  assumes "heap_ok m"
  shows "where_is m LM k = None \<longleftrightarrow> (\<forall>e p. LM k = Some e \<longrightarrow> \<not> hosts m p e)"
  using where_is_Some [OF assms, of LM k] by (metis option.distinct(1) option.exhaust)

lemma where_is_cong:
  assumes "heap_ok m" "heap_ok m'" "same_names m m'" "\<And>p e. LM k = Some e \<Longrightarrow> hosts m' p e = hosts m p e"
  shows "where_is m' LM k = where_is m LM k"
proof -
  have "where_is m' LM k = Some h \<longleftrightarrow> where_is m LM k = Some h" for h
  proof -
    have "pe_name m' p = pe_name m p" if "hosts m p e" for p e
      using that same_names_pe_name [OF assms(3), of p] by (auto simp: hosts_def)
    then show ?thesis unfolding where_is_Some [OF assms(1)] where_is_Some [OF assms(2)] using assms(4) by metis
  qed
  then show ?thesis by (metis option.exhaust)
qed

text \<open>Reports of PEs keep the invariant.\<close>

lemma le_session_frame:
  assumes "le_frame (m, cs, su) (m', cs', su')" "heap_ok m" "heap_ok m'" "le_session n j L (m, cs, su)"
  shows "le_session n j L (m', cs', su')"
proof -
  have f: "h_le m' = h_le m" "\<And>q f. hosts m' q f = hosts m q f" "same_names m m'" "set (cs_pes cs) \<subseteq> set (cs_pes cs')"
    "observedLEs su' = observedLEs su" "lemap su' = lemap su" "newplacements su' = newplacements su"
    using assms(1) by auto
  have W: "where_is m' LM = where_is m LM" for LM
    by (rule ext) (rule where_is_cong [OF assms(2,3) f(3)], simp add: f(2))
  have "known_ok n m' cs' LM" if "known_ok n m cs LM" for LM
    using that f(1,2,4) unfolding known_ok_def le_nm_def by (metis subsetD)
  then show ?thesis using assms(4) f(5-7) by (auto simp: W)
qed

subsection \<open>The report of an LE\<close>

type_synonym le_report = "string \<times> string \<times> int list"

definition report_le :: "le_report \<Rightarrow> nat \<Rightarrow> world \<Rightarrow> world option" where
  "report_le = (\<lambda>(lid, hid, dem) n w. stateupdater_updateLE w lid hid dem n)"

text \<open>The capacities of the PEs, which no LE changes.\<close>

fun capacities :: "world \<Rightarrow> string \<rightharpoonup> int list" where
  "capacities (m, cs, su) = (\<lambda>k. map_option fst (amounts m cs k))"

lemma frame_capacities:
  assumes "same_frame m m'"
  shows "map_option fst (amounts m' cs k) = map_option fst (amounts m cs k)"
proof (cases "cloudsystem_getPE cs k")
  case None
  then show ?thesis by (simp add: amounts_def)
next
  case (Some a)
  have eq: "map_option pe_id (h_pe m' a) = map_option pe_id (h_pe m a)" using assms by (simp add: same_frame_def)
  have cap: "map_option fst (pe_amounts m b) = (case map_option pe_id (h_pe m b) of
      Some (l, i, Some (r, c, ov)) \<Rightarrow> Some c | _ \<Rightarrow> None)" for m b
    by (auto simp: pe_amounts_def pe_id_def bind_eq_Some_conv split: option.splits)
  have "map_option fst (pe_amounts m' a) = map_option fst (pe_amounts m a)" by (simp only: cap eq)
  then show ?thesis using Some by (simp add: amounts_def)
qed

lemma sys_idle_frame: "sys_idle n m cs \<Longrightarrow> heap_ok m' \<Longrightarrow> same_frame m m' \<Longrightarrow> sys_idle n m' cs"
  unfolding sys_idle_def using frame_uniform frame_sys by blast

lemma pending_placed:
  assumes "pending_ok W LM NP L" "W k = Some h" "LM k \<noteq> None"
  shows "pending_ok W LM NP (L(k \<mapsto> h))"
  using assms by (auto simp: pending_ok_def) (metis option.distinct(1) option.exhaust)

lemma pending_recorded:
  assumes "pending_ok W LM NP L" "LM' k \<noteq> None" "W' k = None"
    "\<And>l. l \<noteq> k \<Longrightarrow> LM' l = LM l" "\<And>l. l \<noteq> k \<Longrightarrow> W' l = W l"
  shows "pending_ok W' LM' (NP(k \<mapsto> h)) (L(k \<mapsto> h))"
  using assms by (auto simp: pending_ok_def)

text \<open>The memory after an LE was taken off its host.\<close>

lemma known_removed:
  assumes ok: "heap_ok m" "known_ok n m cs LM" "LM k = Some e" and m': "heap_ok m'" "same_frame m m'"
    "\<And>q f. hosts m' q f \<longleftrightarrow> hosts m q f \<and> \<not> (q = p \<and> f = e)" and h: "hosts m p e"
  shows "known_ok n m' cs LM" "where_is m' LM k = None" "l \<noteq> k \<Longrightarrow> where_is m' LM l = where_is m LM l"
proof -
  have id: "\<exists>E'. h_le m' f = Some E' \<and> le_id E' = le_id E" if "h_le m f = Some E" for f E
    using same_frameD(2) [OF m'(2) that] .
  have nm: "le_nm m' f = le_nm m f" if "hosts m q f" for q f
    using host_of [OF ok(1) that] id by (metis le_id_def le_nm_def option.sel prod.inject)
  have "\<exists>E'. h_le m' f = Some E' \<and> le_label E' = l \<and> le_fits n E'" if "LM l = Some f" for l f
    using known_okD(3) [OF ok(2) that] id by (fastforce simp: le_id_def le_fits_def)
  then show "known_ok n m' cs LM"
    using known_okD(1,2) [OF ok(2)] nm m'(3) unfolding known_ok_def by metis
  show "where_is m' LM k = None"
    unfolding where_is_None [OF m'(1)] m'(3) using ok(3) hosts_unique [OF ok(1) h] by auto
  show "where_is m' LM l = where_is m LM l" if "l \<noteq> k"
    using that known_inj [OF ok(2,3)] m'(3)
    by (intro where_is_cong [OF ok(1) m'(1) same_frame_names [OF m'(2)]]) auto
qed

lemma le_report_placed:
  assumes S: "pe_session n k seen (m, cs, su)" "le_session n (Suc j) L (m, cs, su)"
    and at: "lemap su = Some lm" "hm_map lm lid = Some e" "h_le m e = Some E" "host E = Some p"
  shows "\<exists>w'. stateupdater_updateLE (m, cs, su) lid hid dem n = Some w' \<and> pe_session n k seen w' \<and>
    le_session n j (L(lid \<mapsto> hid)) w' \<and> world_gen w' = gen su \<and> capacities w' = capacities (m, cs, su)"
proof -
  obtain s np where I: "observedLEs su = Some s" "hs_clean s" "hs_set s = dom L" "Suc j \<le> hs_room s"
    "hm_clean lm" "Suc j \<le> hm_room lm" "newplacements su = Some np" "hm_clean np" "Suc j \<le> hm_room np"
    "known_ok n m cs (hm_map lm)" "pending_ok (where_is m (hm_map lm)) (hm_map lm) (hm_map np) L"
    using S(2) at(1) by auto
  obtain s' where s': "hashset_add s lid (h_rng m) = Some (s', h_rng m)" "hs_clean s'" "hs_set s' = insert lid (dom L)" "j \<le> hs_room s'"
    using hs.add_member [OF I(2), of lid "h_rng m"] I(3,4) by auto
  have ok: "sys_idle n m cs" "heap_ok m" "started su" using S(1) by (auto simp: sys_idle_def sys_ok_def)
  have h: "hosts m p e" using heap_okD(2) [OF ok(2)] at(3,4) by blast
  obtain P where P: "h_pe m p = Some P" using h by (auto simp: hosts_def)
  have get: "hashmap_get lm lid = Some e" using hm.get_abs [OF hm.clean_imp_ok [OF I(5)]] at(2) by simp
  have w: "where_is m (hm_map lm) lid = Some (pe_label P)"
    using at P by (simp add: where_is_def pe_name_def)
  show ?thesis
  proof (cases "pe_label P = hid")
    case True
    let ?w = "(m, cs, su\<lparr>observedLEs := Some s'\<rparr>)"
    have "stateupdater_updateLE (m, cs, su) lid hid dem n = Some ?w"
      using ok(3) I(1) s'(1) at get P True
      by (simp add: stateupdater_updateLE_def le_gethost_def pe_getname_def strcmp_eq_0)
    moreover have "le_session n j (L(lid \<mapsto> hid)) ?w"
      using I s'(2-4) at(1,2) pending_placed [OF I(11) w] True by auto
    ultimately show ?thesis using S(1) by auto
  next
    case False
    obtain b m' where m': "pe_removeLE m p e True = Some (b, m')" "heap_ok m'" "same_frame m m'"
      "\<And>q f. hosts m' q f \<longleftrightarrow> hosts m q f \<and> \<not> (q = p \<and> f = e)"
      using remove_step [OF ok(2) h] by metis
    note R = known_removed [OF ok(2) I(10) at(2) m'(2-4) h]
    obtain np' where np': "hashmap_insert np (Some hid) lid (h_rng m') = Some (np', h_rng m')" "hm_clean np'"
      "hm_map np' = (hm_map np)(lid \<mapsto> hid)" "hm_room np - 1 \<le> hm_room np'"
      using hm.ins_returns [OF I(8), of hid lid "h_rng m'"] I(9) by auto
    let ?w = "(m', cs, su\<lparr>observedLEs := Some s', updatedLEs := vector_append (updatedLEs su) (Some lid), newplacements := Some np'\<rparr>)"
    have "stateupdater_updateLE (m, cs, su) lid hid dem n = Some ?w"
      using ok(3) I(1,7) s'(1) at get P False m'(1) np'(1)
      by (simp add: stateupdater_updateLE_def le_gethost_def pe_getname_def strcmp_eq_0 record_placement_def)
    moreover have "le_session n j (L(lid \<mapsto> hid)) ?w"
      using I(5,6,9) s'(2-4) at(1,2) np' R(1) pending_recorded [OF I(11), of "hm_map lm" lid, OF _ R(2) refl R(3)] by auto
    moreover have "pe_session n k seen ?w" using S(1) sys_idle_frame [OF ok(1) m'(2,3)] by auto
    ultimately show ?thesis using frame_capacities [OF m'(3)] by auto
  qed
qed

lemma le_report_unplaced:
  assumes S: "pe_session n k seen (m, cs, su)" "le_session n (Suc j) L (m, cs, su)"
    and at: "lemap su = Some lm" "hm_map lm lid = Some e" "h_le m e = Some E" "host E = None"
  shows "\<exists>w'. stateupdater_updateLE (m, cs, su) lid hid dem n = Some w' \<and> pe_session n k seen w' \<and>
    le_session n j (L(lid \<mapsto> hid)) w' \<and> world_gen w' = gen su \<and> capacities w' = capacities (m, cs, su)"
proof -
  obtain s np where I: "observedLEs su = Some s" "hs_clean s" "hs_set s = dom L" "Suc j \<le> hs_room s"
    "hm_clean lm" "Suc j \<le> hm_room lm" "newplacements su = Some np" "hm_clean np" "Suc j \<le> hm_room np"
    "known_ok n m cs (hm_map lm)" "pending_ok (where_is m (hm_map lm)) (hm_map lm) (hm_map np) L"
    using S(2) at(1) by auto
  obtain s' where s': "hashset_add s lid (h_rng m) = Some (s', h_rng m)" "hs_clean s'" "hs_set s' = insert lid (dom L)" "j \<le> hs_room s'"
    using hs.add_member [OF I(2), of lid "h_rng m"] I(3,4) by auto
  have get: "hashmap_get lm lid = Some e" using hm.get_abs [OF hm.clean_imp_ok [OF I(5)]] at(2) by simp
  have w: "where_is m (hm_map lm) lid = None" using at by (simp add: where_is_def)
  obtain np' where np': "hashmap_insert np (Some hid) lid (h_rng m) = Some (np', h_rng m)" "hm_clean np'"
    "hm_map np' = (hm_map np)(lid \<mapsto> hid)" "hm_room np - 1 \<le> hm_room np'"
    using hm.ins_returns [OF I(8), of hid lid "h_rng m"] I(9) by auto
  let ?w = "(m, cs, su\<lparr>observedLEs := Some s', newplacements := Some np'\<rparr>)"
  have "stateupdater_updateLE (m, cs, su) lid hid dem n = Some ?w"
    using S(1) I(1,7) s'(1) at get np'(1)
    by (simp add: stateupdater_updateLE_def le_gethost_def record_placement_def)
  moreover have "le_session n j (L(lid \<mapsto> hid)) ?w"
    using I(5,6,9,10) s'(2-4) at(1,2) np' pending_recorded [OF I(11), of "hm_map lm" lid, OF _ w refl refl] by auto
  ultimately show ?thesis using S(1) by auto
qed

lemma new_le_frame:
  assumes "heap_ok m" "new_le m E = (x, m')" "host E = None"
  shows "heap_ok m'" "h_pe m' = h_pe m" "h_le m' = (h_le m)(x \<mapsto> E)" "h_le m x = None" "hosts m' q f = hosts m q f" "h_rng m' = h_rng m"
  using assms new_le_ok [OF assms(1,3)] fresh_address [OF assms(1)] by (auto simp: new_le_def hosts_def)

lemma known_new:
  assumes ok: "heap_ok m" "known_ok n m cs LM" "LM k = None" and m': "new_le m E = (x, m')"
    and E: "host E = None" "le_label E = k" "le_fits n E"
  shows "known_ok n m' cs (LM(k \<mapsto> x))" "where_is m' (LM(k \<mapsto> x)) k = None"
    "l \<noteq> k \<Longrightarrow> where_is m' (LM(k \<mapsto> x)) l = where_is m LM l"
proof -
  note N = new_le_frame [OF ok(1) m' E(1)]
  have old: "f \<noteq> x" if "hosts m q f" for q f
    by (rule host_of [OF ok(1) that]) (use N(4) in auto)
  have nm: "le_nm m' f = le_nm m f" if "hosts m q f" for q f using old [OF that] by (simp add: le_nm_def N(3))
  have ne: "le_nm m f \<noteq> k" if "hosts m q f" for q f using known_okD(2) [OF ok(2) that] ok(3) by auto
  have known: "f \<noteq> x" if "LM l = Some f" for l f using known_okD(3) [OF ok(2) that] N(4) by auto
  have "p \<in> set (cs_pes cs) \<and> (LM(k \<mapsto> x)) (le_nm m' e) = Some e" if "hosts m' p e" for p e
    using that known_okD(1,2) [OF ok(2), of p e] nm [of p e] ne [of p e] unfolding N(5) by simp
  moreover have "\<exists>E'. h_le m' f = Some E' \<and> le_label E' = l \<and> le_fits n E'" if "(LM(k \<mapsto> x)) l = Some f" for l f
    using that known_okD(3) [OF ok(2), of l f] known [of l f] E(2,3) by (simp add: N(3) split: if_splits)
  ultimately show "known_ok n m' cs (LM(k \<mapsto> x))" unfolding known_ok_def by blast
  show "where_is m' (LM(k \<mapsto> x)) k = None" using E(1) by (simp add: where_is_def N(3))
  show "where_is m' (LM(k \<mapsto> x)) l = where_is m LM l" if "l \<noteq> k"
    using that known by (cases "LM l") (auto simp: where_is_def N(2,3) pe_name_def)
qed

lemma le_report_new:
  assumes S: "pe_session n k seen (m, cs, su)" "le_session n (Suc j) L (m, cs, su)"
    and at: "lemap su = Some lm" "hm_map lm lid = None" and dem: "n \<le> length dem"
  shows "\<exists>w'. stateupdater_updateLE (m, cs, su) lid hid dem n = Some w' \<and> pe_session n k seen w' \<and>
    le_session n j (L(lid \<mapsto> hid)) w' \<and> world_gen w' = gen su \<and> capacities w' = capacities (m, cs, su)"
proof -
  obtain s np where I: "observedLEs su = Some s" "hs_clean s" "hs_set s = dom L" "Suc j \<le> hs_room s"
    "hm_clean lm" "Suc j \<le> hm_room lm" "newplacements su = Some np" "hm_clean np" "Suc j \<le> hm_room np"
    "known_ok n m cs (hm_map lm)" "pending_ok (where_is m (hm_map lm)) (hm_map lm) (hm_map np) L"
    using S(2) at(1) by auto
  obtain s' where s': "hashset_add s lid (h_rng m) = Some (s', h_rng m)" "hs_clean s'" "hs_set s' = insert lid (dom L)" "j \<le> hs_room s'"
    using hs.add_member [OF I(2), of lid "h_rng m"] I(3,4) by auto
  have ok: "sys_idle n m cs" "sys_ok m cs" "heap_ok m" "started su" using S(1) by (auto simp: sys_idle_def sys_ok_def)
  have get: "hashmap_get lm lid = None" using hm.get_abs [OF hm.clean_imp_ok [OF I(5)]] at(2) by simp
  let ?E = "\<lparr>le_label = lid, demand = take n dem, numdemand = n, host = None\<rparr>"
  obtain x m' where m': "new_le m ?E = (x, m')" by force
  note N = new_le_frame [OF ok(3) m', simplified]
  note K = known_new [OF ok(3) I(10) at(2) m', simplified]
  obtain lm' where lm': "hashmap_insert lm (Some x) lid (h_rng m) = Some (lm', h_rng m)" "hm_clean lm'"
    "hm_map lm' = (hm_map lm)(lid \<mapsto> x)" "hm_room lm - 1 \<le> hm_room lm'"
    using hm.ins_returns [OF I(5), of x lid "h_rng m"] I(6) by auto
  obtain np' where np': "hashmap_insert np (Some hid) lid (h_rng m) = Some (np', h_rng m)" "hm_clean np'"
    "hm_map np' = (hm_map np)(lid \<mapsto> hid)" "hm_room np - 1 \<le> hm_room np'"
    using hm.ins_returns [OF I(8), of hid lid "h_rng m"] I(9) by auto
  have fits: "le_fits n ?E" using dem by (simp add: le_fits_def)
  have rng: "m'\<lparr>h_rng := h_rng m\<rparr> = m'" using N(6) by (metis mem_rng_same)
  let ?w = "(m', cs, su\<lparr>observedLEs := Some s', addedLEs := vector_append (addedLEs su) (Some lid), lemap := Some lm', newplacements := Some np'\<rparr>)"
  have "stateupdater_updateLE (m, cs, su) lid hid dem n = Some ?w"
    using ok(4) I(1,7) s'(1) at get np'(1) lm'(1) m' N(6) rng le_create_eq [of n dem lid] dem
    by (simp add: stateupdater_updateLE_def record_placement_def)
  moreover have "le_session n j (L(lid \<mapsto> hid)) ?w"
    using I(6,9) s'(2-4) np' lm' K(1) [OF fits]
      pending_recorded [OF I(11), of "hm_map lm'" lid "where_is m' (hm_map lm')" hid] K(2,3) [OF fits] by auto
  moreover have "sys_idle n m' cs"
    using ok(1) sys_ok_mem [OF ok(2) N(1)] N(2) by (simp add: sys_idle_def uniform_def same_names_def)
  then have "pe_session n k seen ?w" using S(1) by simp
  moreover have "capacities ?w = capacities (m, cs, su)" by (simp add: amounts_def pe_amounts_def N(2))
  ultimately show ?thesis by auto
qed

lemma le_report_step:
  assumes "pe_session n k seen w" "le_session n (Suc j) L w" "n \<le> length (snd (snd r))"
  shows "\<exists>w'. report_le r n w = Some w' \<and> pe_session n k seen w' \<and>
    le_session n j (L(fst r \<mapsto> fst (snd r))) w' \<and> world_gen w' = world_gen w \<and> capacities w' = capacities w"
proof -
  obtain m cs su lid hid dem where e: "w = (m, cs, su)" "r = (lid, hid, dem)" by (metis prod_cases3)
  obtain lm where lm: "lemap su = Some lm" "known_ok n m cs (hm_map lm)" using assms(2) e by auto
  show ?thesis
  proof (cases "hm_map lm lid")
    case None
    then show ?thesis using le_report_new [of n k seen m cs su j L lm lid dem hid] assms e lm(1) by (simp add: report_le_def)
  next
    case (Some x)
    obtain E where E: "h_le m x = Some E" using known_okD(3) [OF lm(2) Some] by blast
    show ?thesis
      using le_report_placed [of n k seen m cs su j L lm lid x E] le_report_unplaced [of n k seen m cs su j L lm lid x E]
        assms e lm(1) Some E by (cases "host E") (simp_all add: report_le_def)
  qed
qed

subsection \<open>Reports of both kinds in any order\<close>

datatype observation = PE_seen pe_report | LE_seen le_report

fun observe :: "nat \<Rightarrow> observation \<Rightarrow> world \<Rightarrow> world option" where
  "observe n (PE_seen r) w = report r n w"
| "observe n (LE_seen r) w = report_le r n w"

fun observation_ok :: "nat \<Rightarrow> observation \<Rightarrow> bool" where
  "observation_ok n (PE_seen r) \<longleftrightarrow> report_ok n r"
| "observation_ok n (LE_seen r) \<longleftrightarrow> n \<le> length (snd (snd r))"

text \<open>What the observations say: the capacity last reported for each PE, the host last reported for each LE.\<close>

fun pe_seen :: "observation \<Rightarrow> (string \<times> int list) list" where
  "pe_seen (PE_seen (pid, cap, ovf, use)) = [(pid, cap)]"
| "pe_seen (LE_seen r) = []"

fun le_seen :: "observation \<Rightarrow> (string \<times> string) list" where
  "le_seen (PE_seen r) = []"
| "le_seen (LE_seen (lid, hid, dem)) = [(lid, hid)]"

definition seen_capacity :: "observation list \<Rightarrow> string \<rightharpoonup> int list" where
  "seen_capacity os = map_of (rev (concat (map pe_seen os)))"

definition seen_host :: "observation list \<Rightarrow> string \<rightharpoonup> string" where
  "seen_host os = map_of (rev (concat (map le_seen os)))"

lemma dom_seen: "dom (seen_capacity os) = fst ` set (concat (map pe_seen os))"
  by (simp add: seen_capacity_def dom_map_of_conv_image_fst)

lemma observe_step:
  assumes "pe_session n (Suc k) seen w" "le_session n (Suc j) L w" "observation_ok n x"
  shows "\<exists>w'. observe n x w = Some w' \<and> pe_session n k (seen \<union> fst ` set (pe_seen x)) w' \<and>
    le_session n j (L ++ map_of (le_seen x)) w' \<and> world_gen w' = world_gen w \<and> capacities w' = capacities w ++ map_of (pe_seen x)"
proof (cases x)
  case (PE_seen r)
  obtain pid cap ovf use where r: "r = (pid, cap, ovf, use)" by (metis prod_cases4)
  obtain m cs su where w: "w = (m, cs, su)" by (metis prod_cases3)
  obtain m' cs' su' where w': "report r n w = Some (m', cs', su')" "pe_session n k (insert pid seen) (m', cs', su')"
    "amounts m' cs' = (amounts m cs)(pid \<mapsto> (cap, use))" "gen su' = gen su" "le_frame w (m', cs', su')"
    using report_step [OF assms(1), of r] assms(3) PE_seen r w by auto
  have "heap_ok m" "heap_ok m'" using assms(1) w'(2) w by (auto simp: sys_idle_def sys_ok_def)
  then have "le_session n (Suc j) L (m', cs', su')" using le_session_frame w'(5) assms(2) w by blast
  then have "le_session n j L (m', cs', su')" by auto
  moreover have "capacities (m', cs', su') = capacities w ++ map_of (pe_seen x)"
    using w'(3) by (auto simp: PE_seen r w fun_eq_iff map_add_def)
  ultimately show ?thesis using w'(1,2,4) PE_seen r w by auto
next
  case (LE_seen r)
  have "\<exists>w'. report_le r n w = Some w' \<and> pe_session n k seen w' \<and>
    le_session n j (L(fst r \<mapsto> fst (snd r))) w' \<and> world_gen w' = world_gen w \<and> capacities w' = capacities w"
  proof (rule le_report_step)
    show "pe_session n k seen w" using assms(1) by (cases w) auto
  qed (use assms LE_seen in auto)
  then show ?thesis using LE_seen by (cases r) auto
qed

lemma observations_step:
  assumes "pe_session n k seen w" "le_session n k L w" "length os \<le> k" "\<forall>x\<in>set os. observation_ok n x"
  shows "\<exists>w'. for_each (observe n) os w = Some w' \<and> pe_session n 0 (seen \<union> dom (seen_capacity os)) w' \<and>
    le_session n 0 (L ++ seen_host os) w' \<and> world_gen w' = world_gen w \<and> capacities w' = capacities w ++ seen_capacity os"
  using assms
proof (induction os arbitrary: k seen L w)
  case Nil
  then show ?case by (cases w) (auto simp: seen_capacity_def seen_host_def)
next
  case (Cons x os)
  then obtain k' where k: "k = Suc k'" by (cases k) auto
  obtain w1 where w1: "observe n x w = Some w1" "pe_session n k' (seen \<union> fst ` set (pe_seen x)) w1"
    "le_session n k' (L ++ map_of (le_seen x)) w1" "world_gen w1 = world_gen w" "capacities w1 = capacities w ++ map_of (pe_seen x)"
    using observe_step [of n k' seen w k' L x] Cons.prems k by auto
  obtain w' where w': "for_each (observe n) os w1 = Some w'"
    "pe_session n 0 (seen \<union> fst ` set (pe_seen x) \<union> dom (seen_capacity os)) w'"
    "le_session n 0 (L ++ map_of (le_seen x) ++ seen_host os) w'" "world_gen w' = world_gen w1"
    "capacities w' = capacities w1 ++ seen_capacity os"
    using Cons.IH [OF w1(2,3)] Cons.prems k by auto
  have one: "rev (pe_seen x) = pe_seen x" "rev (le_seen x) = le_seen x" by (cases x rule: pe_seen.cases; simp; fail)
    (cases x rule: le_seen.cases; simp)
  have "seen_host (x # os) = map_of (le_seen x) ++ seen_host os" "seen_capacity (x # os) = map_of (pe_seen x) ++ seen_capacity os"
    by (simp_all add: seen_host_def seen_capacity_def map_of_append one)
  then show ?case using w1 w' by (auto simp: dom_map_of_conv_image_fst Un_ac)
qed

subsection \<open>Opening: the map of the LEs in the model\<close>

lemma for_each_concat: "for_each (\<lambda>xs. for_each f xs) xss s = for_each f (concat xss) s"
  by (induction xss arbitrary: s) (auto simp: for_each_append split: bind_splits)

definition fill_body :: "nat \<Rightarrow> nat hashmap \<times> mem \<Rightarrow> (nat hashmap \<times> mem) option" where
  "fill_body e = (\<lambda>(h, m). do { E \<leftarrow> h_le m e; (h, r) \<leftarrow> hashmap_insert h (Some e) (le_getname E) (h_rng m);
     Some (h, m\<lparr>h_rng := r\<rparr>) })"

lemma fill_loop:
  assumes "\<forall>e\<in>set es. h_le m e \<noteq> None" "hm_clean h" "length es \<le> hm_room h"
  shows "\<exists>h'. for_each fill_body es (h, m) = Some (h', m) \<and> hm_clean h' \<and> hm_room h - length es \<le> hm_room h' \<and>
    hm_map h' = hm_map h ++ map_of (rev (map (\<lambda>e. (le_nm m e, e)) es))"
  using assms
proof (induction es arbitrary: h)
  case Nil
  then show ?case by simp
next
  case (Cons e es)
  obtain E where E: "h_le m e = Some E" using Cons.prems(1) by auto
  obtain h1 where h1: "hashmap_insert h (Some e) (le_label E) (h_rng m) = Some (h1, h_rng m)" "hm_clean h1"
    "hm_map h1 = (hm_map h)(le_label E \<mapsto> e)" "hm_room h - 1 \<le> hm_room h1"
    using hm.ins_returns [OF Cons.prems(2), of e "le_label E" "h_rng m"] Cons.prems(3) by auto
  have body: "fill_body e (h, m) = Some (h1, m)" using E h1(1) by (simp add: fill_body_def le_getname_def)
  have "length es \<le> hm_room h1" using h1(4) Cons.prems(3) by simp
  then obtain h' where h': "for_each fill_body es (h1, m) = Some (h', m)" "hm_clean h'" "hm_room h1 - length es \<le> hm_room h'"
    "hm_map h' = hm_map h1 ++ map_of (rev (map (\<lambda>e. (le_nm m e, e)) es))"
    using Cons.IH [OF _ h1(2)] Cons.prems(1) by auto
  have "hm_map h' = hm_map h ++ map_of (rev (map (\<lambda>e. (le_nm m e, e)) (e # es)))"
    unfolding h'(4) h1(3) using E by (simp add: le_nm_def map_of_append fun_eq_iff map_add_def split: option.split)
  then show ?case using h' h1(4) body by auto
qed

text \<open>What the outer loop does for one PE.\<close>

definition fill_pe :: "nat \<Rightarrow> nat hashmap \<times> mem \<Rightarrow> (nat hashmap \<times> mem) option" where
  "fill_pe = (\<lambda>p (h, m). do { P \<leftarrow> h_pe m p; let les = pe_gethostedLE P;
      for_each (\<lambda>j (h, m). do { lej \<leftarrow> vector_get les (int j); E \<leftarrow> h_le m lej;
        (h, r) \<leftarrow> hashmap_insert h (Some lej) (le_getname E) (h_rng m); Some (h, m\<lparr>h_rng := r\<rparr>) })
        [0..<vector_getsize les] (h, m) })"

lemma fill_pe_eq:
  assumes ok: "sys_ok m cs" and pin: "p \<in> set (cs_pes cs)" and same: "h_pe m1 = h_pe m"
  shows "fill_pe p (h1, m1) = for_each fill_body (hosted m p) (h1, m1)"
proof -
  obtain P where P: "h_pe m p = Some P" using sys_okD(5) [OF ok pin] by blast
  note Pok = pe_okD [OF heap_okD(1) [OF sys_okD(1) [OF ok] P]]
  have "for_each (\<lambda>j s. do { e \<leftarrow> vector_get (hostedLE P) (int j); fill_body e s }) [0..<vector_getsize (hostedLE P)] (h1, m1)
      = for_each fill_body (hosted m p) (h1, m1)"
    using for_each_vector [OF Pok(1,3), of fill_body] P by (simp add: hosted_def)
  moreover have "fill_pe p (h1, m1) =
      for_each (\<lambda>j s. do { e \<leftarrow> vector_get (hostedLE P) (int j); fill_body e s }) [0..<vector_getsize (hostedLE P)] (h1, m1)"
    using P same by (simp add: fill_pe_def pe_gethostedLE_def Let_def fill_body_def split_def)
  ultimately show ?thesis by simp
qed

lemma fill_body_pes: "for_each fill_body es (h1, m1) = Some (h', m') \<Longrightarrow> h_pe m' = h_pe m1"
  using for_each_invariant [of fill_body es "(h1, m1)" "(h', m')" "\<lambda>(h, m'). h_pe m' = h_pe m1"]
  by (fastforce simp: fill_body_def bind_eq_Some_conv)

lemma fill_pes_eq:
  assumes "sys_ok m cs" "set ps \<subseteq> set (cs_pes cs)" "h_pe m1 = h_pe m"
  shows "for_each fill_pe ps (h1, m1) = for_each (\<lambda>p. for_each fill_body (hosted m p)) ps (h1, m1)"
  using assms(2,3)
proof (induction ps arbitrary: h1 m1)
  case (Cons p ps)
  have body: "fill_pe p (h1, m1) = for_each fill_body (hosted m p) (h1, m1)" by (rule fill_pe_eq [OF assms(1)]) (use Cons.prems in auto)
  show ?case
  proof (cases "for_each fill_body (hosted m p) (h1, m1)")
    case (Some s)
    obtain h' m' where s: "s = (h', m')" by force
    have "h_pe m' = h_pe m" using fill_body_pes Some s Cons.prems(2) by metis
    then show ?thesis using body Cons.IH [of m' h'] Cons.prems Some s by simp
  qed (use body in simp)
qed simp

lemma fill_lemap_eq:
  assumes ok: "sys_ok m cs"
  shows "fill_lemap m cs h = for_each fill_body (all_les m cs) (h, m)"
proof -
  obtain v where v: "pes cs = Some v" "vec_ok v" "None \<notin> set (vec_list v)" using sys_okD(2) [OF ok] by blast
  have "fill_lemap m cs h = for_each (\<lambda>i s. do { p \<leftarrow> vector_get v (int i); fill_pe p s }) [0..<vector_getsize v] (h, m)"
    unfolding fill_lemap_def cloudsystem_getPEs_def v(1) bind.bind_lunit fill_pe_def
    by (rule for_each_cong) (auto split: prod.split)
  also have "\<dots> = for_each fill_pe (cs_pes cs) (h, m)" using for_each_vector [OF v(2,3), of fill_pe] v(1) by simp
  also have "\<dots> = for_each (\<lambda>xs. for_each fill_body xs) (map (hosted m) (cs_pes cs)) (h, m)"
    using fill_pes_eq [OF ok, of "cs_pes cs" m h] by (simp add: for_each_map)
  finally show ?thesis unfolding for_each_concat all_les_def .
qed

lemma hosted_fits:
  assumes "sys_ok m cs" "uniform m cs n" "p \<in> set (cs_pes cs)" "hosts m p e"
  obtains E where "h_le m e = Some E" "host E = Some p" "le_fits n E"
proof -
  obtain P where P: "h_pe m p = Some P" using sys_okD(5) [OF assms(1,3)] by blast
  obtain R where R: "pe_resource P = Some R" using pe_okD(4) [OF heap_okD(1) [OF sys_okD(1) [OF assms(1)] P]] by blast
  obtain E where E: "h_le m e = Some E" "host E = Some p" by (rule host_of [OF sys_okD(1) [OF assms(1)] assms(4)])
  have "rnum R = n" using assms(2,3) P R by (simp add: uniform_def)
  then show thesis using that [OF E] heap_okD(3) [OF sys_okD(1) [OF assms(1)] assms(4) P R E(1)] by simp
qed

lemma known_start:
  assumes ok: "sys_ok m cs" "uniform m cs n" and idle: "les_idle m cs"
  shows "known_ok n m cs (map_of (rev (map (\<lambda>e. (le_nm m e, e)) (all_les m cs))))"
proof -
  let ?LM = "map_of (rev (map (\<lambda>e. (le_nm m e, e)) (all_les m cs)))"
  have "distinct (map fst (rev (map (\<lambda>e. (le_nm m e, e)) (all_les m cs))))"
    using idle by (simp add: les_idle_def rev_map [symmetric] comp_def)
  then have LM: "?LM k = Some e \<longleftrightarrow> e \<in> set (all_les m cs) \<and> le_nm m e = k" for k e
    by (auto simp: map_of_eq_Some_iff)
  have "p \<in> set (cs_pes cs) \<and> ?LM (le_nm m e) = Some e" if h: "hosts m p e" for p e
    using idle h all_les_iff [OF ok(1)] unfolding LM les_idle_def by blast
  moreover have "\<exists>E. h_le m e = Some E \<and> le_label E = k \<and> le_fits n E" if k: "?LM k = Some e" for k e
  proof -
    obtain p where p: "p \<in> set (cs_pes cs)" "hosts m p e" using k all_les_iff [OF ok(1)] unfolding LM by blast
    obtain E where "h_le m e = Some E" "le_fits n E" using hosted_fits [OF ok p] by metis
    then show ?thesis using k unfolding LM by (simp add: le_nm_def)
  qed
  ultimately show ?thesis unfolding known_ok_def by blast
qed

lemma start_les:
  assumes idle: "sys_idle n m cs" "les_idle m cs" "\<not> started su" and g: "gen su < g"
    and k: "k \<le> hm_room (pemap cs)" "length (cs_pes cs) + k \<le> 1021" "length (all_les m cs) + k \<le> 1021"
  obtains su' where "stateupdater_start (m, cs, su) g = Some (True, m, cs, su')" "pe_session n k {} (m, cs, su')"
    "le_session n k Map.empty (m, cs, su')" "gen su' = g"
proof -
  have ok: "sys_ok m cs" "uniform m cs n" using idle(1) by (auto simp: sys_idle_def)
  have "\<forall>e\<in>set (all_les m cs). h_le m e \<noteq> None"
    using all_les_iff [OF ok(1)] heap_okD(2) [OF sys_okD(1) [OF ok(1)]] by blast
  then obtain lm where lm: "for_each fill_body (all_les m cs) (fresh_table TABLE_STARTSIZE, m) = Some (lm, m)" "hm_clean lm"
    "1021 - length (all_les m cs) \<le> hm_room lm" "hm_map lm = map_of (rev (map (\<lambda>e. (le_nm m e, e)) (all_les m cs)))"
    using fill_loop [of "all_les m cs" m "fresh_table TABLE_STARTSIZE"] k(3) by (auto simp: hm_room_fresh)
  have fill: "fill_lemap m cs (fresh_table TABLE_STARTSIZE) = Some (lm, m)" unfolding fill_lemap_eq [OF ok(1)] by (rule lm(1))
  obtain su' where su': "stateupdater_start (m, cs, su) g = Some (True, m, cs, su')" "pe_session n k {} (m, cs, su')" "gen su' = g"
    "observedLEs su' = Some \<lparr>set_map = fresh_table TABLE_STARTSIZE\<rparr>" "lemap su' = Some lm"
    "newplacements su' = Some (fresh_table TABLE_STARTSIZE)"
    by (rule start_step [OF idle(1,3) g k(1,2) fill])
  have "le_session n k Map.empty (m, cs, su')"
    using su'(4-6) lm(2,3) k known_start [OF ok idle(2)] lm(4) by (auto simp: hm_room_fresh pending_ok_def)
  then show thesis using that su' by blast
qed

subsection \<open>Closing: LEs that were not reported\<close>

definition drop_body :: "nat \<Rightarrow> world \<Rightarrow> world option" where
  "drop_body e = (\<lambda>(m, cs, su).
     do { E \<leftarrow> h_le m e;
          obs \<leftarrow> observedLEs su;
          if \<not> hashset_find obs (le_getname E)
          then (case le_gethost E of
                  Some pei \<Rightarrow> do { (_, m) \<leftarrow> pe_removeLE m pei e True;
                                  Some (m, cs, su\<lparr>deletedLEs := vector_append (deletedLEs su) (Some (le_getname E))\<rparr>) }
                | None \<Rightarrow> Some (m, cs, su))
          else Some (m, cs, su) })"

lemma stop_les_eq:
  assumes "lemap su = Some lm" "hm_ok lm"
  shows "stop_les (m, cs, su) = for_each drop_body (map snd (hm_entries lm)) (m, cs, su)"
proof -
  note E = hm_enumerate(3,4) [OF assms(2)]
  have "None \<notin> set (vec_list (hashmap_getvalues lm))" unfolding E(2) by auto
  from for_each_vector [OF E(1) this, of drop_body] show ?thesis
    using assms(1) by (simp add: stop_les_def Let_def drop_body_def split_def E(2) comp_def)
qed

text \<open>Names do not change, so being reported is a fact about the LE before the loop.\<close>

lemma drop_loop:
  assumes ok: "heap_ok m" and s: "observedLEs su = Some s" "hs_clean s" and es: "\<forall>e\<in>set es. h_le m e \<noteq> None"
  shows "\<exists>m' d. for_each drop_body es (m, cs, su) = Some (m', cs, su\<lparr>deletedLEs := d\<rparr>) \<and> heap_ok m' \<and> same_frame m m' \<and>
    (\<forall>q f. hosts m' q f \<longleftrightarrow> hosts m q f \<and> (f \<in> set es \<longrightarrow> le_nm m f \<in> hs_set s))"
  using assms
proof (induction es arbitrary: m su)
  case Nil
  then show ?case by (auto intro!: exI [of _ m] exI [of _ "deletedLEs su"])
next
  case (Cons e es)
  obtain E where E: "h_le m e = Some E" using Cons.prems(4) by auto
  have find: "hashset_find s (le_label E) \<longleftrightarrow> le_nm m e \<in> hs_set s" using hs.find_member [OF Cons.prems(3)] E by (simp add: le_nm_def)
  obtain m1 d1 where m1: "drop_body e (m, cs, su) = Some (m1, cs, su\<lparr>deletedLEs := d1\<rparr>)" "heap_ok m1" "same_frame m m1"
    "\<And>q f. hosts m1 q f \<longleftrightarrow> hosts m q f \<and> (f = e \<longrightarrow> le_nm m f \<in> hs_set s)"
  proof (cases "le_nm m e \<in> hs_set s \<or> host E = None")
    case True
    have "\<not> hosts m q e" if "host E = None" for q using heap_okD(2) [OF Cons.prems(1), of q e] E that by simp
    moreover have "drop_body e (m, cs, su) = Some (m, cs, su\<lparr>deletedLEs := deletedLEs su\<rparr>)"
      using True E find Cons.prems(2) by (auto simp: drop_body_def le_getname_def le_gethost_def)
    ultimately show thesis using that [of m "deletedLEs su"] True Cons.prems(1) by auto
  next
    case False
    then obtain p where p: "host E = Some p" by blast
    then have h: "hosts m p e" using heap_okD(2) [OF Cons.prems(1)] E by blast
    obtain b m1 where m1: "pe_removeLE m p e True = Some (b, m1)" "heap_ok m1" "same_frame m m1"
      "\<And>q f. hosts m1 q f \<longleftrightarrow> hosts m q f \<and> \<not> (q = p \<and> f = e)"
      using remove_step [OF Cons.prems(1) h] by metis
    have "drop_body e (m, cs, su) = Some (m1, cs, su\<lparr>deletedLEs := vector_append (deletedLEs su) (Some (le_label E))\<rparr>)"
      using False E find Cons.prems(2) p m1(1) by (simp add: drop_body_def le_getname_def le_gethost_def)
    moreover have "hosts m1 q f \<longleftrightarrow> hosts m q f \<and> (f = e \<longrightarrow> le_nm m f \<in> hs_set s)" for q f
      using m1(4) False hosts_unique [OF Cons.prems(1) h] by auto
    ultimately show thesis using that [of m1] m1(2,3) by blast
  qed
  have id: "map_option le_id (h_le m1 a) = map_option le_id (h_le m a)" for a using m1(3) by (simp add: same_frame_def)
  have "\<forall>e\<in>set es. h_le m1 e \<noteq> None" using Cons.prems(4) id by (metis list.set_intros(2) map_option_is_None)
  then obtain m' d where m': "for_each drop_body es (m1, cs, su\<lparr>deletedLEs := d1\<rparr>) = Some (m', cs, su\<lparr>deletedLEs := d1\<rparr>\<lparr>deletedLEs := d\<rparr>)"
    "heap_ok m'" "same_frame m1 m'" "\<And>q f. hosts m' q f \<longleftrightarrow> hosts m1 q f \<and> (f \<in> set es \<longrightarrow> le_nm m1 f \<in> hs_set s)"
    using Cons.IH [OF m1(2), of "su\<lparr>deletedLEs := d1\<rparr>"] Cons.prems(2,3) by auto
  have nm: "le_nm m1 f = le_nm m f" if h: "hosts m q f" for q f
  proof -
    obtain F where F: "h_le m f = Some F" by (rule host_of [OF Cons.prems(1) h])
    then show ?thesis using same_frameD(2) [OF m1(3) F] by (auto simp: le_nm_def le_id_def)
  qed
  have "hosts m' q f \<longleftrightarrow> hosts m q f \<and> (f \<in> set (e # es) \<longrightarrow> le_nm m f \<in> hs_set s)" for q f
    using m'(4) m1(4) nm [of q f] by auto
  then show ?case using m1(1) m'(1-3) same_frame_trans [OF m1(3) m'(3)] by auto
qed

subsection \<open>Closing: the placements that are pending\<close>

definition place_body :: "string hashmap \<Rightarrow> string \<Rightarrow> world \<Rightarrow> world option" where
  "place_body np leID = (\<lambda>(m, cs, su).
     do { lm \<leftarrow> lemap su;
          (case hashmap_get lm leID of
             None \<Rightarrow> Some (m, cs, su)
           | Some lei \<Rightarrow> do { peiID \<leftarrow> hashmap_get np leID;
               (case cloudsystem_getPE cs peiID of
                  None \<Rightarrow> Some (m, cs, su)
                | Some pei \<Rightarrow> do { (_, m) \<leftarrow> pe_placeLE m pei lei True; Some (m, cs, su) }) }) })"

lemma stop_placements_eq:
  assumes "newplacements su = Some np" "hm_ok np"
  shows "stop_placements (m, cs, su) = for_each (place_body np) (map fst (hm_entries np)) (m, cs, su)"
proof -
  note E = hm_enumerate(1,2) [OF assms(2)]
  have "None \<notin> set (vec_list (hashmap_getkeys np))" unfolding E(2) by auto
  from for_each_vector [OF E(1) this, of "place_body np"] show ?thesis
    using assms(1) by (simp add: stop_placements_def Let_def place_body_def split_def E(2) comp_def)
qed

definition unplaced_le :: "nat \<Rightarrow> mem \<Rightarrow> (string \<rightharpoonup> nat) \<Rightarrow> string \<Rightarrow> bool" where
  "unplaced_le n m LM k \<longleftrightarrow> (\<exists>e E. LM k = Some e \<and> h_le m e = Some E \<and> le_label E = k \<and> host E = None \<and> le_fits n E)"

lemma place_one:
  assumes ok: "sys_idle n m cs" and su: "lemap su = Some lm" "hm_ok lm" "hm_ok np"
    and k: "unplaced_le n m (hm_map lm) k" "hm_map np k \<noteq> None"
  obtains m' where "place_body np k (m, cs, su) = Some (m', cs, su)" "heap_ok m'" "same_frame m m'"
    "\<And>q f. hosts m' q f \<longleftrightarrow> hosts m q f \<or>
       (hm_map lm k = Some f \<and> (\<exists>h. hm_map np k = Some h \<and> cloudsystem_getPE cs h = Some q))"
    "\<And>f. hm_map lm k \<noteq> Some f \<Longrightarrow> h_le m' f = h_le m f"
proof -
  obtain e E where e: "hm_map lm k = Some e" "h_le m e = Some E" "host E = None" "le_fits n E"
    using k(1) by (auto simp: unplaced_le_def)
  obtain h where h: "hm_map np k = Some h" using k(2) by blast
  have get: "hashmap_get lm k = Some e" "hashmap_get np k = Some h" using su(2,3) e(1) h by (simp_all add: hm.get_abs)
  have sys: "sys_ok m cs" "uniform m cs n" "heap_ok m" using ok by (auto simp: sys_idle_def sys_ok_def)
  show thesis
  proof (cases "cloudsystem_getPE cs h")
    case None
    then have "place_body np k (m, cs, su) = Some (m, cs, su)" using su(1) get by (simp add: place_body_def)
    then show thesis using that [of m] None sys(3) h by auto
  next
    case (Some q)
    have q: "q \<in> set (cs_pes cs)" using Some getPE_Some_iff [OF sys(1)] by blast
    obtain P where P: "h_pe m q = Some P" using sys_okD(5) [OF sys(1) q] by blast
    obtain R where R: "pe_resource P = Some R" using pe_okD(4) [OF heap_okD(1) [OF sys(3) P]] by blast
    have "rnum R = n" using sys(2) q P R by (simp add: uniform_def)
    then obtain b m' where m': "pe_placeLE m q e True = Some (b, m')" "heap_ok m'" "same_frame m m'"
      "\<And>p f. hosts m' p f \<longleftrightarrow> hosts m p f \<or> (p = q \<and> f = e)" "\<And>f. f \<noteq> e \<Longrightarrow> h_le m' f = h_le m f"
      using place_step [OF sys(3) P R e(2,3)] e(4) by metis
    have "place_body np k (m, cs, su) = Some (m', cs, su)" using su(1) get Some m'(1) by (simp add: place_body_def)
    then show thesis using that [of m'] m'(2-5) Some h e(1) by auto
  qed
qed

lemma place_loop:
  assumes "sys_idle n m cs" "distinct ks" "\<forall>k\<in>set ks. unplaced_le n m (hm_map lm) k \<and> hm_map np k \<noteq> None"
    and su: "lemap su = Some lm" "hm_ok lm" "hm_ok np"
  shows "\<exists>m'. for_each (place_body np) ks (m, cs, su) = Some (m', cs, su) \<and> heap_ok m' \<and> same_frame m m' \<and>
    (\<forall>q f. hosts m' q f \<longleftrightarrow> hosts m q f \<or>
       (\<exists>k\<in>set ks. hm_map lm k = Some f \<and> (\<exists>h. hm_map np k = Some h \<and> cloudsystem_getPE cs h = Some q)))"
  using assms(1-3)
proof (induction ks arbitrary: m)
  case Nil
  then show ?case by (auto simp: sys_idle_def sys_ok_def)
next
  case (Cons k ks)
  obtain m1 where m1: "place_body np k (m, cs, su) = Some (m1, cs, su)" "heap_ok m1" "same_frame m m1"
    "\<And>q f. hosts m1 q f \<longleftrightarrow> hosts m q f \<or>
       (hm_map lm k = Some f \<and> (\<exists>h. hm_map np k = Some h \<and> cloudsystem_getPE cs h = Some q))"
    "\<And>f. hm_map lm k \<noteq> Some f \<Longrightarrow> h_le m1 f = h_le m f"
    using place_one [OF Cons.prems(1) su, of k] Cons.prems(3) by auto
  have "unplaced_le n m1 (hm_map lm) l" if l: "l \<in> set ks" for l
  proof -
    obtain e E where e: "hm_map lm l = Some e" "h_le m e = Some E" "le_label E = l" "host E = None" "le_fits n E"
      using Cons.prems(3) l by (auto simp: unplaced_le_def)
    have "hm_map lm k \<noteq> Some e"
      using Cons.prems(2,3) l e(2,3) by (auto simp: unplaced_le_def)
    then show ?thesis using e m1(5) by (auto simp: unplaced_le_def)
  qed
  then obtain m' where m': "for_each (place_body np) ks (m1, cs, su) = Some (m', cs, su)" "heap_ok m'" "same_frame m1 m'"
    "\<And>q f. hosts m' q f \<longleftrightarrow> hosts m1 q f \<or>
       (\<exists>k\<in>set ks. hm_map lm k = Some f \<and> (\<exists>h. hm_map np k = Some h \<and> cloudsystem_getPE cs h = Some q))"
    using Cons.IH [OF sys_idle_frame [OF Cons.prems(1) m1(2,3)]] Cons.prems(2,3) by auto
  then show ?case using m1(1,4) same_frame_trans [OF m1(3) m'(3)] by auto
qed

subsection \<open>The abstract state in terms of who hosts what\<close>

lemma distinct_concat_map:
  assumes "distinct ps" "\<And>p. p \<in> set ps \<Longrightarrow> distinct (f p)"
    "\<And>p q. p \<in> set ps \<Longrightarrow> q \<in> set ps \<Longrightarrow> p \<noteq> q \<Longrightarrow> set (f p) \<inter> set (f q) = {}"
  shows "distinct (concat (map f ps))"
  using assms
proof (induction ps)
  case (Cons p ps)
  have "set (f p) \<inter> set (f q) = {}" if "q \<in> set ps" for q using Cons.prems(3) [of p q] Cons.prems(1) that by auto
  then have "set (f p) \<inter> set (concat (map f ps)) = {}" by auto
  then show ?case using Cons by auto
qed simp

lemma distinct_all_les:
  assumes "sys_ok m cs"
  shows "distinct (all_les m cs)"
proof -
  note ok = sys_okD(1) [OF assms]
  have one: "distinct (hosted m p)" if p: "p \<in> set (cs_pes cs)" for p
  proof -
    obtain P where P: "h_pe m p = Some P" using sys_okD(5) [OF assms p] by blast
    note Pok = pe_okD [OF heap_okD(1) [OF ok P]]
    have "distinct (map Some (hosted m p))" using Pok(2) map_Some_the [OF Pok(3)] P by (simp add: hosted_def)
    then show ?thesis by (simp add: distinct_map)
  qed
  have "set (hosted m p) \<inter> set (hosted m q) = {}" if "p \<in> set (cs_pes cs)" "q \<in> set (cs_pes cs)" "p \<noteq> q" for p q
    using that hosted_iff [OF ok] sys_okD(5) [OF assms] hosts_unique [OF ok] by (metis disjoint_iff)
  then show ?thesis unfolding all_les_def using one sys_okD(4) [OF assms] by (intro distinct_concat_map) blast+
qed

lemma placements_Some_iff:
  assumes ok: "sys_ok m cs" and idle: "les_idle m cs"
  shows "placements m cs k = Some h \<longleftrightarrow> (\<exists>p e. hosts m p e \<and> le_nm m e = k \<and> pe_name m p = h)"
proof -
  have "distinct (map fst (map (\<lambda>e. (le_nm m e, host_name m e)) (all_les m cs)))"
    using idle by (simp add: les_idle_def comp_def)
  then have "placements m cs k = Some h \<longleftrightarrow> (\<exists>e\<in>set (all_les m cs). le_nm m e = k \<and> host_name m e = h)"
    unfolding placements_def by (subst map_of_eq_Some_iff) auto
  moreover have "host_name m e = pe_name m p" if h: "hosts m p e" for p e
    by (rule host_of [OF sys_okD(1) [OF ok] h]) (simp add: host_name_def)
  ultimately show ?thesis using all_les_iff [OF ok] idle unfolding les_idle_def by metis
qed

lemma les_idleI:
  assumes ok: "sys_ok m cs" and "\<And>p e. hosts m p e \<Longrightarrow> p \<in> set (cs_pes cs) \<and> LM (le_nm m e) = Some e"
  shows "les_idle m cs"
proof -
  have "inj_on (le_nm m) (set (all_les m cs))"
    using assms(2) all_les_iff [OF ok] by (intro inj_onI) (metis option.inject)
  then show ?thesis using assms(2) distinct_all_les [OF ok] by (simp add: les_idle_def distinct_map)
qed

subsection \<open>Closing\<close>

lemma hm_entries_set: "hm_ok h \<Longrightarrow> set (map fst (hm_entries h)) = dom (hm_map h)" "hm_ok h \<Longrightarrow> set (map snd (hm_entries h)) = ran (hm_map h)"
  using distinct_hm_keys [of h] by (simp_all add: hm_map_def dom_map_of_conv_image_fst ran_distinct)

lemma le_id_names:
  assumes "heap_ok m" "hosts m p e" "map_option le_id (h_le m' e) = map_option le_id (h_le m e)"
  shows "le_nm m' e = le_nm m e"
proof -
  obtain E where "h_le m e = Some E" by (rule host_of [OF assms(1,2)])
  then show ?thesis using assms(3) by (auto simp: le_nm_def le_id_def)
qed

text \<open>The LEs after the first two phases: those that are reported and on a PE that is reported.\<close>

lemma drop_step:
  assumes S: "le_session n 0 L (m, cs, su)" and lm: "lemap su = Some lm" and ok: "heap_ok m" "heap_ok m2"
    and id: "\<And>a. map_option le_id (h_le m2 a) = map_option le_id (h_le m a)"
    and h2: "\<And>q f. hosts m2 q f \<longleftrightarrow> hosts m q f \<and> (q \<in> set (cs_pes cs) \<longrightarrow> pe_name m q \<in> seen)"
  obtains m3 d3 where "stop_les (m2, cs2, su\<lparr>deletedPEs := d\<rparr>) = Some (m3, cs2, su\<lparr>deletedPEs := d, deletedLEs := d3\<rparr>)"
    "heap_ok m3" "same_frame m2 m3"
    "\<And>q f. hosts m3 q f \<longleftrightarrow> hosts m q f \<and> pe_name m q \<in> seen \<and> le_nm m f \<in> dom L"
proof -
  obtain s where s: "observedLEs su = Some s" "hs_clean s" "hs_set s = dom L" "hm_clean lm" "known_ok n m cs (hm_map lm)"
    using S lm by auto
  note lmok = hm.clean_imp_ok [OF s(4)]
  let ?es = "map snd (hm_entries lm)" and ?su = "su\<lparr>deletedPEs := d\<rparr>"
  have "h_le m2 e \<noteq> None" if e: "e \<in> set ?es" for e
  proof -
    obtain k where "hm_map lm k = Some e" using e unfolding hm_entries_set(2) [OF lmok] by (auto simp: ran_def)
    then obtain E where "h_le m e = Some E" using known_okD(3) [OF s(5)] by blast
    then show ?thesis using id [of e] by auto
  qed
  then obtain m3 d3 where m3: "for_each drop_body ?es (m2, cs2, ?su) = Some (m3, cs2, ?su\<lparr>deletedLEs := d3\<rparr>)" "heap_ok m3" "same_frame m2 m3"
    "\<And>q f. hosts m3 q f \<longleftrightarrow> hosts m2 q f \<and> (f \<in> set ?es \<longrightarrow> le_nm m2 f \<in> hs_set s)"
    using drop_loop [OF ok(2), of ?su s ?es cs2] s(1,2) by auto
  have "hosts m3 q f \<longleftrightarrow> hosts m q f \<and> pe_name m q \<in> seen \<and> le_nm m f \<in> dom L" for q f
  proof (cases "hosts m q f")
    case True
    have "f \<in> set ?es" unfolding hm_entries_set(2) [OF lmok] using known_okD(2) [OF s(5) True] by (auto simp: ran_def)
    then show ?thesis
      using m3(4) h2 known_okD(1) [OF s(5) True] le_id_names [OF ok(1) True id] s(3) True by auto
  next
    case False
    then show ?thesis using m3(4) h2 by simp
  qed
  moreover have "stop_les (m2, cs2, ?su) = Some (m3, cs2, ?su\<lparr>deletedLEs := d3\<rparr>)"
    using stop_les_eq [of ?su lm m2 cs2] lm lmok m3(1) by simp
  ultimately show thesis using that [of m3 d3] m3(2,3) by simp
qed

text \<open>After the pending placements, an LE is on a PE exactly if that is the PE last reported for it.\<close>

lemma placed_final:
  assumes ok: "sys_ok m cs" "known_ok n m cs LM" "pending_ok (where_is m LM) LM NP L"
    and q: "q \<in> set (cs_pes cs)"
  shows "hosts m q f \<and> le_nm m f \<in> dom L \<or> (\<exists>k. LM k = Some f \<and> NP k = Some (pe_name m q)) \<longleftrightarrow>
    (\<exists>k. LM k = Some f \<and> L k = Some (pe_name m q))"
proof -
  note heap = sys_okD(1) [OF ok(1)]
  have P: "L k = None \<Longrightarrow> NP k = None" "L k = Some h \<Longrightarrow> NP k = None \<and> where_is m LM k = Some h \<or> NP k = Some h \<and> where_is m LM k = None"
    for k h using ok(3) unfolding pending_ok_def by blast+
  have W: "where_is m LM (le_nm m f) = Some (pe_name m q)" "LM (le_nm m f) = Some f" if "hosts m q f"
    using known_okD(2) [OF ok(2) that] that where_is_Some [OF heap] by auto
  have "\<exists>k. LM k = Some f \<and> L k = Some (pe_name m q)" if "hosts m q f" "le_nm m f \<in> dom L"
    using W [OF that(1)] that(2) P(2) by fastforce
  moreover have "L k = Some (pe_name m q)" if "NP k = Some (pe_name m q)" for k
    using P [of k] that by (cases "L k") auto
  moreover have "hosts m q f \<and> le_nm m f \<in> dom L" if k: "LM k = Some f" "L k = Some (pe_name m q)" "NP k \<noteq> Some (pe_name m q)" for k
  proof -
    have "where_is m LM k = Some (pe_name m q)" using P(2) [OF k(2)] k(3) by blast
    then obtain p where p: "hosts m p f" "pe_name m p = pe_name m q" using k(1) unfolding where_is_Some [OF heap] by auto
    have "p \<in> set (cs_pes cs)" using known_okD(1) [OF ok(2) p(1)] .
    then have "p = q" using sys_okD(3) [OF ok(1)] q p(2) by (auto simp: distinct_map inj_on_def)
    moreover have "le_nm m f = k" using known_okD(2) [OF ok(2) p(1)] known_inj [OF ok(2) k(1)] by simp
    ultimately show ?thesis using p(1) k(2) by blast
  qed
  ultimately show ?thesis by blast
qed

lemma pending_unplaced:
  assumes m: "heap_ok m" "known_ok n m cs LM" "pending_ok (where_is m LM) LM NP L" and m3: "heap_ok m3"
    "\<And>a. map_option le_id (h_le m3 a) = map_option le_id (h_le m a)" "\<And>q f. hosts m3 q f \<Longrightarrow> hosts m q f"
    and k: "NP k \<noteq> None"
  shows "unplaced_le n m3 LM k"
proof -
  obtain h where h: "L k = Some h" using m(3) k unfolding pending_ok_def by (metis option.exhaust)
  then have w: "LM k \<noteq> None" "where_is m LM k = None" using m(3) k unfolding pending_ok_def by (blast, metis)
  then obtain e where e: "LM k = Some e" by blast
  obtain E where E: "h_le m e = Some E" "le_label E = k" "le_fits n E" using known_okD(3) [OF m(2) e] by blast
  obtain E3 where E3: "h_le m3 e = Some E3" "le_id E3 = le_id E" using m3(2) [of e] E(1) by auto
  have "\<not> hosts m3 p e" for p using w(2) e m3(3) unfolding where_is_None [OF m(1)] by blast
  then have "host E3 = None" using heap_okD(2) [OF m3(1)] E3(1) by (metis option.exhaust)
  then show ?thesis using e E E3 by (auto simp: unplaced_le_def le_id_def le_fits_def)
qed

lemma placements_final:
  assumes ok: "sys_ok m cs" and nm: "\<And>l e. LM l = Some e \<Longrightarrow> le_nm m e = l"
    and LM: "\<And>l. L l \<noteq> None \<Longrightarrow> LM l \<noteq> None"
    and hosts: "\<And>q f. hosts m q f \<longleftrightarrow> q \<in> set (cs_pes cs) \<and> (\<exists>k. LM k = Some f \<and> L k = Some (pe_name m q))"
  shows "les_idle m cs" "placements m cs =
      (\<lambda>k. case L k of None \<Rightarrow> None | Some h \<Rightarrow> if h \<in> dom (capacities (m, cs, su)) then Some h else None)"
proof -
  have dom: "dom (capacities (m, cs, su)) = pe_name m ` set (cs_pes cs)"
    using amounts_dom [OF ok] by (auto simp: dom_def)
  show idle: "les_idle m cs" using les_idleI [OF ok, of LM] nm unfolding hosts by blast
  have iff: "placements m cs k = Some h \<longleftrightarrow> L k = Some h \<and> h \<in> pe_name m ` set (cs_pes cs)" for k h
  proof -
    have "(\<exists>e. LM k = Some e) \<longleftrightarrow> LM k \<noteq> None" by auto
    moreover have "placements m cs k = Some h \<longleftrightarrow> (\<exists>p\<in>set (cs_pes cs). pe_name m p = h \<and> L k = Some h \<and> (\<exists>e. LM k = Some e))"
      unfolding placements_Some_iff [OF ok idle] hosts using nm by blast
    ultimately show ?thesis using LM [of k] by auto
  qed
  have "placements m cs k = (case L k of None \<Rightarrow> None | Some h \<Rightarrow> if h \<in> pe_name m ` set (cs_pes cs) then Some h else None)" for k
    using iff [of k "the (L k)"] iff [of k "the (placements m cs k)"] by (cases "placements m cs k"; cases "L k") auto
  then show "placements m cs =
      (\<lambda>k. case L k of None \<Rightarrow> None | Some h \<Rightarrow> if h \<in> dom (capacities (m, cs, su)) then Some h else None)"
    unfolding dom by blast
qed

text \<open>All phases of closing a session.\<close>

lemma stop_phases:
  assumes S: "pe_session n k seen (m, cs, su)" "le_session n 0 L (m, cs, su)"
    and su: "lemap su = Some lm" "newplacements su = Some np"
  obtains m' cs' su' where "stateupdater_stop (m, cs, su) = Some (m', cs', su')" "sys_idle n m' cs'" "\<not> ismodified cs'"
    "\<not> started su'" "gen su' = gen su" "capacities (m', cs', su') = capacities (m, cs, su) |` seen"
    "cs_pes cs' = filter (\<lambda>p. pe_name m p \<in> seen) (cs_pes cs)" "same_names m m'"
    "\<And>a. map_option le_id (h_le m' a) = map_option le_id (h_le m a)"
    "\<And>q f. hosts m' q f \<longleftrightarrow> q \<in> set (cs_pes cs') \<and>
       (hosts m q f \<and> le_nm m f \<in> dom L \<or> (\<exists>k. hm_map lm k = Some f \<and> hm_map np k = Some (pe_name m q)))"
proof -
  have I: "hm_clean lm" "hm_clean np" "known_ok n m cs (hm_map lm)"
    "pending_ok (where_is m (hm_map lm)) (hm_map lm) (hm_map np) L" using S(2) su by auto
  note hmok = hm.clean_imp_ok [OF I(1)] hm.clean_imp_ok [OF I(2)]
  have ok: "sys_ok m cs" "heap_ok m" "started su" using S(1) by (auto simp: sys_idle_def sys_ok_def)
  obtain m1 cs1 d m2 cs2 where r: "stop_pes (m, cs, su) = Some (m1, cs1, su\<lparr>deletedPEs := d\<rparr>)"
    "cloudsystem_resetpes m1 cs1 = Some (m2, cs2)" "sys_idle n m2 cs2" "\<not> ismodified cs2"
    "cs_pes cs2 = filter (\<lambda>p. pe_name m p \<in> seen) (cs_pes cs)" "amounts m2 cs2 = amounts m cs |` seen" "same_names m m2"
    and id2: "\<And>a. map_option le_id (h_le m2 a) = map_option le_id (h_le m a)"
    and h2: "\<And>q f. hosts m2 q f \<longleftrightarrow> hosts m q f \<and> (q \<in> set (cs_pes cs) \<longrightarrow> pe_name m q \<in> seen)"
    using stop_pes_reset [OF S(1)] by metis
  have heap2: "heap_ok m2" using r(3) by (simp add: sys_idle_def sys_ok_def)
  obtain m3 d3 where m3: "stop_les (m2, cs2, su\<lparr>deletedPEs := d\<rparr>) = Some (m3, cs2, su\<lparr>deletedPEs := d, deletedLEs := d3\<rparr>)"
    "heap_ok m3" "same_frame m2 m3" and h3: "\<And>q f. hosts m3 q f \<longleftrightarrow> hosts m q f \<and> pe_name m q \<in> seen \<and> le_nm m f \<in> dom L"
    using drop_step [OF S(2) su(1) ok(2) heap2 id2 h2, where ?cs2.0 = cs2 and d = d] by blast
  let ?su3 = "su\<lparr>deletedPEs := d, deletedLEs := d3\<rparr>" and ?ks = "map fst (hm_entries np)"
  have id3: "map_option le_id (h_le m3 a) = map_option le_id (h_le m a)" for a
    using id2 m3(3) by (simp add: same_frame_def)
  have "\<forall>k\<in>set ?ks. unplaced_le n m3 (hm_map lm) k \<and> hm_map np k \<noteq> None"
    using pending_unplaced [OF ok(2) I(3,4) m3(2) id3] h3 unfolding hm_entries_set(1) [OF hmok(2)] by blast
  from place_loop [OF sys_idle_frame [OF r(3) m3(2,3)] distinct_hm_keys [OF hmok(2)] this, of ?su3] su(1) hmok
  obtain m4 where m4: "for_each (place_body np) ?ks (m3, cs2, ?su3) = Some (m4, cs2, ?su3)" "heap_ok m4" "same_frame m3 m4"
    and h4: "\<And>q f. hosts m4 q f \<longleftrightarrow> hosts m3 q f \<or>
       (\<exists>k\<in>set ?ks. hm_map lm k = Some f \<and> (\<exists>h. hm_map np k = Some h \<and> cloudsystem_getPE cs2 h = Some q))" by auto
  note frame = same_frame_trans [OF m3(3) m4(3)]
  let ?su = "?su3\<lparr>observedPEs := None, observedLEs := None, lemap := None, newplacements := None, started := False\<rparr>"
  have "stop_placements (m3, cs2, ?su3) = Some (m4, cs2, ?su3)"
    using stop_placements_eq [of ?su3 np m3 cs2] su(2) hmok(2) m4(1) by simp
  then have stop: "stateupdater_stop (m, cs, su) = Some (m4, cs2, ?su)"
    using ok(3) r(1,2) m3(1) by (simp add: stateupdater_stop_def)
  have get2: "cloudsystem_getPE cs2 h = Some q \<longleftrightarrow> q \<in> set (cs_pes cs2) \<and> pe_name m q = h" for h q
    using getPE_Some_iff [of m2 cs2 h q] r(3,5) same_names_pe_name [OF r(7), of q] sys_okD(5) [OF ok(1), of q]
    by (auto simp: sys_idle_def)
  have "hosts m4 q f \<longleftrightarrow> q \<in> set (cs_pes cs2) \<and>
       (hosts m q f \<and> le_nm m f \<in> dom L \<or> (\<exists>k. hm_map lm k = Some f \<and> hm_map np k = Some (pe_name m q)))" for q f
    unfolding h4 h3 get2 hm_entries_set(1) [OF hmok(2)] using known_okD(1) [OF I(3)] r(5) by auto
  moreover have "capacities (m4, cs2, ?su) = capacities (m, cs, su) |` seen"
    using frame_capacities [OF frame, of cs2] r(6) by (auto simp: fun_eq_iff restrict_map_def)
  moreover have "map_option le_id (h_le m4 a) = map_option le_id (h_le m a)" for a using id3 m4(3) by (simp add: same_frame_def)
  moreover note sys_idle_frame [OF r(3) m4(2) frame] same_names_trans [OF r(7) same_frame_names [OF frame]]
  ultimately show thesis using that [of m4 cs2 ?su] stop r(4,5) by simp
qed

text \<open>The number of LEs the updater has to keep track of.\<close>

fun le_load :: "world \<Rightarrow> nat" where
  "le_load (m, cs, su) =
     (if started su then case lemap su of Some lm \<Rightarrow> hashmap_count lm | None \<Rightarrow> 0 else length (all_les m cs))"

lemma all_les_known:
  assumes ok: "sys_ok m cs" and lm: "hm_ok lm" and h: "\<And>q f. hosts m q f \<Longrightarrow> \<exists>k. hm_map lm k = Some f"
  shows "length (all_les m cs) \<le> hashmap_count lm"
proof -
  have "set (all_les m cs) \<subseteq> set (map snd (hm_entries lm))"
    using all_les_iff [OF ok] h unfolding hm_entries_set(2) [OF lm] by (auto simp: ran_def)
  then have "card (set (all_les m cs)) \<le> length (map snd (hm_entries lm))"
    by (meson card_length card_mono dual_order.trans finite_set)
  then show ?thesis using distinct_card [OF distinct_all_les [OF ok]] hm_okD(3) [OF lm]
    by (simp add: hashmap_count_def hm_entries_def)
qed

lemma stop_les_step:
  assumes S: "pe_session n k seen (m, cs, su)" "le_session n 0 L (m, cs, su)"
  shows "\<exists>m' cs' su'. stateupdater_stop (m, cs, su) = Some (m', cs', su') \<and> sys_idle n m' cs' \<and> \<not> ismodified cs' \<and>
    les_idle m' cs' \<and> \<not> started su' \<and> gen su' = gen su \<and> capacities (m', cs', su') = capacities (m, cs, su) |` seen \<and>
    placements m' cs' = (\<lambda>k. case L k of None \<Rightarrow> None | Some h \<Rightarrow> if h \<in> dom (capacities (m', cs', su')) then Some h else None) \<and>
    length (cs_pes cs') \<le> length (cs_pes cs) \<and> length (all_les m' cs') \<le> le_load (m, cs, su)"
proof -
  obtain lm np where I: "lemap su = Some lm" "newplacements su = Some np" "known_ok n m cs (hm_map lm)"
    "pending_ok (where_is m (hm_map lm)) (hm_map lm) (hm_map np) L" "hm_ok lm"
    using S(2) by (auto dest: hm.clean_imp_ok)
  let ?LM = "hm_map lm"
  have ok: "sys_ok m cs" using S(1) by (auto simp: sys_idle_def)
  obtain m' cs' su' where r: "stateupdater_stop (m, cs, su) = Some (m', cs', su')" "sys_idle n m' cs'" "\<not> ismodified cs'"
    "\<not> started su'" "gen su' = gen su" "capacities (m', cs', su') = capacities (m, cs, su) |` seen"
    "cs_pes cs' = filter (\<lambda>p. pe_name m p \<in> seen) (cs_pes cs)" "same_names m m'"
    and id: "\<And>a. map_option le_id (h_le m' a) = map_option le_id (h_le m a)"
    and h: "\<And>q f. hosts m' q f \<longleftrightarrow> q \<in> set (cs_pes cs') \<and>
       (hosts m q f \<and> le_nm m f \<in> dom L \<or> (\<exists>k. ?LM k = Some f \<and> hm_map np k = Some (pe_name m q)))"
    using stop_phases [OF S I(1,2)] by blast
  have ok': "sys_ok m' cs'" using r(2) by (simp add: sys_idle_def)
  have names: "pe_name m' q = pe_name m q" "q \<in> set (cs_pes cs)" if q: "q \<in> set (cs_pes cs')" for q
    using same_names_pe_name [OF r(8), of q] sys_okD(5) [OF ok, of q] q r(7) by auto
  have nm: "le_nm m' e = l" if l: "?LM l = Some e" for l e
    using known_okD(3) [OF I(3) l] id [of e] by (auto simp: le_nm_def le_id_def)
  have H: "hosts m' q f \<longleftrightarrow> q \<in> set (cs_pes cs') \<and> (\<exists>k. ?LM k = Some f \<and> L k = Some (pe_name m' q))" for q f
    unfolding h using placed_final [OF ok I(3,4) names(2)] names(1) [of q] by (cases "q \<in> set (cs_pes cs')") simp_all
  moreover have "?LM l \<noteq> None" if "L l \<noteq> None" for l using I(4) that unfolding pending_ok_def by blast
  moreover have "length (all_les m' cs') \<le> le_load (m, cs, su)"
    using all_les_known [OF ok' I(5)] H S(1) I(1) by auto
  ultimately have "les_idle m' cs'" "length (all_les m' cs') \<le> le_load (m, cs, su)" "placements m' cs' =
      (\<lambda>k. case L k of None \<Rightarrow> None | Some h \<Rightarrow> if h \<in> dom (capacities (m', cs', su')) then Some h else None)"
    using placements_final(1) [OF ok' nm, where L = L] placements_final(2) [OF ok' nm, where L = L and su = su'] by blast+
  moreover have "length (cs_pes cs') \<le> length (cs_pes cs)" unfolding r(7) by (rule length_filter_le)
  ultimately show ?thesis using r(1-6) by blast
qed

subsection \<open>Whole sessions\<close>

definition run_observed :: "int \<Rightarrow> nat \<Rightarrow> observation list \<Rightarrow> world \<Rightarrow> (bool \<times> world) option" where
  "run_observed g n os w =
     do { (b, w) \<leftarrow> stateupdater_start w g; w \<leftarrow> for_each (observe n) os w; w \<leftarrow> stateupdater_stop w; Some (b, w) }"

text \<open>The specification: LEs are where they were last reported, on PEs that were reported.\<close>

definition seen_placement :: "observation list \<Rightarrow> string \<rightharpoonup> string" where
  "seen_placement os k =
     (case seen_host os k of None \<Rightarrow> None | Some h \<Rightarrow> if seen_capacity os h = None then None else Some h)"

lemma observed_step:
  assumes "sys_idle n m cs" "les_idle m cs" "\<not> started su" "gen su < g" "length os \<le> hm_room (pemap cs)"
    and "length (cs_pes cs) + length os \<le> 1021" "length (all_les m cs) + length os \<le> 1021"
    and "\<forall>x\<in>set os. observation_ok n x"
  shows "\<exists>m' cs' su'. run_observed g n os (m, cs, su) = Some (True, m', cs', su') \<and>
    capacities (m', cs', su') = seen_capacity os \<and> placements m' cs' = seen_placement os \<and>
    sys_idle n m' cs' \<and> les_idle m' cs' \<and> \<not> ismodified cs' \<and> \<not> started su' \<and> gen su' = g \<and> length (cs_pes cs') \<le> 1021"
proof -
  obtain su1 where s1: "stateupdater_start (m, cs, su) g = Some (True, m, cs, su1)" "pe_session n (length os) {} (m, cs, su1)"
    "le_session n (length os) Map.empty (m, cs, su1)" "gen su1 = g"
    by (rule start_les [OF assms(1-7)])
  obtain m2 cs2 su2 where s2: "for_each (observe n) os (m, cs, su1) = Some (m2, cs2, su2)"
    "pe_session n 0 (dom (seen_capacity os)) (m2, cs2, su2)" "le_session n 0 (seen_host os) (m2, cs2, su2)" "gen su2 = g"
    "capacities (m2, cs2, su2) = capacities (m, cs, su1) ++ seen_capacity os"
    using observations_step [OF s1(2,3) order.refl assms(8)] s1(4) by (auto simp del: capacities.simps pe_session.simps le_session.simps)
  obtain m3 cs3 su3 where s3: "stateupdater_stop (m2, cs2, su2) = Some (m3, cs3, su3)" "sys_idle n m3 cs3" "\<not> ismodified cs3"
    "les_idle m3 cs3" "\<not> started su3" "gen su3 = g"
    "capacities (m3, cs3, su3) = capacities (m2, cs2, su2) |` dom (seen_capacity os)"
    "placements m3 cs3 = (\<lambda>k. case seen_host os k of None \<Rightarrow> None | Some h \<Rightarrow> if h \<in> dom (capacities (m3, cs3, su3)) then Some h else None)"
    "length (cs_pes cs3) \<le> length (cs_pes cs2)"
    using stop_les_step [OF s2(2,3)] s2(4) by blast
  have cap: "capacities (m3, cs3, su3) = seen_capacity os"
    unfolding s3(7) s2(5) by (auto simp: fun_eq_iff restrict_map_def map_add_def split: option.splits)
  have "placements m3 cs3 = seen_placement os"
    unfolding s3(8) cap by (auto simp: fun_eq_iff seen_placement_def domIff split: option.split)
  moreover have "run_observed g n os (m, cs, su) = Some (True, m3, cs3, su3)"
    using s1(1) s2(1) s3(1) by (simp add: run_observed_def)
  moreover have "length (cs_pes cs3) \<le> 1021" using s3(9) s2(2) by simp
  ultimately show ?thesis using s3(2-6) cap by blast
qed

text \<open>C2: a session with reports of PEs and LEs in any order refines a simple specification. Whatever PEs and
  placements the model held before, after \<open>stateupdater_start\<close>, the reports and \<open>stateupdater_stop\<close> it holds
  exactly the PEs reported, with the capacities of their last reports, and exactly the LEs reported with a
  PE that was reported are placed, each on the PE of its last report: LEs not reported are removed, LEs
  reported elsewhere are moved. Every call returns and the invariants hold again. The default table size
  bounds the numbers of PEs and LEs.\<close>

theorem session_refines_observations:
  assumes "sys_idle n m cs" "les_idle m cs" "\<not> ismodified cs" "\<not> started su" "gen su < g"
    and "length (cs_pes cs) + length os \<le> 1021" "length (all_les m cs) + length os \<le> 1021"
    and "\<forall>x\<in>set os. observation_ok n x"
  shows "\<exists>m' cs' su'. run_observed g n os (m, cs, su) = Some (True, m', cs', su') \<and>
    capacities (m', cs', su') = seen_capacity os \<and> placements m' cs' = seen_placement os \<and>
    sys_idle n m' cs' \<and> les_idle m' cs' \<and> \<not> ismodified cs' \<and> \<not> started su' \<and> gen su' = g"
  using observed_step [OF assms(1,2,4,5) idle_room [OF assms(1,3,6)] assms(6-8)] by blast

definition sample_obs :: "observation list" where
  "sample_obs = [PE_seen (''n1'', [4], None, [0]), LE_seen (''pod'', ''n2'', [1]), LE_seen (''lost'', ''n9'', [1]),
     PE_seen (''n2'', [8], None, [0]), LE_seen (''pod'', ''n1'', [1])]"

theorem session_refines_observations_witness:
  "\<exists>m' cs' su'. run_observed 1 1 sample_obs
      (\<lparr>h_le = Map.empty, h_pe = Map.empty, h_next = 0, h_rng = (\<lambda>_. 0)\<rparr>, sample_cs, stateupdater_create) = Some (True, m', cs', su') \<and>
    placements m' cs' ''pod'' = Some ''n1'' \<and> placements m' cs' ''lost'' = None \<and> capacities (m', cs', su') ''n2'' = Some [8]"
proof -
  let ?m = "\<lparr>h_le = Map.empty, h_pe = Map.empty, h_next = 0, h_rng = (\<lambda>_. 0)\<rparr>"
  have "sys_idle 1 ?m sample_cs" "les_idle ?m sample_cs" "length (all_les ?m sample_cs) + length sample_obs \<le> 1021"
    "length (cs_pes sample_cs) + length sample_obs \<le> 1021"
    by (simp_all add: sys_idle_def sys_ok_def heap_ok_def hosts_def sample_cs_def cs_pes_def pes_ok_def hm.clean_imp_ok
      name_map_def hm_room_fresh uniform_def les_idle_def all_les_def sample_obs_def)
  moreover have "\<not> ismodified sample_cs" "\<not> started stateupdater_create" "gen stateupdater_create < 1"
    by (simp_all add: sample_cs_def stateupdater_create_def)
  moreover have "\<forall>x\<in>set sample_obs. observation_ok 1 x"
    by (simp add: sample_obs_def report_ok_def amounts_ok_def in_s32_def)
  ultimately obtain m' cs' su' where "run_observed 1 1 sample_obs (?m, sample_cs, stateupdater_create) = Some (True, m', cs', su')"
    "capacities (m', cs', su') = seen_capacity sample_obs" "placements m' cs' = seen_placement sample_obs"
    using session_refines_observations by blast
  moreover have "seen_placement sample_obs ''pod'' = Some ''n1''" "seen_placement sample_obs ''lost'' = None"
    "seen_capacity sample_obs ''n2'' = Some [8]"
    by (simp_all add: seen_placement_def seen_host_def seen_capacity_def sample_obs_def)
  ultimately show ?thesis by (metis capacities.simps)
qed

end
