(* ===== verification/Lifecycle.thy ===== *)
theory Lifecycle
  imports Evaluator Placement
begin

section \<open>The life of an evaluator\<close>

text \<open>
  A caller holds an evaluator for as long as the scheduler runs. It opens and closes sessions, reports
  PEs and LEs, sets the objective and has LEs evaluated, in whatever order its threads produce: a
  session may be opened while another one is open, which closes that one first; a session of an old
  generation is refused, which abandons an open one; reports outside a session are ignored; an
  evaluation may fall into a session.

  This theory models the calls as labels of a step relation on the evaluator, the memory, the cloud
  system and the updater, and shows by rule induction that every state reachable from a fresh evaluator
  satisfies one invariant, \<open>world_ok\<close>, and that every call whose arguments are well formed returns. Two
  consequences follow: the next complete session repairs the model whatever happened before it, and
  destroying the evaluator between sessions frees every PE and every hosted LE exactly once.
\<close>

subsection \<open>The demand statistics are the evaluator's alone\<close>

lemma resetpes_ds: "cloudsystem_resetpes m cs = Some (m', cs') \<Longrightarrow> ds cs' = ds cs"
  by (auto simp: cloudsystem_resetpes_def Let_def bind_eq_Some_conv split: if_splits option.splits)

lemma addPE_ds: "cloudsystem_addPE m cs p = Some (m', cs') \<Longrightarrow> ds cs' = ds cs"
  by (auto simp: cloudsystem_addPE_def Let_def bind_eq_Some_conv split: if_splits option.splits)

lemma removePE_ds: "cloudsystem_remove_PE m cs k = Some (r, m', cs') \<Longrightarrow> ds cs' = ds cs"
  by (auto simp: cloudsystem_remove_PE_def Let_def bind_eq_Some_conv split: if_splits option.splits)

fun world_ds :: "world \<Rightarrow> demandstats option" where
  "world_ds (m, cs, su) = ds cs"

lemma report_ds: "report r n w = Some w' \<Longrightarrow> world_ds w' = world_ds w"
  by (cases w) (auto simp: report_def stateupdater_updatePE_def Let_def bind_eq_Some_conv split_def
      dest: addPE_ds split: if_splits option.splits prod.splits)

lemma for_each_keeps:
  "for_each f xs s = Some s' \<Longrightarrow> (\<And>x s s'. f x s = Some s' \<Longrightarrow> g s' = g s) \<Longrightarrow> g s' = g s"
  by (rule for_each_invariant [where P = "\<lambda>s'. g s' = g s"]) auto

lemma stop_pes_ds: "stop_pes w = Some w' \<Longrightarrow> world_ds w' = world_ds w"
  unfolding stop_pes_def
  by (cases w, clarsimp simp: bind_eq_Some_conv Let_def, drule for_each_keeps [where g = world_ds])
    (auto simp: bind_eq_Some_conv dest: removePE_ds split: if_splits)

lemma stop_les_ds: "stop_les w = Some w' \<Longrightarrow> world_ds w' = world_ds w"
  unfolding stop_les_def
  by (cases w, clarsimp simp: bind_eq_Some_conv Let_def, drule for_each_keeps [where g = world_ds])
    (auto simp: bind_eq_Some_conv split: if_splits option.splits)

lemma stop_placements_ds: "stop_placements w = Some w' \<Longrightarrow> world_ds w' = world_ds w"
  unfolding stop_placements_def
  by (cases w, clarsimp simp: bind_eq_Some_conv Let_def, drule for_each_keeps [where g = world_ds])
    (auto simp: bind_eq_Some_conv split: if_splits option.splits)

lemma stop_ds: "stateupdater_stop w = Some w' \<Longrightarrow> world_ds w' = world_ds w"
  by (cases w) (fastforce simp: stateupdater_stop_def bind_eq_Some_conv
      dest: stop_pes_ds resetpes_ds stop_les_ds stop_placements_ds split: if_splits)

lemma start_ds: "stateupdater_start w g = Some (b, w') \<Longrightarrow> world_ds w' = world_ds w"
  by (cases w) (fastforce simp: stateupdater_start_def bind_eq_Some_conv dest: stop_ds split: if_splits)

lemma session_ds: "run_session g n rs w = Some (b, w') \<Longrightarrow> world_ds w' = world_ds w"
  unfolding run_session_def
  by (clarsimp simp: bind_eq_Some_conv, drule for_each_keeps [where g = world_ds])
    (auto dest: report_ds dest!: start_ds stop_ds)

subsection \<open>Creation and evaluation\<close>

lemma create_idle:
  assumes "heap_ok m" "no_les m"
  shows "\<exists>cs. evaluator_create m index obj = Some (\<lparr>policyresourceindex = index, policyobjective = obj\<rparr>, m, cs, stateupdater_create) \<and>
    idle_ok n m cs \<and> \<not> ismodified cs \<and> cs_pes cs = [] \<and> ds cs = (if obj = A_BINPACK then Some (demandstats_create 0) else None)"
proof -
  let ?cs = "\<lparr>pes = Some (vector_create :: nat vector), pemap = fresh_table TABLE_STARTSIZE,
    ds = (if obj = A_BINPACK then Some (demandstats_create 0) else None), orderedutil = None, orderedcount = 0, ismodified = False\<rparr>"
  have "evaluator_create m index obj = Some (\<lparr>policyresourceindex = index, policyobjective = obj\<rparr>, m, ?cs, stateupdater_create)"
    by (simp add: evaluator_create_def cloudsystem_create_def cloudsystem_resetpes_def hashmap_create_def vector_getsize_def
        vector_create_def cloudsystem_setdemandstats_def)
  moreover have "idle_ok n m ?cs" "cs_pes ?cs = []"
    using assms by (simp_all add: idle_ok_def sys_idle_def sys_ok_def cs_pes_def pes_ok_def hm.clean_imp_ok name_map_def hm_room_fresh uniform_def)
  ultimately show ?thesis by fastforce
qed

lemma new_le_step:
  assumes ok: "heap_ok m" and E: "host E = None" "new_le m E = (e, m')"
  shows "heap_ok m'" "h_pe m' = h_pe m" "h_le m' e = Some E"
proof -
  have m': "e = h_next m" "h_pe m' = h_pe m" "h_le m' = (h_le m)(e \<mapsto> E)" "h_next m' = Suc (h_next m)"
    using E(2) by (auto simp: new_le_def)
  have fresh: "h_le m e = None" using heap_okD(4) [OF ok, of e] m'(1) by simp
  have h: "hosts m' p f = hosts m p f" for p f using m'(2) by (simp add: hosts_def)
  show "heap_ok m'"
  proof (rule heap_okI)
    show "pe_ok P" if "h_pe m' p = Some P" for p P using that m'(2) heap_okD(1) [OF ok] by simp
    show "hosts m' p f \<longleftrightarrow> (\<exists>E. h_le m' f = Some E \<and> host E = Some p)" for p f
      unfolding h heap_okD(2) [OF ok] using m'(3) fresh E(1) by auto
    show "le_fits (rnum R) E'" if "hosts m' p f" "h_pe m' p = Some P" "pe_resource P = Some R" "h_le m' f = Some E'" for p f P R E'
    proof -
      have f: "hosts m p f" "f \<noteq> e" using that(1) h heap_okD(2) [OF ok] fresh by auto
      then show ?thesis using heap_okD(3) [OF ok f(1)] that m'(2,3) by auto
    qed
    show "h_le m' a = None \<and> h_pe m' a = None" if "h_next m' \<le> a" for a
      using that m' heap_okD(4,5) [OF ok, of a] by auto
  qed
qed (use E(2) in \<open>auto simp: new_le_def\<close>)

lemma view_name: "mem_view m' = mem_view m \<Longrightarrow> h_pe m p = Some P \<Longrightarrow> \<exists>P'. h_pe m' p = Some P' \<and> pe_label P' = pe_label P"
  by (metis pe_view_def prod.inject view_pe)

lemma view_hosts:
  assumes "mem_view m' = mem_view m"
  shows "hosts m' p e = hosts m p e"
proof -
  have "map_option pe_view (h_pe m' p) = map_option pe_view (h_pe m p)"
    using assms by (simp add: mem_view_def fun_eq_iff)
  then show ?thesis by (cases "h_pe m p"; cases "h_pe m' p") (simp_all add: hosts_def pe_view_def)
qed


subsection \<open>From reports to evaluations\<close>

lemma pe_reported:
  assumes "sys_ok m cs" "amounts m cs = reported rs" "p \<in> set (cs_pes cs)" "h_pe m p = Some P" "pe_resource P = Some R"
  shows "reported rs (pe_name m p) = Some (capacity R, usage R)" "\<exists>pid ovf. (pid, capacity R, ovf, usage R) \<in> set rs"
proof -
  have "cloudsystem_getPE cs (pe_name m p) = Some p" using getPE_Some_iff [OF assms(1)] assms(3) by simp
  then show r: "reported rs (pe_name m p) = Some (capacity R, usage R)"
    using assms(4,5) unfolding assms(2) [symmetric] by (simp add: amounts_def pe_amounts_def)
  then show "\<exists>pid ovf. (pid, capacity R, ovf, usage R) \<in> set rs"
    by (fastforce simp: reported_def dest: map_of_SomeD)
qed

text \<open>After a session, the system is ready for the evaluation of an LE that has just been created.\<close>

lemma session_ready:
  assumes idle: "idle_ok n m cs" and am: "amounts m cs = reported rs" and rs: "\<forall>r\<in>set rs. report_ok n r"
    and E: "le_create lid dem n = Some E" "new_le m E = (e, m')" "n \<le> length dem"
    and index: "0 \<le> policyresourceindex ev" "policyresourceindex ev < int n"
    and cap: "\<forall>(pid, cap, ovf, use)\<in>set rs. \<forall>c\<in>set cap. 0 < c" and st: "\<forall>d. ds cs = Some d \<longrightarrow> stats_ok n d"
  shows "eval_good ev m' cs e"
proof -
  have ok: "sys_ok m cs" "uniform m cs n" using idle by (auto simp: idle_ok_def sys_idle_def)
  have E': "host E = None" "numdemand E = n" "length (demand E) = n"
    using E(1,3) by (auto simp: le_create_eq)
  note step = new_le_step [OF sys_okD(1) [OF ok(1)] E'(1) E(2)]
  have sys: "sys_ok m' cs" using sys_ok_mem [OF ok(1) step(1)] step(2) by (simp add: same_names_def)
  have un: "uniform m' cs n" using ok(2) step(2) by (simp add: uniform_def)
  have rep: "res_ok R \<and> (\<forall>c\<in>set (capacity R). 0 < c)"
    if pe: "p \<in> set (cs_pes cs)" "h_pe m p = Some P" "pe_resource P = Some R" for p P R
  proof -
    obtain pid ovf where r: "(pid, capacity R, ovf, usage R) \<in> set rs" using pe_reported(2) [OF ok(1) am pe] by blast
    have "res_wf R" using heap_okD(1) [OF sys_okD(1) [OF ok(1)] pe(2)] pe(3) by (auto simp: pe_ok_def)
    then show ?thesis using r rs cap by (fastforce simp: res_ok_def report_ok_def)
  qed
  have "eval_ready m' cs e"
    unfolding eval_ready_def using step(2,3) E'(1,3) rep ok(2) by (intro exI [of _ E]) (auto simp: uniform_def le_fits_def)
  moreover have "all_capacity m' cs" unfolding all_capacity_def step(2) using rep by blast
  ultimately show ?thesis using sys un step(3) E'(2,3) st index unfolding eval_good_def by fastforce
qed

lemma canplace_reported:
  assumes good: "eval_good ev m' cs e" and h: "h_pe m' = h_pe m" "h_le m' e = Some E" and p: "p \<in> set (cs_pes cs)"
    and ok: "sys_ok m cs" "amounts m cs = reported rs" "uniform m cs n" and rep: "reported rs (pe_name m p) = Some (cap, use)"
  obtains P R where "h_pe m p = Some P" "pe_resource P = Some R" "pe_canplaceLE m' p e =
    Some (\<forall>j<n. allowoverflow R ! j \<or> demand E ! j \<le> cap ! j - use ! j)"
proof -
  have g: "sys_ok m' cs" "eval_ready m' cs e" using good by (auto simp: eval_good_def)
  obtain P R E' where at: "h_pe m' p = Some P" "pe_resource P = Some R" "h_le m' e = Some E'" "le_fits (rnum R) E'" "res_ok R"
    using ready_at [OF g p] by metis
  have E': "E' = E" using at(3) h(2) by simp
  have eq: "cap = capacity R" "use = usage R" "rnum R = n"
    using pe_reported(1) [OF ok(1,2) p, of P R] at(1,2) rep h(1) ok(3) p by (auto simp: uniform_def)
  have "pe_canplaceLE m' p e = Some (\<forall>j<n. allowoverflow R ! j \<or> demand E ! j \<le> cap ! j - use ! j)"
    using at resource_canuse_eq [OF at(5,4)] unfolding E' eq by (auto simp: pe_canplaceLE_def)
  then show thesis using that at(1,2) h(1) by simp
qed

lemma reported_dom: "dom (reported rs) = fst ` set rs"
  by (force simp: reported_def dom_map_of_conv_image_fst image_iff split: prod.splits)

subsection \<open>Calls\<close>

text \<open>\<open>Evaluate\<close> is what the caller does for a pod: it creates an LE, has it evaluated and destroys it.\<close>

datatype call = Start int | Report observation | Stop | Evaluate string "int list" | SetObjective "string option"

type_synonym config = "evaluator \<times> world"

definition evaluate_le :: "nat \<Rightarrow> evaluator \<Rightarrow> string \<Rightarrow> int list \<Rightarrow> world \<Rightarrow> (real option list option \<times> world) option" where
  "evaluate_le n ev lid dem = (\<lambda>(m, cs, su).
     do { E \<leftarrow> le_create lid dem n;
          let (e, m) = new_le m E;
          (val, m, cs, su) \<leftarrow> evaluator_eval ev (m, cs, su) (Some e);
          m \<leftarrow> le_destroy m (Some e);
          Some (val, m, cs, su) })"

fun exec :: "nat \<Rightarrow> call \<Rightarrow> config \<Rightarrow> config option" where
  "exec n (Start g) (ev, w) = do { (_, w) \<leftarrow> stateupdater_start w g; Some (ev, w) }"
| "exec n (Report x) (ev, w) = do { w \<leftarrow> observe n x w; Some (ev, w) }"
| "exec n Stop (ev, w) = do { w \<leftarrow> stateupdater_stop w; Some (ev, w) }"
| "exec n (Evaluate lid dem) (ev, w) = do { (_, w) \<leftarrow> evaluate_le n ev lid dem w; Some (ev, w) }"
| "exec n (SetObjective s) (ev, w) = Some (evaluator_setpolicyobjective ev s, w)"

text \<open>What a call relies on. A report needs a free slot in the tables of the session, each of which has the
  default size; opening a session needs one for each LE the model holds. An evaluation needs a demand
  for every resource, a policy resource that exists, and PEs with a positive capacity whose accounts did not overflow.\<close>

definition table_room :: "'a hashmap option \<Rightarrow> nat" where
  "table_room h = (case h of Some h \<Rightarrow> hm_room h | None \<Rightarrow> 0)"

fun spare :: "world \<Rightarrow> nat" where
  "spare (m, cs, su) = Min {hm_room (pemap cs), 1021 - length (cs_pes cs), table_room (map_option set_map (observedPEs su)),
     table_room (map_option set_map (observedLEs su)), table_room (lemap su), table_room (newplacements su)}"

definition sound_pe :: "mem \<Rightarrow> nat \<Rightarrow> bool" where
  "sound_pe m p = (case h_pe m p of None \<Rightarrow> True
     | Some P \<Rightarrow> (case pe_resource P of None \<Rightarrow> True
        | Some R \<Rightarrow> res_ok R \<and> list_all (\<lambda>c. 0 < c) (capacity R)))"

fun enabled :: "nat \<Rightarrow> config \<Rightarrow> call \<Rightarrow> bool" where
  "enabled n (ev, m, cs, su) c = (case c of
     Start g \<Rightarrow> le_load (m, cs, su) \<le> 1021
   | Report x \<Rightarrow> started su \<longrightarrow> observation_ok n x \<and> 0 < spare (m, cs, su)
   | Evaluate lid dem \<Rightarrow> n \<le> length dem \<and> 0 \<le> policyresourceindex ev \<and> policyresourceindex ev < int n \<and>
       list_all (sound_pe m) (cs_pes cs)
   | _ \<Rightarrow> True)"

declare spare.simps [simp del]

inductive step :: "nat \<Rightarrow> config \<Rightarrow> call \<Rightarrow> config \<Rightarrow> bool" for n where
  call: "enabled n c a \<Longrightarrow> exec n a c = Some c' \<Longrightarrow> step n c a c'"

inductive reachable :: "nat \<Rightarrow> config \<Rightarrow> config \<Rightarrow> bool" for n c0 where
  init: "reachable n c0 c0"
| more: "reachable n c0 c \<Longrightarrow> step n c a c' \<Longrightarrow> reachable n c0 c'"

inductive_cases stepE [elim]: "step n c a c'"

subsection \<open>The invariant\<close>

text \<open>In a session, the invariants of \<open>Stateupdater\<close> and \<open>Placement\<close> hold for the reports so far; between
  sessions the model is consistent. The statistics are about the resources of the PEs throughout.\<close>

definition open_session :: "nat \<Rightarrow> world \<Rightarrow> bool" where
  "open_session n w \<longleftrightarrow> (\<exists>seen L. pe_session n 0 seen w \<and> le_session n 0 L w)"

fun world_ok :: "nat \<Rightarrow> world \<Rightarrow> bool" where
  "world_ok n (m, cs, su) \<longleftrightarrow> (\<forall>d. ds cs = Some d \<longrightarrow> stats_ok n d) \<and> length (cs_pes cs) \<le> 1021 \<and>
     (if started su then open_session n (m, cs, su)
      else sys_idle n m cs \<and> les_idle m cs)"

lemma pe_session_less: "pe_session n k seen w \<Longrightarrow> j \<le> k \<Longrightarrow> pe_session n j seen w"
  by (cases w) auto

lemma le_session_less: "le_session n k L w \<Longrightarrow> j \<le> k \<Longrightarrow> le_session n j L w"
  by (cases w) (simp, elim exE conjE, simp)

lemma session_spare:
  assumes "pe_session n 0 seen w" "le_session n 0 L w"
  shows "pe_session n (spare w) seen w" "le_session n (spare w) L w"
proof -
  obtain m cs su where w: "w = (m, cs, su)" by (metis prod_cases3)
  obtain s where s: "sys_idle n m cs" "started su" "length (cs_pes cs) \<le> 1021" "observedPEs su = Some s" "hs_clean s" "hs_set s = seen"
    using assms(1) unfolding w by auto
  moreover have "spare w \<le> hm_room (pemap cs)" "spare w \<le> 1021 - length (cs_pes cs)" "spare w \<le> hs_room s"
    using s(4) by (simp_all add: w spare.simps table_room_def hs_room_def min_le_iff_disj)
  ultimately show "pe_session n (spare w) seen w" unfolding w pe_session.simps by auto
  obtain t lm np where t: "observedLEs su = Some t" "hs_clean t" "hs_set t = dom L" "lemap su = Some lm" "hm_clean lm"
    "newplacements su = Some np" "hm_clean np" "known_ok n m cs (hm_map lm)"
    "pending_ok (where_is m (hm_map lm)) (hm_map lm) (hm_map np) L"
    using assms(2) unfolding w by auto
  moreover have "spare w \<le> hs_room t" "spare w \<le> hm_room lm" "spare w \<le> hm_room np"
    using t(1,4,6) by (simp_all add: w spare.simps table_room_def hs_room_def min_le_iff_disj)
  ultimately show "le_session n (spare w) L w" unfolding w le_session.simps by auto
qed

lemma open_sessionI: "pe_session n k seen w \<Longrightarrow> le_session n j L w \<Longrightarrow> open_session n w"
  unfolding open_session_def using pe_session_less le_session_less by blast

lemma open_sessionE:
  assumes "open_session n w"
  obtains seen L where "pe_session n (spare w) seen w" "le_session n (spare w) L w"
  using assms session_spare unfolding open_session_def by blast

lemma abandoned_idle:
  assumes "open_session n (m, cs, su)"
  shows "sys_idle n m cs" "les_idle m cs"
proof -
  obtain seen L where S: "pe_session n 0 seen (m, cs, su)" "le_session n 0 L (m, cs, su)"
    using assms unfolding open_session_def by blast
  show "sys_idle n m cs" using S(1) by simp
  then have ok: "sys_ok m cs" by (simp add: sys_idle_def)
  obtain lm where "known_ok n m cs (hm_map lm)" using S(2) by auto
  then show "les_idle m cs" using les_idleI [OF ok, of "hm_map lm"] known_okD(1,2) by blast
qed

subsection \<open>Every call keeps the invariant\<close>

lemma stop_keeps:
  assumes ok: "world_ok n (m, cs, su)"
  obtains m' cs' su' where "stateupdater_stop (m, cs, su) = Some (m', cs', su')" "world_ok n (m', cs', su')" "\<not> started su'"
    "gen su' = gen su" "length (all_les m' cs') \<le> le_load (m, cs, su)" "length (cs_pes cs') \<le> length (cs_pes cs)"
    "if started su then \<not> ismodified cs' else (m', cs', su') = (m, cs, su)"
proof (cases "started su")
  case False
  show thesis by (rule that [of m cs su]) (use ok False in \<open>simp_all add: stateupdater_stop_def\<close>)
next
  case True
  then obtain seen L where S: "pe_session n 0 seen (m, cs, su)" "le_session n 0 L (m, cs, su)"
    using ok unfolding world_ok.simps open_session_def by auto
  obtain m' cs' su' where r: "stateupdater_stop (m, cs, su) = Some (m', cs', su')" "sys_idle n m' cs'" "\<not> ismodified cs'"
    "les_idle m' cs'" "\<not> started su'" "gen su' = gen su" "length (cs_pes cs') \<le> length (cs_pes cs)"
    "length (all_les m' cs') \<le> le_load (m, cs, su)"
    using stop_les_step [OF S] by metis
  moreover have "ds cs' = ds cs" using stop_ds [OF r(1)] by simp
  ultimately have "world_ok n (m', cs', su')" using ok by simp
  then show thesis using that r True by simp
qed

lemma start_stop:
  assumes "started su" "gen su < g" "stateupdater_stop (m, cs, su) = Some (m', cs', su')" "gen su' = gen su" "\<not> started su'"
  shows "stateupdater_start (m, cs, su) g = stateupdater_start (m', cs', su') g"
  using assms by (simp add: stateupdater_start_def not_le)

lemma start_idle_keeps:
  assumes ok: "world_ok n (m, cs, su)" and idle: "\<not> started su" "gen su < g" "length (all_les m cs) \<le> 1021"
  obtains su' where "stateupdater_start (m, cs, su) g = Some (True, m, cs, su')" "world_ok n (m, cs, su')" "gen su' = g"
    "started su'"
proof -
  have c: "sys_idle n m cs" "les_idle m cs" "length (cs_pes cs) + 0 \<le> 1021" using ok idle(1) by simp_all
  obtain su' where su': "stateupdater_start (m, cs, su) g = Some (True, m, cs, su')" "pe_session n 0 {} (m, cs, su')"
    "le_session n 0 Map.empty (m, cs, su')" "gen su' = g"
    by (rule start_les [OF c(1,2) idle(1,2) le0 c(3)]) (use idle(3) in auto)
  have "started su'" using su'(2) by simp
  moreover have "world_ok n (m, cs, su')"
    using ok open_sessionI [OF su'(2,3)] \<open>started su'\<close> by simp
  ultimately show thesis using that su' by blast
qed

lemma start_keeps:
  assumes ok: "world_ok n w" and load: "le_load w \<le> 1021"
  obtains b w' where "stateupdater_start w g = Some (b, w')" "world_ok n w'" "b \<longleftrightarrow> world_gen w < g"
    "started (snd (snd w')) \<longleftrightarrow> world_gen w < g" "world_gen w' = max g (world_gen w)"
proof -
  obtain m cs su where w: "w = (m, cs, su)" by (metis prod_cases3)
  consider "g \<le> gen su" | "gen su < g" "\<not> started su" | "gen su < g" "started su" by linarith
  then show thesis
  proof cases
    case 1
    have "sys_idle n m cs \<and> les_idle m cs"
      using ok abandoned_idle [of n m cs su] by (simp add: w split: if_splits)
    then have "world_ok n (m, cs, su\<lparr>started := False\<rparr>)" using ok by (simp add: w)
    moreover have "stateupdater_start w g = Some (False, m, cs, su\<lparr>started := False\<rparr>)" using 1 by (simp add: w stateupdater_start_def)
    ultimately show ?thesis using that [of False "(m, cs, su\<lparr>started := False\<rparr>)"] 1 by (simp add: w)
  next
    case 2
    obtain su' where "stateupdater_start (m, cs, su) g = Some (True, m, cs, su')" "world_ok n (m, cs, su')" "gen su' = g" "started su'"
      by (rule start_idle_keeps [OF ok [unfolded w] 2(2,1)]) (use load 2 in \<open>auto simp: w\<close>)
    then show ?thesis using that [of True "(m, cs, su')"] 2 by (simp add: w)
  next
    case 3
    obtain m1 cs1 su1 where s: "stateupdater_stop (m, cs, su) = Some (m1, cs1, su1)" "world_ok n (m1, cs1, su1)" "\<not> started su1"
      "gen su1 = gen su" "length (all_les m1 cs1) \<le> le_load w"
      using stop_keeps [OF ok [unfolded w]] unfolding w by metis
    have "length (all_les m1 cs1) \<le> 1021" "gen su1 < g" using s(4,5) load 3(1) by simp_all
    then obtain su' where "stateupdater_start (m1, cs1, su1) g = Some (True, m1, cs1, su')" "world_ok n (m1, cs1, su')" "gen su' = g" "started su'"
      using start_idle_keeps [OF s(2,3)] by metis
    then show ?thesis using that [of True "(m1, cs1, su')"] start_stop [OF 3(2,1) s(1,4,3)] 3 by (simp add: w)
  qed
qed

lemma observe_idle: "\<not> started su \<Longrightarrow> observe n x (m, cs, su) = Some (m, cs, su)"
  by (cases x) (auto simp: report_def report_le_def stateupdater_updatePE_def stateupdater_updateLE_def split_def)

lemma record_ds: "record_placement w l h = Some w' \<Longrightarrow> world_ds w' = world_ds w"
  by (cases w) (auto simp: record_placement_def bind_eq_Some_conv)

lemma report_le_ds: "report_le r n w = Some w' \<Longrightarrow> world_ds w' = world_ds w"
  by (cases w, cases r) (auto simp: report_le_def stateupdater_updateLE_def Let_def bind_eq_Some_conv split_def
      dest!: record_ds split: if_splits option.splits)

lemma observe_ds: "observe n x w = Some w' \<Longrightarrow> world_ds w' = world_ds w"
  by (cases x) (auto dest: report_ds report_le_ds)

lemma observe_keeps:
  assumes ok: "world_ok n w" and en: "enabled n (ev, w) (Report x)"
  obtains w' where "observe n x w = Some w'" "world_ok n w'" "world_gen w' = world_gen w"
proof -
  obtain m cs su where w: "w = (m, cs, su)" by (metis prod_cases3)
  show thesis
  proof (cases "started su")
    case False
    then show ?thesis using that [of w] observe_idle ok by (simp add: w)
  next
    case True
    obtain seen L where S: "pe_session n (spare w) seen w" "le_session n (spare w) L w"
      by (rule open_sessionE [of n w]) (use ok True in \<open>simp add: w\<close>)
    have x: "observation_ok n x" "Suc 0 \<le> spare w" using en True by (auto simp: w)
    obtain w' where w': "observe n x w = Some w'" "pe_session n 0 (seen \<union> fst ` set (pe_seen x)) w'"
      "le_session n 0 (L ++ map_of (le_seen x)) w'" "world_gen w' = world_gen w"
      using observe_step [OF pe_session_less [OF S(1) x(2)] le_session_less [OF S(2) x(2)] x(1)] by blast
    obtain m' cs' su' where eq: "w' = (m', cs', su')" by (metis prod_cases3)
    have "ds cs' = ds cs" using observe_ds [OF w'(1)] by (simp add: eq w)
    moreover have "started su'" "length (cs_pes cs') \<le> 1021" using w'(2) by (simp_all add: eq)
    ultimately have "world_ok n w'" using open_sessionI [OF w'(2,3)] ok by (simp add: eq w)
    then show ?thesis using that w'(1,4) by blast
  qed
qed

text \<open>An LE that no PE hosts can be freed.\<close>

lemma destroy_unhosted:
  assumes ok: "heap_ok m" and E: "h_le m e = Some E" "host E = None"
  obtains m' where "le_destroy m (Some e) = Some m'" "heap_ok m'" "h_le m' = (h_le m)(e := None)" "h_pe m' = h_pe m"
    "h_rng m' = h_rng m"
proof -
  let ?m = "m\<lparr>h_le := (h_le m)(e := None)\<rparr>"
  have h: "hosts ?m q f = hosts m q f" for q f by (simp add: hosts_def)
  have ne: "f \<noteq> e" if "hosts m q f" for q f using that heap_okD(2) [OF ok, of q f] E by auto
  have "heap_ok ?m"
  proof (rule heap_okI)
    show "pe_ok P" if "h_pe ?m q = Some P" for q P using heap_okD(1) [OF ok, of q P] that by simp
    show "hosts ?m q f \<longleftrightarrow> (\<exists>E. h_le ?m f = Some E \<and> host E = Some q)" for q f
      unfolding h heap_okD(2) [OF ok] using E by auto
    show "le_fits (rnum R) F" if "hosts ?m q f" "h_pe ?m q = Some P" "pe_resource P = Some R" "h_le ?m f = Some F" for q f P R F
      using heap_okD(3) [OF ok, of q f P R F] ne [of q f] that unfolding h by simp
    show "h_le ?m a = None \<and> h_pe ?m a = None" if "h_next ?m \<le> a" for a using heap_okD(4,5) [OF ok, of a] that by simp
  qed
  moreover have "le_destroy m (Some e) = Some ?m" using E by (simp add: le_destroy_def)
  ultimately show thesis using that [of ?m] by simp
qed

lemma eval_stats:
  assumes "eval_good ev m cs e" "h_le m e = Some E" "evaluator_eval ev (m, cs, su) (Some e) = Some (v, m', cs', su')" "ds cs' = Some d"
  shows "stats_ok (numdemand E) d"
proof -
  obtain cs1 where cs1: "add_sample m cs e = Some cs1" "eval_good ev m cs1 e" using add_sample_step [OF assms(1)] by metis
  have "cs' = cs1" using assms(3) cs1(1) by (auto simp: evaluator_eval_alt Let_def bind_eq_Some_conv split_def)
  then show ?thesis using cs1(2) assms(2,4) by (auto simp: eval_good_def)
qed

lemma fresh_le_good:
  assumes ok: "sys_ok m cs" "uniform m cs n" and st: "\<forall>d. ds cs = Some d \<longrightarrow> stats_ok n d"
    and E: "new_le m E = (e, m1)" "host E = None" "numdemand E = n" "n \<le> length (demand E)"
    and index: "0 \<le> policyresourceindex ev" "policyresourceindex ev < int n" and sound: "list_all (sound_pe m) (cs_pes cs)"
  shows "eval_good ev m1 cs e"
proof -
  note step = new_le_step [OF sys_okD(1) [OF ok(1)] E(2,1)]
  have S: "res_ok R \<and> (\<forall>c\<in>set (capacity R). 0 < c)"
    if "p \<in> set (cs_pes cs)" "h_pe m p = Some P" "pe_resource P = Some R" for p P R
    using sound that by (auto simp: list_all_iff sound_pe_def)
  have "sys_ok m1 cs" using sys_ok_mem [OF ok(1) step(1)] step(2) by (simp add: same_names_def)
  moreover have un: "uniform m1 cs n" using ok(2) step(2) by (simp add: uniform_def)
  moreover have "all_capacity m1 cs" unfolding all_capacity_def step(2) using S by blast
  moreover have "eval_ready m1 cs e"
    unfolding eval_ready_def using step(2,3) E(2,4) S ok(2) by (intro exI [of _ E]) (auto simp: uniform_def le_fits_def)
  ultimately show ?thesis using step(3) E(3,4) st index unfolding eval_good_def by fastforce
qed

text \<open>An evaluation leaves the model as it was, the statistics and the insides of vectors aside.\<close>

lemma evaluate_values:
  assumes ok: "sys_ok m cs" "uniform m cs n" "\<forall>d. ds cs = Some d \<longrightarrow> stats_ok n d"
    and en: "enabled n (ev, m, cs, su) (Evaluate lid dem)"
  obtains val m' d where "evaluate_le n ev lid dem (m, cs, su) = Some (Some val, m', cs\<lparr>ds := d\<rparr>, su)"
    "length val = length (cs_pes cs)" "\<forall>x. d = Some x \<longrightarrow> stats_ok n x" "heap_ok m'" "mem_view m' = mem_view m"
    "\<And>i P R. i < length val \<Longrightarrow> h_pe m (cs_pes cs ! i) = Some P \<Longrightarrow> pe_resource P = Some R \<Longrightarrow>
      (val ! i = None \<longleftrightarrow> (\<exists>j<n. \<not> allowoverflow R ! j \<and> capacity R ! j - usage R ! j < dem ! j))"
proof -
  let ?E = "\<lparr>le_label = lid, demand = take n dem, numdemand = n, host = None\<rparr>"
  have n: "n \<le> length dem" "0 \<le> policyresourceindex ev" "policyresourceindex ev < int n" "list_all (sound_pe m) (cs_pes cs)"
    using en by auto
  obtain e m1 where e: "new_le m ?E = (e, m1)" by force
  note N = new_le_frame [OF sys_okD(1) [OF ok(1)] e, simplified]
  have E1: "h_le m1 e = Some ?E" using N(3) by simp
  have good: "eval_good ev m1 cs e" by (rule fresh_le_good [OF ok e _ _ _ n(2-4)]) (use n(1) in simp_all)
  obtain val m2 d where v: "evaluator_eval ev (m1, cs, su) (Some e) = Some (Some val, m2, cs\<lparr>ds := d\<rparr>, su)"
    "length val = length (cs_pes cs)" "mem_view m2 = mem_view m1" "sys_ok m2 (cs\<lparr>ds := d\<rparr>)"
    "\<forall>i<length val. val ! i = None \<longleftrightarrow> pe_canplaceLE m1 (cs_pes cs ! i) e = Some False"
    using eval_step [OF good, of su] by auto
  have le2: "h_le m2 = h_le m1" using v(3) by (simp add: mem_view_def)
  obtain m3 where m3: "le_destroy m2 (Some e) = Some m3" "heap_ok m3" "h_le m3 = (h_le m2)(e := None)" "h_pe m3 = h_pe m2"
    by (rule destroy_unhosted [OF sys_okD(1) [OF v(4)]]) (use E1 le2 in auto)
  have "h_le m3 = h_le m" unfolding m3(3) le2 N(3) using N(4) by (auto simp: fun_eq_iff)
  then have view: "mem_view m3 = mem_view m" using v(3) m3(4) N(2) by (simp add: mem_view_def)
  have run: "evaluate_le n ev lid dem (m, cs, su) = Some (Some val, m3, cs\<lparr>ds := d\<rparr>, su)"
    using le_create_eq [OF n(1)] e v(1) m3(1) by (simp add: evaluate_le_def)
  have st: "\<forall>x. d = Some x \<longrightarrow> stats_ok n x" using eval_stats [OF good E1 v(1)] by simp
  have fit: "val ! i = None \<longleftrightarrow> (\<exists>j<n. \<not> allowoverflow R ! j \<and> capacity R ! j - usage R ! j < dem ! j)"
    if i: "i < length val" and P: "h_pe m (cs_pes cs ! i) = Some P" "pe_resource P = Some R" for i P R
  proof -
    have p: "cs_pes cs ! i \<in> set (cs_pes cs)" using i v(2) by simp
    have R: "res_ok R" "rnum R = n" using n(4) ok(2) p P by (auto simp: list_all_iff sound_pe_def uniform_def)
    have "pe_canplaceLE m1 (cs_pes cs ! i) e = Some (\<forall>j<n. allowoverflow R ! j \<or> dem ! j \<le> capacity R ! j - usage R ! j)"
      using P N(2) E1 R n(1) resource_canuse_eq [of R ?E] by (simp add: pe_canplaceLE_def le_fits_def)
    then show ?thesis using v(5) i by (auto simp: not_le)
  qed
  show thesis by (rule that [OF run v(2) st m3(2) view fit])
qed

lemma evaluate_step:
  assumes ok: "sys_ok m cs" "uniform m cs n" "\<forall>d. ds cs = Some d \<longrightarrow> stats_ok n d"
    and en: "enabled n (ev, m, cs, su) (Evaluate lid dem)"
  obtains val m' d where "evaluate_le n ev lid dem (m, cs, su) = Some (Some val, m', cs\<lparr>ds := d\<rparr>, su)"
    "length val = length (cs_pes cs)" "\<forall>x. d = Some x \<longrightarrow> stats_ok n x" "heap_ok m'" "mem_view m' = mem_view m"
  by (rule evaluate_values [OF assms]) (rule that)

lemma view_same_frame:
  assumes "mem_view m' = mem_view m"
  shows "same_names m m'" "h_le m' = h_le m" "hosts m' p e = hosts m p e" "uniform m' cs n = uniform m cs n" "hosted m' p = hosted m p"
proof -
  have pe: "map_option pe_view (h_pe m' p) = map_option pe_view (h_pe m p)" for p
    using assms by (simp add: mem_view_def fun_eq_iff)
  show "same_names m m'" unfolding same_names_def using view_name [OF assms] by blast
  show "h_le m' = h_le m" using assms by (simp add: mem_view_def)
  show "hosts m' p e = hosts m p e" by (rule view_hosts [OF assms])
  show "hosted m' p = hosted m p" using pe [of p] by (cases "h_pe m p"; cases "h_pe m' p") (simp_all add: hosted_def pe_view_def)
  have "(\<forall>P R. h_pe m' p = Some P \<longrightarrow> pe_resource P = Some R \<longrightarrow> rnum R = n) \<longleftrightarrow>
      (\<forall>P R. h_pe m p = Some P \<longrightarrow> pe_resource P = Some R \<longrightarrow> rnum R = n)" for p
    using pe [of p] by (cases "h_pe m p"; cases "h_pe m' p") (simp_all add: pe_view_def)
  then show "uniform m' cs n = uniform m cs n" by (simp add: uniform_def)
qed

lemma view_idle:
  assumes v: "mem_view m' = mem_view m" "heap_ok m'" and idle: "sys_idle n m cs" "les_idle m cs"
  shows "sys_idle n m' (cs\<lparr>ds := d\<rparr>)" "les_idle m' (cs\<lparr>ds := d\<rparr>)"
proof -
  note F = view_same_frame [OF v(1)]
  have "sys_ok m' cs" using sys_ok_mem [OF _ v(2) F(1)] idle(1) by (simp add: sys_idle_def)
  then show "sys_idle n m' (cs\<lparr>ds := d\<rparr>)" using idle(1) F(4) by (simp add: sys_idle_def)
  have "hosted m' = hosted m" by (rule ext) (rule F(5))
  then have "all_les m' cs = all_les m cs" "le_nm m' = le_nm m" using F(2) by (auto simp only: all_les_def le_nm_def)
  then show "les_idle m' (cs\<lparr>ds := d\<rparr>)" using idle(2) F(3) by (simp add: les_idle_def all_les_def)
qed

lemma evaluate_keeps:
  assumes ok: "world_ok n (m, cs, su)" and en: "enabled n (ev, m, cs, su) (Evaluate lid dem)"
  obtains val w' where "evaluate_le n ev lid dem (m, cs, su) = Some (Some val, w')" "world_ok n w'" "length val = length (cs_pes cs)"
proof -
  have idle: "sys_idle n m cs" "les_idle m cs"
    using ok abandoned_idle [of n m cs su] by (simp_all split: if_splits)
  then have sys: "sys_ok m cs" "uniform m cs n" "\<forall>d. ds cs = Some d \<longrightarrow> stats_ok n d" using ok by (simp_all add: sys_idle_def)
  obtain val m' d where v: "evaluate_le n ev lid dem (m, cs, su) = Some (Some val, m', cs\<lparr>ds := d\<rparr>, su)"
    "length val = length (cs_pes cs)" "\<forall>x. d = Some x \<longrightarrow> stats_ok n x" "heap_ok m'" "mem_view m' = mem_view m"
    by (rule evaluate_step [OF sys en])
  note I = view_idle [OF v(5,4) idle, of d]
  have "open_session n (m', cs\<lparr>ds := d\<rparr>, su)" if op: "open_session n (m, cs, su)"
  proof -
    obtain seen L where S: "pe_session n 0 seen (m, cs, su)" "le_session n 0 L (m, cs, su)" using op by (auto simp only: open_session_def)
    have "pe_session n 0 seen (m', cs\<lparr>ds := d\<rparr>, su)" using S(1) I(1) by simp
    moreover have "le_frame (m, cs, su) (m', cs\<lparr>ds := d\<rparr>, su)" using view_same_frame [OF v(5)] by simp
    ultimately show ?thesis using le_session_frame [OF _ sys_okD(1) [OF sys(1)] v(4) S(2)] open_sessionI by blast
  qed
  then have "world_ok n (m', cs\<lparr>ds := d\<rparr>, su)" using ok v(3) I by simp
  then show thesis using that v(1,2) by blast
qed

lemma exec_keeps:
  assumes "world_ok n w" "enabled n (ev, w) a"
  shows "\<exists>ev' w'. exec n a (ev, w) = Some (ev', w') \<and> world_ok n w'"
proof -
  obtain m cs su where w: "w = (m, cs, su)" by (metis prod_cases3)
  show ?thesis
  proof (cases a)
    case (Start g)
    have "le_load w \<le> 1021" using assms(2) Start by (simp add: w)
    then obtain b w' where "stateupdater_start w g = Some (b, w')" "world_ok n w'" using start_keeps [OF assms(1)] by metis
    then show ?thesis using Start by simp
  next
    case (Report x)
    then obtain w' where "observe n x w = Some w'" "world_ok n w'" using observe_keeps [OF assms(1)] assms(2) by metis
    then show ?thesis using Report by simp
  next
    case Stop
    obtain w' where "stateupdater_stop w = Some w'" "world_ok n w'" using stop_keeps assms(1) unfolding w by metis
    then show ?thesis using Stop by simp
  next
    case (Evaluate lid dem)
    then obtain val w' where "evaluate_le n ev lid dem w = Some (Some val, w')" "world_ok n w'"
      using evaluate_keeps [OF assms(1) [unfolded w]] assms(2) unfolding w by metis
    then show ?thesis using Evaluate by simp
  next
    case (SetObjective s)
    then show ?thesis using assms(1) by simp
  qed
qed

lemma reachable_ok:
  assumes "reachable n c0 c" "world_ok n (snd c0)"
  shows "world_ok n (snd c)"
  using assms
proof (induction rule: reachable.induct)
  case (more c a c')
  obtain ev w where c: "c = (ev, w)" by (cases c)
  show ?case using more.hyps(2) exec_keeps [of n w ev a] more.IH [OF more.prems] unfolding c by (auto elim!: stepE)
qed simp

lemma create_ok:
  assumes "heap_ok m" "no_les m" "evaluator_create m index obj = Some (ev, w)"
  shows "world_ok n w"
proof -
  obtain cs where c: "evaluator_create m index obj = Some (\<lparr>policyresourceindex = index, policyobjective = obj\<rparr>, m, cs, stateupdater_create)"
    "idle_ok n m cs" "cs_pes cs = []" "ds cs = (if obj = A_BINPACK then Some (demandstats_create 0) else None)"
    using create_idle [OF assms(1,2), of index obj n] by blast
  have "\<forall>d. ds cs = Some d \<longrightarrow> stats_ok n d"
    using c(4) by (simp add: stats_ok_def demandstats_create_def countmax_def Let_def)
  moreover have "les_idle m cs" using assms(2) c(3) by (simp add: les_idle_def no_les_def all_les_def)
  ultimately show ?thesis using c assms(3) by (simp add: idle_ok_def stateupdater_create_def)
qed

subsection \<open>Teardown\<close>

lemma destroy_les:
  "distinct es \<Longrightarrow> \<forall>e\<in>set es. h_le m e \<noteq> None \<Longrightarrow>
   for_each (\<lambda>e m. le_destroy m (Some e)) es m = Some (m\<lparr>h_le := h_le m |` (- set es)\<rparr>)"
proof (induction es arbitrary: m)
  case (Cons e es)
  let ?m = "m\<lparr>h_le := (h_le m)(e := None)\<rparr>"
  have "le_destroy m (Some e) = Some ?m" using Cons.prems(2) by (auto simp: le_destroy_def)
  moreover have "for_each (\<lambda>e m. le_destroy m (Some e)) es ?m = Some (?m\<lparr>h_le := h_le ?m |` (- set es)\<rparr>)"
    by (rule Cons.IH) (use Cons.prems in auto)
  moreover have "h_le ?m |` (- set es) = h_le m |` (- set (e # es))" by (auto simp: fun_eq_iff restrict_map_def)
  ultimately show ?case by simp
qed (simp add: restrict_map_def)

lemma destroy_pe:
  assumes P: "h_pe m p = Some P" "pe_ok P" and es: "es = map the (vec_list (hostedLE P))" "\<forall>e\<in>set es. h_le m e \<noteq> None"
  shows "pe_destroy m (Some p) = Some (m\<lparr>h_le := h_le m |` (- set es), h_pe := (h_pe m)(p := None)\<rparr>)"
proof -
  note ok = pe_okD [OF P(2)]
  have "distinct (map Some es)" using ok(2) map_Some_the [OF ok(3)] es(1) by simp
  then have "distinct es" by (simp add: distinct_map)
  then show ?thesis
    using P(1) for_each_elements [OF ok(1,3), of "\<lambda>x m. le_destroy m x" m] destroy_les [of es m] es by (simp add: pe_destroy_def)
qed

lemma destroy_pes:
  assumes "heap_ok m0" "distinct ps" "\<forall>p\<in>set ps. h_pe m p = h_pe m0 p \<and> h_pe m0 p \<noteq> None"
    and "\<forall>p\<in>set ps. \<forall>e\<in>set (hosted m0 p). h_le m e \<noteq> None"
  shows "for_each (\<lambda>p m. pe_destroy m (Some p)) ps m =
    Some (m\<lparr>h_le := h_le m |` (- set (concat (map (hosted m0) ps))), h_pe := h_pe m |` (- set ps)\<rparr>)"
  using assms(2-4)
proof (induction ps arbitrary: m)
  case (Cons p ps)
  obtain P where P: "h_pe m0 p = Some P" "h_pe m p = Some P" using Cons.prems(2) by auto
  have es: "hosted m0 p = map the (vec_list (hostedLE P))" using P(1) by (simp add: hosted_def)
  let ?m = "m\<lparr>h_le := h_le m |` (- set (hosted m0 p)), h_pe := (h_pe m)(p := None)\<rparr>"
  have one: "pe_destroy m (Some p) = Some ?m"
    by (rule destroy_pe [OF P(2) heap_okD(1) [OF assms(1) P(1)] es]) (use Cons.prems(3) in simp)
  have apart: "e \<notin> set (hosted m0 p)" if q: "q \<in> set ps" "e \<in> set (hosted m0 q)" for q e
  proof
    assume e: "e \<in> set (hosted m0 p)"
    obtain Q where Q: "h_pe m0 q = Some Q" using Cons.prems(2) q(1) by auto
    have "hosts m0 p e" "hosts m0 q e" using hosted_iff [OF assms(1) P(1)] hosted_iff [OF assms(1) Q] e q(2) by simp_all
    then show False using hosts_unique [OF assms(1)] Cons.prems(1) q(1) by auto
  qed
  have "for_each (\<lambda>p m. pe_destroy m (Some p)) ps ?m =
      Some (?m\<lparr>h_le := h_le ?m |` (- set (concat (map (hosted m0) ps))), h_pe := h_pe ?m |` (- set ps)\<rparr>)"
    by (rule Cons.IH) (use Cons.prems apart in \<open>auto simp: restrict_map_def\<close>)
  moreover have "h_le ?m |` (- set (concat (map (hosted m0) ps))) = h_le m |` (- set (concat (map (hosted m0) (p # ps))))"
    "h_pe ?m |` (- set ps) = h_pe m |` (- set (p # ps))"
    by (auto simp: fun_eq_iff restrict_map_def)
  ultimately show ?case using one by simp
qed (simp add: restrict_map_def)

lemma destroy_system:
  assumes ok: "sys_ok m cs"
  shows "evaluator_destroy (m, cs, su) =
    Some (m\<lparr>h_le := h_le m |` (- set (all_les m cs)), h_pe := h_pe m |` (- set (cs_pes cs))\<rparr>)"
proof -
  obtain v where v: "pes cs = Some v" "vec_ok v" "None \<notin> set (vec_list v)" using sys_okD(2) [OF ok] by blast
  have "\<forall>p\<in>set (cs_pes cs). \<forall>e\<in>set (hosted m p). h_le m e \<noteq> None"
    using hosted_iff [OF sys_okD(1) [OF ok]] sys_okD(5) [OF ok] heap_okD(2) [OF sys_okD(1) [OF ok]] by fastforce
  then have "for_each (\<lambda>p m. pe_destroy m (Some p)) (cs_pes cs) m =
      Some (m\<lparr>h_le := h_le m |` (- set (all_les m cs)), h_pe := h_pe m |` (- set (cs_pes cs))\<rparr>)"
    unfolding all_les_def using destroy_pes [OF sys_okD(1,4) [OF ok], of m] sys_okD(5) [OF ok] by fastforce
  then show ?thesis
    using v for_each_elements [OF v(2,3), of "\<lambda>x m. pe_destroy m x" m] by (simp add: evaluator_destroy_def cloudsystem_destroy_def)
qed

subsection \<open>Properties\<close>

lemma reachable_parts:
  assumes "heap_ok m" "no_les m" "evaluator_create m index obj = Some c0" "reachable n c0 (ev, m', cs, su)"
  shows "world_ok n (m', cs, su)" "sys_idle n m' cs" "les_idle m' cs"
proof -
  show ok: "world_ok n (m', cs, su)"
    using reachable_ok [OF assms(4)] create_ok [OF assms(1,2), of index obj "fst c0" "snd c0"] assms(3) by simp
  then show "sys_idle n m' cs" "les_idle m' cs" using abandoned_idle [of n m' cs su] by (simp_all split: if_splits)
qed

text \<open>C3: whatever calls were made since the evaluator was created, in whatever order, the cloud system is
  consistent, every PE has the same number of resources, only PEs of the system host LEs, no two hosted LEs
  share a name, and every call with well-formed arguments returns and leads to such a state again:
  no null or dangling pointer, no index out of range and no endless loop is met.\<close>

theorem every_call_returns:
  assumes "heap_ok m" "no_les m" "evaluator_create m index obj = Some c0" "reachable n c0 (ev, m', cs, su)"
  shows "sys_ok m' cs \<and> uniform m' cs n \<and> les_idle m' cs \<and>
    (\<forall>a. enabled n (ev, m', cs, su) a \<longrightarrow> (\<exists>c. step n (ev, m', cs, su) a c \<and> reachable n c0 c))"
proof -
  note R = reachable_parts [OF assms]
  have "\<exists>c. step n (ev, m', cs, su) a c \<and> reachable n c0 c" if a: "enabled n (ev, m', cs, su) a" for a
    using exec_keeps [OF R(1) a] step.call [OF a] reachable.more [OF assms(4)] by blast
  then show ?thesis using R by (simp add: sys_idle_def)
qed

lemma fresh_evaluator:
  obtains m cs where "heap_ok m" "no_les m" "cs_pes cs = []" "\<not> ismodified cs" "sys_idle 1 m cs"
    "evaluator_create m 0 A_BINPACK = Some (sample_ev, m, cs, stateupdater_create)"
proof -
  let ?m = "\<lparr>h_le = Map.empty, h_pe = Map.empty, h_next = 0, h_rng = (\<lambda>_. 0)\<rparr>"
  have "heap_ok ?m" "no_les ?m" by (simp_all add: heap_ok_def no_les_def hosts_def)
  then show thesis using create_idle [of ?m 0 A_BINPACK 1] that by (auto simp: sample_ev_def idle_ok_def)
qed

theorem every_call_returns_witness:
  "\<exists>m c0 c1 c2 c3. evaluator_create m 0 A_BINPACK = Some c0 \<and> step 1 c0 (Start 1) c1 \<and> step 1 c1 Stop c2 \<and>
    step 1 c2 (SetObjective (Some ''LOAD_BALANCE'')) c3"
proof -
  obtain m cs where c: "heap_ok m" "no_les m" "cs_pes cs = []"
    "evaluator_create m 0 A_BINPACK = Some (sample_ev, m, cs, stateupdater_create)" by (rule fresh_evaluator)
  let ?c0 = "(sample_ev, m, cs, stateupdater_create)"
  have T: "\<exists>c'. step 1 c a c' \<and> reachable 1 ?c0 c'" if "reachable 1 ?c0 c" "enabled 1 c a" for c a
    using every_call_returns [OF c(1,2,4), of 1] that by (metis prod_cases4)
  have "enabled 1 ?c0 (Start 1)" using c(3) by (simp add: all_les_def stateupdater_create_def)
  then obtain c1 where c1: "step 1 ?c0 (Start 1) c1" "reachable 1 ?c0 c1" using T [OF reachable.init] by blast
  have always: "enabled 1 c Stop" "enabled 1 c (SetObjective s)" for c s by (cases c rule: prod_cases4, simp)+
  then obtain c2 where c2: "step 1 c1 Stop c2" "reachable 1 ?c0 c2" using T [OF c1(2)] by blast
  then obtain c3 where "step 1 c2 (SetObjective (Some ''LOAD_BALANCE'')) c3" using T [OF c2(2)] always by blast
  then show ?thesis using c(4) c1(1) c2(1) by blast
qed

lemma run_calls:
  "for_each (exec n) (Start g # map Report os @ [Stop]) (ev, w) = map_option (\<lambda>(b, w). (ev, w)) (run_observed g n os w)"
proof -
  have reports: "for_each (exec n) (map Report os) (ev, w) = map_option (Pair ev) (for_each (observe n) os w)" for w
  proof (induction os arbitrary: w)
    case (Cons x os)
    then show ?case by (cases "observe n x w") simp_all
  qed simp
  show ?thesis
    by (cases "stateupdater_start w g")
      (auto simp: run_observed_def for_each_append reports split: bind_splits option.splits)
qed

text \<open>The reports of a session with enough room are calls that are enabled.\<close>

lemma spare_session: "pe_session n k seen w \<Longrightarrow> le_session n k L w \<Longrightarrow> k \<le> spare w"
  by (cases w) (auto simp: spare.simps table_room_def hs_room_def)

lemma reports_reachable:
  assumes "pe_session n k seen w" "le_session n k L w" "length os \<le> k" "\<forall>x\<in>set os. observation_ok n x"
    and "reachable n c0 (ev, w)" "for_each (observe n) os w = Some w'"
  shows "reachable n c0 (ev, w')"
  using assms
proof (induction os arbitrary: k seen w L)
  case (Cons x os)
  obtain j where k: "k = Suc j" using Cons.prems(3) by (cases k) auto
  have "0 < spare w" using spare_session [OF Cons.prems(1,2)] k by simp
  then have en: "enabled n (ev, w) (Report x)" using Cons.prems(4) by (cases w) simp
  obtain w1 where w1: "observe n x w = Some w1" "pe_session n j (seen \<union> fst ` set (pe_seen x)) w1"
    "le_session n j (L ++ map_of (le_seen x)) w1"
    using observe_step [of n j seen w j L x] Cons.prems(1,2,4) k by auto
  have "reachable n c0 (ev, w1)" using reachable.more [OF Cons.prems(5) step.call [OF en]] w1(1) by simp
  then show ?case using Cons.IH [OF w1(2,3)] Cons.prems(3,4,6) w1(1) k by simp
qed simp

lemma session_recovers:
  assumes ok: "world_ok n (m, cs, su)" and g: "gen su < g" and os: "\<forall>x\<in>set os. observation_ok n x"
    and k: "length (cs_pes cs) + length os \<le> 1021" "le_load (m, cs, su) + length os \<le> 1021"
      "started su \<or> \<not> ismodified cs \<or> length os \<le> hm_room (pemap cs)"
  obtains m' cs' su' where "for_each (exec n) (Start g # map Report os @ [Stop]) (ev, m, cs, su) = Some (ev, m', cs', su')"
    "capacities (m', cs', su') = seen_capacity os" "placements m' cs' = seen_placement os"
    "\<forall>c0. reachable n c0 (ev, m, cs, su) \<longrightarrow> reachable n c0 (ev, m', cs', su')"
proof -
  obtain m1 cs1 su1 where s: "stateupdater_stop (m, cs, su) = Some (m1, cs1, su1)" "world_ok n (m1, cs1, su1)" "\<not> started su1"
    "gen su1 = gen su" "length (all_les m1 cs1) \<le> le_load (m, cs, su)" "length (cs_pes cs1) \<le> length (cs_pes cs)"
    "if started su then \<not> ismodified cs1 else (m1, cs1, su1) = (m, cs, su)"
    by (rule stop_keeps [OF ok])
  have I: "sys_idle n m1 cs1" "les_idle m1 cs1" "gen su1 < g" using s(2-4) g by simp_all
  have len: "length (cs_pes cs1) + length os \<le> 1021" "length (all_les m1 cs1) + length os \<le> 1021"
    using s(5,6) k(1,2) by simp_all
  have room: "length os \<le> hm_room (pemap cs1)"
    using k(3) s(7) idle_room [OF I(1) _ len(1)] by (cases "started su") auto
  have same: "stateupdater_start (m, cs, su) g = stateupdater_start (m1, cs1, su1) g"
    using start_stop [OF _ g s(1,4,3)] s(7) by (cases "started su") simp_all
  obtain m' cs' su' where r: "run_observed g n os (m1, cs1, su1) = Some (True, m', cs', su')"
    "capacities (m', cs', su') = seen_capacity os" "placements m' cs' = seen_placement os"
    using observed_step [OF I(1,2) s(3) I(3) room len os] by blast
  obtain su2 where s2: "stateupdater_start (m1, cs1, su1) g = Some (True, m1, cs1, su2)"
    "pe_session n (length os) {} (m1, cs1, su2)" "le_session n (length os) Map.empty (m1, cs1, su2)"
    by (rule start_les [OF I(1,2) s(3) I(3) room len])
  then obtain w3 where w3: "for_each (observe n) os (m1, cs1, su2) = Some w3" "stateupdater_stop w3 = Some (m', cs', su')"
    using r(1) by (auto simp: run_observed_def bind_eq_Some_conv simp del: pe_session.simps le_session.simps)
  have "reachable n c0 (ev, m', cs', su')" if re: "reachable n c0 (ev, m, cs, su)" for c0
  proof -
    have en: "enabled n (ev, m, cs, su) (Start g)" using k(2) by (simp del: le_load.simps)
    have "reachable n c0 (ev, m1, cs1, su2)" using reachable.more [OF re step.call [OF en]] same s2(1) by simp
    then have "reachable n c0 (ev, w3)" using reports_reachable [OF s2(2,3) order.refl os] w3(1) by blast
    moreover have "enabled n (ev, w3) Stop" by (cases w3) simp
    ultimately show ?thesis using reachable.more [OF _ step.call] w3(2) by fastforce
  qed
  moreover have "run_observed g n os (m, cs, su) = run_observed g n os (m1, cs1, su1)"
    using same by (simp add: run_observed_def)
  ultimately show thesis using that r unfolding run_calls by simp
qed

text \<open>C4: a model that a caller left in any state, in the middle of a session or after an abandoned one, is brought
  in line by the next complete session: opening a session of a newer generation, reporting and closing it
  succeeds, and the model then holds exactly the PEs reported and the placements reported on them.\<close>

theorem next_session_recovers:
  assumes "heap_ok m" "no_les m" "evaluator_create m index obj = Some c0" "reachable n c0 (ev, m', cs, su)"
    and "gen su < g" "\<forall>x\<in>set os. observation_ok n x"
    and "length (cs_pes cs) + length os \<le> 1021" "le_load (m', cs, su) + length os \<le> 1021"
    and "started su \<or> \<not> ismodified cs \<or> length os \<le> hm_room (pemap cs)"
  shows "\<exists>m2 cs2 su2. for_each (exec n) (Start g # map Report os @ [Stop]) (ev, m', cs, su) = Some (ev, m2, cs2, su2) \<and>
    capacities (m2, cs2, su2) = seen_capacity os \<and> placements m2 cs2 = seen_placement os \<and>
    reachable n c0 (ev, m2, cs2, su2)"
  using session_recovers [OF reachable_parts(1) [OF assms(1-4)] assms(5-9)] assms(4) by metis

lemma sample_obs_ok: "\<forall>x\<in>set sample_obs. observation_ok 1 x" "length sample_obs = 5"
    "seen_placement sample_obs ''pod'' = Some ''n1''"
  by (simp_all add: sample_obs_def report_ok_def amounts_ok_def in_s32_def seen_placement_def seen_host_def seen_capacity_def)

lemma sample_room:
  "gen stateupdater_create < 1" "cs_pes cs = [] \<Longrightarrow> length (cs_pes cs) + length sample_obs \<le> 1021"
  "cs_pes cs = [] \<Longrightarrow> le_load (m, cs, stateupdater_create) + length sample_obs \<le> 1021"
  using sample_obs_ok(2) by (simp_all add: stateupdater_create_def all_les_def)

theorem next_session_recovers_witness:
  "\<exists>m c0 m' cs' su'. evaluator_create m 0 A_BINPACK = Some c0 \<and>
    for_each (exec 1) (Start 1 # map Report sample_obs @ [Stop]) c0 = Some (sample_ev, m', cs', su') \<and>
    placements m' cs' ''pod'' = Some ''n1'' \<and> reachable 1 c0 (sample_ev, m', cs', su')"
proof -
  obtain m cs where c: "heap_ok m" "no_les m" "cs_pes cs = []" "\<not> ismodified cs"
    "evaluator_create m 0 A_BINPACK = Some (sample_ev, m, cs, stateupdater_create)" by (rule fresh_evaluator)
  from next_session_recovers [OF c(1,2,5) reachable.init sample_room(1) sample_obs_ok(1) sample_room(2,3) [OF c(3)]] c(4)
  show ?thesis using c(5) sample_obs_ok(3) by fastforce
qed

text \<open>A session that reports a PE and an LE on it.\<close>

lemma sample_session:
  obtains m cs m' cs' su' where "heap_ok m" "no_les m" "evaluator_create m 0 A_BINPACK = Some (sample_ev, m, cs, stateupdater_create)"
    "reachable 1 (sample_ev, m, cs, stateupdater_create) (sample_ev, m', cs', su')" "placements m' cs' ''pod'' = Some ''n1''"
proof -
  obtain m cs where c: "heap_ok m" "no_les m" "cs_pes cs = []" "\<not> ismodified cs"
    "evaluator_create m 0 A_BINPACK = Some (sample_ev, m, cs, stateupdater_create)" by (rule fresh_evaluator)
  have ok: "world_ok 1 (m, cs, stateupdater_create)" by (rule create_ok [OF c(1,2,5)])
  have free: "started stateupdater_create \<or> \<not> ismodified cs \<or> length sample_obs \<le> hm_room (pemap cs)" using c(4) by simp
  obtain m' cs' su' where r: "for_each (exec 1) (Start 1 # map Report sample_obs @ [Stop]) (sample_ev, m, cs, stateupdater_create)
      = Some (sample_ev, m', cs', su')" "capacities (m', cs', su') = seen_capacity sample_obs" "placements m' cs' = seen_placement sample_obs"
    "\<forall>c0. reachable 1 c0 (sample_ev, m, cs, stateupdater_create) \<longrightarrow> reachable 1 c0 (sample_ev, m', cs', su')"
    by (rule session_recovers [where ev = sample_ev, OF ok sample_room(1) sample_obs_ok(1) sample_room(2,3) [OF c(3)] free])
  then show thesis using that [OF c(1,2,5) r(4) [rule_format, OF reachable.init] _] r(3) sample_obs_ok(3) by simp
qed

text \<open>C5: destroying the evaluator in any state a caller can reach succeeds: no LE or PE is freed twice or read after
  it was freed. Afterwards every PE of the system and every hosted LE is gone; everything else, in particular the
  LEs that no PE hosts, is still there.\<close>

theorem destroy_frees_once:
  assumes "heap_ok m" "no_les m" "evaluator_create m index obj = Some c0" "reachable n c0 (ev, m', cs, su)"
  shows "\<exists>m2. evaluator_destroy (m', cs, su) = Some m2 \<and> (\<forall>p e. \<not> hosts m2 p e) \<and>
    (\<forall>p. h_pe m2 p = (if p \<in> set (cs_pes cs) then None else h_pe m' p)) \<and>
    (\<forall>e. h_le m2 e = (if \<exists>p. hosts m' p e then None else h_le m' e))"
proof -
  note R = reachable_parts [OF assms]
  have ok: "sys_ok m' cs" using R(2) by (simp add: sys_idle_def)
  let ?m = "m'\<lparr>h_le := h_le m' |` (- set (all_les m' cs)), h_pe := h_pe m' |` (- set (cs_pes cs))\<rparr>"
  have in_sys: "hosts m' p e \<Longrightarrow> p \<in> set (cs_pes cs)" for p e using R(3) unfolding les_idle_def by blast
  have les: "e \<in> set (all_les m' cs) \<longleftrightarrow> (\<exists>p. hosts m' p e)" for e using all_les_iff [OF ok] in_sys by blast
  have "\<not> hosts ?m p e" for p e using in_sys [of p e] by (auto simp: hosts_def restrict_map_def split: if_splits)
  then show ?thesis using destroy_system [OF ok, of su] by (intro exI [of _ ?m]) (simp add: les restrict_map_def)
qed

theorem destroy_frees_once_witness:
  "\<exists>m' cs su m2 p e. hosts m' p e \<and> evaluator_destroy (m', cs, su) = Some m2 \<and> h_le m2 e = None"
proof -
  obtain m cs m' cs' su' where s: "heap_ok m" "no_les m" "evaluator_create m 0 A_BINPACK = Some (sample_ev, m, cs, stateupdater_create)"
    "reachable 1 (sample_ev, m, cs, stateupdater_create) (sample_ev, m', cs', su')" "placements m' cs' ''pod'' = Some ''n1''"
    by (rule sample_session)
  note R = reachable_parts [OF s(1-4)]
  obtain p e where "hosts m' p e" using s(5) placements_Some_iff [OF _ R(3)] R(2) unfolding sys_idle_def by blast
  moreover obtain m2 where "evaluator_destroy (m', cs', su') = Some m2" "\<forall>e. h_le m2 e = (if \<exists>p. hosts m' p e then None else h_le m' e)"
    using destroy_frees_once [OF s(1-4)] by blast
  ultimately show ?thesis by metis
qed

end
