(* ===== verification/Cstring.thy ===== *)
theory Cstring
  imports Floats
begin

section \<open>Strings of the C library and the string buffer (utils/stringbuffer.c)\<close>

text \<open>
  The functions of the C library the parser calls, on strings without the terminating null
  character. A pointer into a string is the suffix it points to. \<open>sscanf\<close> and \<open>sprintf\<close> are modelled
  for the conversions the code uses: \<open>%d\<close>, \<open>%f\<close> (decimal notation, with an exponent when reading)
  and \<open>%s\<close>. Writing a string into a buffer that is too short gives \<^term>\<open>None\<close>.

  The string buffer doubles its allocation until an appended string fits. The theory shows that
  numbers survive printing and reading, that the tokens of a list of words joined by delimiters are
  the words, and that appending to a string buffer concatenates and never overruns the buffer.
\<close>

subsection \<open>Searching\<close>

definition strchr :: "string \<Rightarrow> char \<Rightarrow> string option" where
  "strchr s c = (case dropWhile (\<lambda>x. x \<noteq> c) s of [] \<Rightarrow> None | t \<Rightarrow> Some t)"

definition strpbrk :: "string \<Rightarrow> string \<Rightarrow> string option" where
  "strpbrk s accept = (case dropWhile (\<lambda>x. x \<notin> set accept) s of [] \<Rightarrow> None | t \<Rightarrow> Some t)"

text \<open>The token \<open>strtok\<close> finds and the rest it will continue with.\<close>

definition strtok :: "string \<Rightarrow> string \<Rightarrow> (string \<times> string) option" where
  "strtok s delim =
     (let t = dropWhile (\<lambda>x. x \<in> set delim) s
      in if t = [] then None
         else Some (takeWhile (\<lambda>x. x \<notin> set delim) t, drop 1 (dropWhile (\<lambda>x. x \<notin> set delim) t)))"

lemma strtok_shorter: "strtok s delim = Some (tok, rest) \<Longrightarrow> length rest < length s"
proof -
  assume a: "strtok s delim = Some (tok, rest)"
  let ?t = "dropWhile (\<lambda>x. x \<in> set delim) s"
  have t: "?t \<noteq> []" "rest = drop 1 (dropWhile (\<lambda>x. x \<notin> set delim) ?t)"
    using a by (auto simp: strtok_def Let_def split: if_splits)
  have "hd ?t \<notin> set delim" using hd_dropWhile [OF t(1)] by simp
  then have "dropWhile (\<lambda>x. x \<notin> set delim) ?t = dropWhile (\<lambda>x. x \<notin> set delim) (tl ?t)"
    using t(1) by (cases ?t) auto
  then have "length (dropWhile (\<lambda>x. x \<notin> set delim) ?t) < length ?t"
    using length_dropWhile_le [of "\<lambda>x. x \<notin> set delim" "tl ?t"] t(1) by (cases ?t) auto
  moreover have "length ?t \<le> length s" by (rule length_dropWhile_le)
  ultimately show ?thesis using t by auto
qed

text \<open>The words a \<open>while (tok)\<close> loop over \<open>strtok\<close> sees.\<close>

function tokens :: "string \<Rightarrow> string \<Rightarrow> string list" where
  "tokens s delim = (case strtok s delim of None \<Rightarrow> [] | Some (tok, rest) \<Rightarrow> tok # tokens rest delim)"
  by pat_completeness auto
termination
  by (relation "measure (\<lambda>(s, _). length s)") (auto dest: strtok_shorter)

declare tokens.simps [simp del]

lemma strtok_skip: "c \<in> set delim \<Longrightarrow> strtok (c # s) delim = strtok s delim"
  by (simp add: strtok_def)

lemma tokens_skip: "c \<in> set delim \<Longrightarrow> tokens (c # s) delim = tokens s delim"
  by (subst (1 2) tokens.simps) (simp add: strtok_skip)

lemma tokens_Nil [simp]: "tokens [] delim = []"
  by (simp add: tokens.simps strtok_def)

lemma strtok_word:
  assumes "w \<noteq> []" "\<forall>x\<in>set w. x \<notin> set delim" "c \<in> set delim"
  shows "strtok (w @ c # s) delim = Some (w, s)"
proof -
  obtain x xs where w: "w = x # xs" using assms(1) by (cases w) auto
  have "dropWhile (\<lambda>x. x \<in> set delim) (w @ c # s) = w @ c # s" using assms(2) by (simp add: w)
  moreover have "takeWhile (\<lambda>x. x \<notin> set delim) (w @ c # s) = w" "dropWhile (\<lambda>x. x \<notin> set delim) (w @ c # s) = c # s"
    using assms(2,3) by (simp_all add: takeWhile_append2 dropWhile_append2)
  ultimately show ?thesis by (simp add: strtok_def w)
qed

lemma tokens_word:
  "w \<noteq> [] \<Longrightarrow> \<forall>x\<in>set w. x \<notin> set delim \<Longrightarrow> c \<in> set delim \<Longrightarrow> tokens (w @ c # s) delim = w # tokens s delim"
  by (subst tokens.simps) (simp add: strtok_word)

subsection \<open>Integers in decimal notation\<close>

definition isspace :: "char \<Rightarrow> bool" where
  "isspace c \<longleftrightarrow> c \<in> {CHR 0x20, CHR 0x09, CHR 0x0A, CHR 0x0B, CHR 0x0C, CHR 0x0D}"

definition isdigit :: "char \<Rightarrow> bool" where
  "isdigit c \<longleftrightarrow> 48 \<le> (of_char c :: nat) \<and> of_char c \<le> (57 :: nat)"

definition digit_char :: "nat \<Rightarrow> char" where
  "digit_char d = char_of (48 + d)"

definition digit_value :: "char \<Rightarrow> nat" where
  "digit_value c = of_char c - 48"

definition digits_value :: "string \<Rightarrow> nat" where
  "digits_value s = foldl (\<lambda>n c. 10 * n + digit_value c) 0 s"

fun nat_string :: "nat \<Rightarrow> string" where
  "nat_string n = (if n < 10 then [digit_char n] else nat_string (n div 10) @ [digit_char (n mod 10)])"

declare nat_string.simps [simp del]

definition int_string :: "int \<Rightarrow> string" where
  "int_string v = (if v < 0 then CHR ''-'' # nat_string (nat (- v)) else nat_string (nat v))"

text \<open>The optional sign: whether it is a minus, and what follows.\<close>

definition scan_sign :: "string \<Rightarrow> bool \<times> string" where
  "scan_sign s = (case s of c # t \<Rightarrow> if c = CHR ''-'' then (True, t) else if c = CHR ''+'' then (False, t) else (False, s)
     | [] \<Rightarrow> (False, s))"

text \<open>\<open>sscanf(s, "%d", &v)\<close>: None when nothing matches and \<open>v\<close> is left alone. A number is read with
  \<open>strtol\<close>, which clamps to 64 bits, and stored into an \<open>int\<close>.\<close>

definition clamp64 :: "int \<Rightarrow> int" where
  "clamp64 x = max (- (2 ^ 63)) (min (2 ^ 63 - 1) x)"

definition scan_int :: "string \<Rightarrow> int option" where
  "scan_int s =
     (let (neg, t) = scan_sign (dropWhile isspace s); ds = takeWhile isdigit t
      in if ds = [] then None
         else Some (s32 (clamp64 (if neg then - int (digits_value ds) else int (digits_value ds)))))"

definition scan_string :: "string \<Rightarrow> string option" where
  "scan_string s = (let t = takeWhile (\<lambda>c. \<not> isspace c) (dropWhile isspace s) in if t = [] then None else Some t)"

lemma digit_char_simps:
  assumes "d < 10"
  shows "isdigit (digit_char d)" "digit_value (digit_char d) = d" "\<not> isspace (digit_char d)"
    "digit_char d \<noteq> CHR ''-''" "digit_char d \<noteq> CHR ''+''" "digit_char d \<notin> set '' []{},''" "digit_char d \<notin> set '';}\<newline>{''"
proof -
  have v: "of_char (digit_char d) = 48 + d" using assms by (simp add: digit_char_def of_char_of)
  have ne: "digit_char d \<noteq> c" if "of_char c < (48::nat) \<or> (57::nat) < of_char c" for c
    using v that assms by auto
  show "isdigit (digit_char d)" "digit_value (digit_char d) = d" using v assms by (simp_all add: isdigit_def digit_value_def)
  show "\<not> isspace (digit_char d)" "digit_char d \<noteq> CHR ''-''" "digit_char d \<noteq> CHR ''+''"
    "digit_char d \<notin> set '' []{},''" "digit_char d \<notin> set '';}\<newline>{''"
    by (auto simp: isspace_def intro!: ne)
qed

lemma digits_value_snoc [simp]: "digits_value (s @ [c]) = 10 * digits_value s + digit_value c"
  by (simp add: digits_value_def)

lemma nat_string_value: "digits_value (nat_string n) = n"
proof (induction n rule: nat_string.induct)
  case (1 n)
  show ?case
  proof (cases "n < 10")
    case True
    then show ?thesis using digit_char_simps(2) by (subst nat_string.simps) (simp add: digits_value_def)
  next
    case False
    then show ?thesis using 1 digit_char_simps(2) [of "n mod 10"] by (subst nat_string.simps) simp
  qed
qed

lemma nat_string_chars: "c \<in> set (nat_string n) \<Longrightarrow> \<exists>d<10. c = digit_char d"
proof (induction n rule: nat_string.induct)
  case (1 n)
  have "n < 10 \<and> c = digit_char n \<or> \<not> n < 10 \<and> (c \<in> set (nat_string (n div 10)) \<or> c = digit_char (n mod 10))"
    using 1(2) by (subst (asm) nat_string.simps) (auto split: if_splits)
  moreover have "n mod 10 < 10" by simp
  ultimately show ?case using 1(1) by blast
qed

lemma nat_string_ne [simp]: "nat_string n \<noteq> []"
  by (subst nat_string.simps) simp

lemma int_string_chars:
  assumes "c \<in> set (int_string v)"
  shows "c \<notin> set '' []{},''" "c \<notin> set '';}\<newline>{''" "\<not> isspace c"
proof -
  have "c = CHR ''-'' \<or> (\<exists>d<10. c = digit_char d)"
    using assms nat_string_chars by (auto simp: int_string_def split: if_splits)
  then show "c \<notin> set '' []{},''" "c \<notin> set '';}\<newline>{''" "\<not> isspace c"
    using digit_char_simps(3,6,7) by (auto simp: isspace_def)
qed

lemma scan_nat_string: "takeWhile isdigit (nat_string n) = nat_string n"
proof -
  have "isdigit c" if "c \<in> set (nat_string n)" for c using nat_string_chars [OF that] digit_char_simps(1) by blast
  then show ?thesis by (simp add: takeWhile_eq_all_conv)
qed

lemma nat_string_start:
  "scan_sign (nat_string n) = (False, nat_string n)" "dropWhile isspace (nat_string n) = nat_string n"
proof -
  obtain c t where ct: "nat_string n = c # t" by (cases "nat_string n") auto
  then obtain d where "d < 10" "c = digit_char d" using nat_string_chars [of c n] by auto
  then show "scan_sign (nat_string n) = (False, nat_string n)" "dropWhile isspace (nat_string n) = nat_string n"
    using digit_char_simps(3-5) ct by (auto simp: scan_sign_def)
qed

text \<open>A printed \<open>int\<close> is read back as the same number.\<close>

lemma scan_int_string:
  assumes "in_s32 v"
  shows "scan_int (int_string v) = Some v"
proof -
  have "clamp64 v = v" using assms by (simp add: clamp64_def in_s32_def)
  moreover have "scan_sign (dropWhile isspace (CHR ''-'' # s)) = (True, s)" for s by (simp add: scan_sign_def isspace_def)
  ultimately show ?thesis
    using assms by (simp add: scan_int_def int_string_def nat_string_start scan_nat_string nat_string_value Let_def)
qed

lemma nat_string_length: "n < 10 ^ k \<Longrightarrow> 0 < k \<Longrightarrow> length (nat_string n) \<le> k"
proof (induction k arbitrary: n)
  case (Suc k)
  then show ?case by (subst nat_string.simps) (cases "k = 0"; auto simp: less_mult_imp_div_less mult.commute)
qed simp

text \<open>An \<open>int\<close> needs at most eleven characters.\<close>

lemma int_string_length: "in_s32 v \<Longrightarrow> length (int_string v) \<le> 11"
  using nat_string_length [of "nat \<bar>v\<bar>" 10] by (auto simp: int_string_def in_s32_def nat_less_iff)

subsection \<open>Floating point numbers in decimal notation\<close>

text \<open>\<open>sprintf(b, "%f", x)\<close> prints six digits after the point, correctly rounded.\<close>

definition pad6 :: "nat \<Rightarrow> string" where
  "pad6 n = replicate (6 - length (nat_string n)) (CHR ''0'') @ nat_string n"

definition float_string :: "real \<Rightarrow> string" where
  "float_string x =
     (let n = nat (rne (\<bar>x\<bar> * 10 ^ 6))
      in (if x < 0 then ''-'' else []) @ nat_string (n div 10 ^ 6) @ ''.'' @ pad6 (n mod 10 ^ 6))"

text \<open>The exponent: None for a missing number after the letter.\<close>

definition scan_exponent :: "string \<Rightarrow> int option" where
  "scan_exponent s =
     (case s of
        c # t \<Rightarrow> if c \<in> set ''eE''
                then let (neg, u) = scan_sign t; ds = takeWhile isdigit u
                     in if ds = [] then None else Some (if neg then - int (digits_value ds) else int (digits_value ds))
                else Some 0
      | [] \<Rightarrow> Some 0)"

definition scan_float :: "string \<Rightarrow> real option" where
  "scan_float s =
     (let (neg, t) = scan_sign (dropWhile isspace s);
          ip = takeWhile isdigit t;
          u = dropWhile isdigit t;
          (fp, w) = (case u of c # u' \<Rightarrow> if c = CHR ''.'' then (takeWhile isdigit u', dropWhile isdigit u') else ([], u)
                     | [] \<Rightarrow> ([], u))
      in if ip @ fp = [] then None
         else do { ex \<leftarrow> scan_exponent w;
                   let v = real (digits_value (ip @ fp)) * 10 powi (ex - int (length fp));
                   Some (sgl (if neg then - v else v)) })"

definition sprintf :: "nat \<Rightarrow> string \<Rightarrow> string option" where
  "sprintf n s = (if length s < n then Some s else None)"

lemma sprintf_int [simp]: "in_s32 v \<Longrightarrow> 12 \<le> n \<Longrightarrow> sprintf n (int_string v) = Some (int_string v)"
  using int_string_length [of v] by (simp add: sprintf_def)

lemma nat_string_long: "10 ^ k \<le> n \<Longrightarrow> k < length (nat_string n)"
proof (induction k arbitrary: n)
  case (Suc k)
  have "10 ^ k \<le> n div 10" using Suc.prems by (simp add: less_eq_div_iff_mult_less_eq mult.commute)
  moreover have "(10::nat) \<le> 10 * 10 ^ k" by simp
  then have "\<not> n < 10" using Suc.prems unfolding power_Suc by linarith
  ultimately show ?case using Suc.IH by (subst nat_string.simps) simp
qed simp

lemma pad6_length: "n < 10 ^ 6 \<Longrightarrow> length (pad6 n) = 6"
  using nat_string_length [of n 6] by (simp add: pad6_def)

text \<open>A number from \<open>10 ^ 8\<close> on takes at least sixteen characters.\<close>

lemma float_string_long:
  assumes "10 ^ 8 \<le> x"
  shows "16 \<le> length (float_string x)"
proof -
  have "(10::int) ^ 14 \<le> rne (\<bar>x\<bar> * 10 ^ 6)"
    using rne_mono [of "10 ^ 14" "\<bar>x\<bar> * 10 ^ 6"] rne_of_int [of "10 ^ 14"] assms by simp
  then have "10 ^ 8 \<le> nat (rne (\<bar>x\<bar> * 10 ^ 6)) div 10 ^ 6" by (simp add: le_nat_iff less_eq_div_iff_mult_less_eq)
  from nat_string_long [OF this] show ?thesis
    by (simp add: float_string_def Let_def pad6_length)
qed

subsection \<open>The string buffer\<close>

record stringbuffer =
  sb_s :: string
  bufsize :: int

definition INITIAL_SIZE :: int where "INITIAL_SIZE = 64"

partial_function (option) double_until :: "int \<Rightarrow> int \<Rightarrow> int option" where
  "double_until desiredlength b = (if desiredlength \<ge> b then double_until desiredlength (s32 (b * 2)) else Some b)"

declare double_until.simps [code]

definition stringbuffer_extend_if_short :: "stringbuffer \<Rightarrow> string \<Rightarrow> stringbuffer option" where
  "stringbuffer_extend_if_short sb s =
     (let desiredlength = s32 (int (length (sb_s sb)) + int (length s))
      in if desiredlength \<ge> bufsize sb
         then do { b \<leftarrow> double_until desiredlength (s32 (bufsize sb * 2)); Some (sb\<lparr>bufsize := b\<rparr>) }
         else Some sb)"

definition stringbuffer_create :: stringbuffer where
  "stringbuffer_create = \<lparr>sb_s = [], bufsize = INITIAL_SIZE\<rparr>"

text \<open>\<open>strcat\<close> writes the string and a terminating null behind the present contents.\<close>

definition stringbuffer_append :: "stringbuffer \<Rightarrow> string \<Rightarrow> bool \<Rightarrow> stringbuffer option" where
  "stringbuffer_append sb s isfree =
     do { sb \<leftarrow> stringbuffer_extend_if_short sb s;
          if int (length (sb_s sb) + length s) + 1 \<le> bufsize sb then Some (sb\<lparr>sb_s := sb_s sb @ s\<rparr>) else None }"

definition stringbuffer_getstring :: "stringbuffer \<Rightarrow> string" where
  "stringbuffer_getstring sb = sb_s sb"

definition stringbuffer_reset :: "stringbuffer \<Rightarrow> stringbuffer" where
  "stringbuffer_reset sb = sb\<lparr>sb_s := [], bufsize := INITIAL_SIZE\<rparr>"

text \<open>The buffer holds the string and its terminator, and can be doubled once more.\<close>

definition sb_ok :: "stringbuffer \<Rightarrow> bool" where
  "sb_ok sb \<longleftrightarrow> int (length (sb_s sb)) < bufsize sb \<and> 0 < bufsize sb \<and> bufsize sb \<le> 2 ^ 30"

lemma sb_ok_create [simp]: "sb_ok stringbuffer_create"
  by (simp add: sb_ok_def stringbuffer_create_def INITIAL_SIZE_def)

text \<open>The loop ends: the distance to the wanted length shrinks.\<close>

lemma double_until_total:
  assumes "0 < b" "b \<le> 2 ^ 30" "d < 2 ^ 29"
  shows "\<exists>b'. double_until d b = Some b' \<and> d < b' \<and> b \<le> b' \<and> b' \<le> 2 ^ 30"
  using assms(1,2)
proof (induction "nat (d + 1 - b)" arbitrary: b rule: less_induct)
  case less
  show ?case
  proof (cases "b \<le> d")
    case True
    then have "s32 (b * 2) = b * 2" "b * 2 \<le> 2 ^ 30" using less.prems assms(3) by (simp_all add: in_s32_def)
    moreover have "\<exists>b'. double_until d (b * 2) = Some b' \<and> d < b' \<and> b * 2 \<le> b' \<and> b' \<le> 2 ^ 30"
      using less.prems(1) True calculation(2) by (intro less.hyps) auto
    ultimately show ?thesis using True less.prems(1) by (subst double_until.simps) force
  next
    case False
    then show ?thesis using less.prems by (subst double_until.simps) simp
  qed
qed

lemma append_step:
  assumes "sb_ok sb" "length (sb_s sb) + length s < 2 ^ 29"
  shows "\<exists>sb'. stringbuffer_append sb s f = Some sb' \<and> sb_ok sb' \<and> sb_s sb' = sb_s sb @ s"
proof -
  have d: "s32 (int (length (sb_s sb)) + int (length s)) = int (length (sb_s sb) + length s)"
    using assms(2) by (simp add: in_s32_def)
  show ?thesis
  proof (cases "bufsize sb \<le> int (length (sb_s sb) + length s)")
    case True
    then have b: "s32 (bufsize sb * 2) = bufsize sb * 2" "bufsize sb * 2 \<le> 2 ^ 30" "0 < bufsize sb * 2"
      using assms by (simp_all add: sb_ok_def in_s32_def)
    obtain b' where "double_until (int (length (sb_s sb) + length s)) (bufsize sb * 2) = Some b'"
      "int (length (sb_s sb) + length s) < b'" "0 < b'" "b' \<le> 2 ^ 30"
      using double_until_total [OF b(3,2), of "int (length (sb_s sb) + length s)"] assms(2) b(3) by auto
    then show ?thesis
      using True b(1) d by (simp add: stringbuffer_append_def stringbuffer_extend_if_short_def sb_ok_def)
  next
    case False
    then show ?thesis
      using assms(1) d by (simp add: stringbuffer_append_def stringbuffer_extend_if_short_def sb_ok_def)
  qed
qed

text \<open>Appending to a string buffer returns the concatenation, never writes beyond the allocated
  size, and the doubling of the buffer ends; the total length may be up to half a gigabyte.\<close>

theorem stringbuffer_append_concat:
  assumes "sb_ok sb" "length (stringbuffer_getstring sb) + length s < 2 ^ 29"
  shows "\<exists>sb'. stringbuffer_append sb s f = Some sb' \<and> sb_ok sb' \<and>
    stringbuffer_getstring sb' = stringbuffer_getstring sb @ s"
  using append_step [OF assms(1), of s f] assms(2) by (simp add: stringbuffer_getstring_def)

theorem stringbuffer_append_concat_witness:
  "\<exists>sb'. stringbuffer_append stringbuffer_create ''abc'' False = Some sb' \<and> sb_ok sb' \<and>
    stringbuffer_getstring sb' = stringbuffer_getstring stringbuffer_create @ ''abc''"
  by (rule stringbuffer_append_concat) (simp_all add: stringbuffer_getstring_def sb_ok_def stringbuffer_create_def INITIAL_SIZE_def)

end
