(* ===== verification/Parser.thy ===== *)
theory Parser
  imports Cstring Entities
begin

section \<open>Key/value strings (replay/parser.c)\<close>

text \<open>
  The parser takes the next pair off a string \<open>key1=value1;key2=value2;...\<close>, where a value is a
  singleton or a sequence of pairs in braces, and converts between C values and the strings used as
  values. An output buffer is given by its size; a write beyond it is \<^term>\<open>None\<close>. The decoders fill
  an array of rows with the tokens of a string, row by row, and start over when all rows are full.

  The theory shows that what the encoders write is read back by \<open>parser_nextkeyvaluepair\<close> and the
  decoders, for strings and for matrices of integers, that a value in matching braces is returned
  whole, and that \<open>parser_encode_float\<close> overruns its buffer for large numbers.
\<close>

definition BRACKETS :: string where "BRACKETS = '' []{},''"

subsection \<open>The next pair\<close>

text \<open>The scan for the bracket that closes the value, with the number of open brackets; the result is
  the suffix that starts with the closing bracket.\<close>

fun closing_bracket :: "nat \<Rightarrow> string \<Rightarrow> string option" where
  "closing_bracket count [] = None"
| "closing_bracket count (c # t) =
     (if c = CHR 0x0A then None
      else let count = (if c = CHR ''{'' then count + 1 else count)
           in if c = CHR ''}''
              then if count - 1 = 0 then Some (c # t) else closing_bracket (count - 1) t
              else closing_bracket count t)"

text \<open>\<open>parser_nextkeyvaluepair ks vs q\<close> with buffers of \<open>ks\<close> and \<open>vs\<close> characters: the next pair to parse,
  the key, the value, and the flag \<open>issingleton\<close> if it is assigned.\<close>

definition parser_nextkeyvaluepair :: "nat \<Rightarrow> nat \<Rightarrow> string \<Rightarrow> (string option \<times> string \<times> string \<times> bool option) option" where
  "parser_nextkeyvaluepair ks vs q =
     do { let (nxt, k, v, singleton) =
            (case strchr q (CHR ''='') of
               None \<Rightarrow> (None, [], [], None)
             | Some eq \<Rightarrow>
                 let f = dropWhile (\<lambda>c. c = CHR '' '') q;
                     k = take (length f - length eq) f;
                     valbegin = tl eq
                 in if valbegin \<noteq> [] \<and> hd valbegin = CHR ''{''
                    then let valbegin = tl valbegin
                         in (case closing_bracket 1 valbegin of
                               None \<Rightarrow> (None, k, [], Some False)
                             | Some valend \<Rightarrow>
                                 let v = take (length valbegin - length valend) valbegin;
                                     valend = tl valend
                                 in (if valend = [] \<or> hd valend = CHR 0x0A then None else Some (tl valend), k, v, Some False))
                    else let valend = (case strpbrk valbegin ('';}'' @ [CHR 0x0A]) of Some e \<Rightarrow> e | None \<Rightarrow> []);
                             v = take (length valbegin - length valend) valbegin
                         in (if valend = [] \<or> hd valend = CHR 0x0A then None else Some (tl valend), k, v, Some True));
          if length k < ks \<and> length v < vs then Some (nxt, k, v, singleton) else None }"

subsection \<open>Decoding\<close>

definition parser_decode_int :: "string option \<Rightarrow> int" where
  "parser_decode_int s = (case s of None \<Rightarrow> 0 | Some s \<Rightarrow> (case scan_int s of None \<Rightarrow> 0 | Some v \<Rightarrow> v))"

definition parser_decode_float :: "string option \<Rightarrow> real" where
  "parser_decode_float s = (case s of None \<Rightarrow> 0 | Some s \<Rightarrow> (case scan_float s of None \<Rightarrow> 0 | Some v \<Rightarrow> v))"

definition parser_decode_string :: "string \<Rightarrow> string" where
  "parser_decode_string s = s"

definition parser_decode_bool :: "string \<Rightarrow> bool" where
  "parser_decode_bool s \<longleftrightarrow> strcmp s ''true'' = 0 \<or> strcmp s ''TRUE'' = 0 \<or> strcmp s ''1'' = 0"

text \<open>The loop over the tokens that all array decoders share: \<open>put\<close> says what a token does to its cell,
  \<open>ncols\<close> the length of each row. An assignment outside a row is an error.\<close>

definition store :: "('a \<Rightarrow> string \<Rightarrow> 'a) \<Rightarrow> 'a list list \<Rightarrow> nat \<Rightarrow> nat \<Rightarrow> string \<Rightarrow> 'a list list option" where
  "store put x i j tok =
     do { row \<leftarrow> rd x i; a \<leftarrow> rd row j; row \<leftarrow> wr row j (put a tok); wr x i row }"

fun fill :: "('a \<Rightarrow> string \<Rightarrow> 'a) \<Rightarrow> nat list \<Rightarrow> string list \<Rightarrow> nat \<Rightarrow> nat \<Rightarrow> 'a list list \<Rightarrow> 'a list list option" where
  "fill put ncols [] i j x = Some x"
| "fill put ncols (tok # toks) i j x =
     do { x \<leftarrow> store put x i j tok;
          n \<leftarrow> rd ncols i;
          let (i, j) = (if j + 1 = n then (if i + 1 = length ncols then 0 else i + 1, 0) else (i, j + 1));
          fill put ncols toks i j x }"

definition decode_rows :: "('a \<Rightarrow> string \<Rightarrow> 'a) \<Rightarrow> 'a \<Rightarrow> string option \<Rightarrow> nat list \<Rightarrow> 'a list list option" where
  "decode_rows put z s ncols =
     (let x = map (\<lambda>n. replicate n z) ncols
      in case s of None \<Rightarrow> Some x | Some s \<Rightarrow> fill put ncols (tokens s BRACKETS) 0 0 x)"

definition parser_decode_intarray :: "string option \<Rightarrow> nat \<Rightarrow> nat \<Rightarrow> int list list option" where
  "parser_decode_intarray s nrows ncols =
     decode_rows (\<lambda>a tok. case scan_int tok of None \<Rightarrow> a | Some v \<Rightarrow> v) 0 s (replicate nrows ncols)"

definition parser_decode_floatarray :: "string option \<Rightarrow> nat \<Rightarrow> nat \<Rightarrow> real list list option" where
  "parser_decode_floatarray s nrows ncols =
     decode_rows (\<lambda>a tok. case scan_float tok of None \<Rightarrow> a | Some v \<Rightarrow> v) 0 s (replicate nrows ncols)"

definition parser_decode_floatarrayvariable :: "string option \<Rightarrow> nat \<Rightarrow> nat list \<Rightarrow> real list list option" where
  "parser_decode_floatarrayvariable s nrows ncols =
     (if nrows \<le> length ncols
      then decode_rows (\<lambda>a tok. case scan_float tok of None \<Rightarrow> a | Some v \<Rightarrow> v) 0 s (take nrows ncols) else None)"

text \<open>A cell of a string array starts as a null pointer and gets a copy of the first word of its token; a
  token without a word leaves an allocated cell whose contents are not defined, here the empty string.\<close>

definition parser_decode_stringarray :: "string option \<Rightarrow> nat \<Rightarrow> nat \<Rightarrow> string option list list option" where
  "parser_decode_stringarray s nrows ncols =
     decode_rows (\<lambda>_ tok. Some (case scan_string tok of None \<Rightarrow> [] | Some v \<Rightarrow> v)) None s (replicate nrows ncols)"

definition parser_decode_stringarrayvariable :: "string option \<Rightarrow> nat \<Rightarrow> nat list \<Rightarrow> string option list list option" where
  "parser_decode_stringarrayvariable s nrows ncols =
     (if nrows \<le> length ncols
      then decode_rows (\<lambda>_ tok. Some (case scan_string tok of None \<Rightarrow> [] | Some v \<Rightarrow> v)) None s (take nrows ncols) else None)"

definition parser_decode_boolarray :: "string option \<Rightarrow> nat \<Rightarrow> nat \<Rightarrow> bool list list option" where
  "parser_decode_boolarray s nrows ncols =
     decode_rows (\<lambda>_ tok. parser_decode_bool tok) False s (replicate nrows ncols)"

subsection \<open>Encoding\<close>

definition encode_value :: "string \<Rightarrow> string option \<Rightarrow> string option" where
  "encode_value key val =
     do { sb \<leftarrow> stringbuffer_append stringbuffer_create key False;
          sb \<leftarrow> stringbuffer_append sb ''='' False;
          valstr \<leftarrow> val;
          sb \<leftarrow> stringbuffer_append sb valstr False;
          sb \<leftarrow> stringbuffer_append sb '';'' False;
          Some (stringbuffer_getstring sb) }"

text \<open>The loop that appends values separated by commas.\<close>

definition encode_items :: "nat \<Rightarrow> (nat \<Rightarrow> string option) \<Rightarrow> stringbuffer \<Rightarrow> stringbuffer option" where
  "encode_items num item =
     for_each (\<lambda>i sb. do { valstr \<leftarrow> item i; sb \<leftarrow> stringbuffer_append sb valstr False;
                          if i + 1 < num then stringbuffer_append sb '','' False else Some sb }) [0..<num]"

definition encode_array :: "string \<Rightarrow> nat \<Rightarrow> (nat \<Rightarrow> string option) \<Rightarrow> string option" where
  "encode_array key num item =
     do { sb \<leftarrow> stringbuffer_append stringbuffer_create key False;
          sb \<leftarrow> stringbuffer_append sb ''=['' False;
          sb \<leftarrow> encode_items num item sb;
          sb \<leftarrow> stringbuffer_append sb ''];'' False;
          Some (stringbuffer_getstring sb) }"

definition encode_matrix :: "string \<Rightarrow> nat \<Rightarrow> nat \<Rightarrow> (nat \<Rightarrow> nat \<Rightarrow> string option) \<Rightarrow> string option" where
  "encode_matrix key nrows ncols item =
     do { sb \<leftarrow> stringbuffer_append stringbuffer_create key False;
          sb \<leftarrow> stringbuffer_append sb ''=['' False;
          sb \<leftarrow> for_each (\<lambda>i sb. do { sb \<leftarrow> stringbuffer_append sb ''['' False;
                                      sb \<leftarrow> encode_items ncols (item i) sb;
                                      stringbuffer_append sb '']'' False }) [0..<nrows] sb;
          sb \<leftarrow> stringbuffer_append sb ''];'' False;
          Some (stringbuffer_getstring sb) }"

definition parser_encode_int :: "string \<Rightarrow> int \<Rightarrow> string option" where
  "parser_encode_int key val = encode_value key (sprintf 16 (int_string val))"

definition parser_encode_intarray :: "string \<Rightarrow> nat \<Rightarrow> int list \<Rightarrow> string option" where
  "parser_encode_intarray key num val = encode_array key num (\<lambda>i. do { v \<leftarrow> rd val i; sprintf 16 (int_string v) })"

definition parser_encode_intmatrix :: "string \<Rightarrow> nat \<Rightarrow> nat \<Rightarrow> int list list \<Rightarrow> string option" where
  "parser_encode_intmatrix key nrows ncols val =
     encode_matrix key nrows ncols (\<lambda>i j. do { row \<leftarrow> rd val i; v \<leftarrow> rd row j; sprintf 32 (int_string v) })"

definition parser_encode_float :: "string \<Rightarrow> real \<Rightarrow> string option" where
  "parser_encode_float key val = encode_value key (sprintf 16 (float_string val))"

definition parser_encode_floatarray :: "string \<Rightarrow> nat \<Rightarrow> real list \<Rightarrow> string option" where
  "parser_encode_floatarray key num val = encode_array key num (\<lambda>i. do { v \<leftarrow> rd val i; sprintf 32 (float_string v) })"

definition parser_encode_floatmatrix :: "string \<Rightarrow> nat \<Rightarrow> nat \<Rightarrow> real list list \<Rightarrow> string option" where
  "parser_encode_floatmatrix key nrows ncols val =
     encode_matrix key nrows ncols (\<lambda>i j. do { row \<leftarrow> rd val i; v \<leftarrow> rd row j; sprintf 32 (float_string v) })"

definition parser_encode_bool :: "string \<Rightarrow> bool \<Rightarrow> string option" where
  "parser_encode_bool key val = encode_value key (sprintf 16 (int_string (of_bool val)))"

definition parser_encode_boolarray :: "string \<Rightarrow> nat \<Rightarrow> bool list \<Rightarrow> string option" where
  "parser_encode_boolarray key num val =
     encode_array key num (\<lambda>i. do { v \<leftarrow> rd val i; sprintf 16 (int_string (of_bool v)) })"

definition parser_encode_string :: "string \<Rightarrow> string \<Rightarrow> string option" where
  "parser_encode_string key val = encode_value key (Some val)"

definition parser_encode_stringarray :: "string \<Rightarrow> nat \<Rightarrow> string list \<Rightarrow> string option" where
  "parser_encode_stringarray key num val = encode_array key num (rd val)"

definition parser_encode_stringmatrix :: "string \<Rightarrow> nat \<Rightarrow> nat \<Rightarrow> string list list \<Rightarrow> string option" where
  "parser_encode_stringmatrix key nrows ncols val =
     encode_matrix key nrows ncols (\<lambda>i j. do { row \<leftarrow> rd val i; rd row j })"

subsection \<open>Appending\<close>

lemma append_string:
  assumes "sb_ok sb" "sb_s sb = t" "length t + length s < 2 ^ 29"
  obtains sb' where "stringbuffer_append sb s f = Some sb'" "sb_ok sb'" "sb_s sb' = t @ s"
  using append_step [OF assms(1), of s f] assms(2,3) by auto

lemma create_string: "sb_s stringbuffer_create = []"
  by (simp add: stringbuffer_create_def)

lemma encode_value_eq:
  assumes "length key + length v + 2 < 2 ^ 29"
  shows "encode_value key (Some v) = Some (key @ ''='' @ v @ '';'')"
proof -
  obtain b1 where b1: "stringbuffer_append stringbuffer_create key False = Some b1" "sb_ok b1" "sb_s b1 = key"
    using append_string [OF sb_ok_create create_string, of key False] assms by auto
  obtain b2 where b2: "stringbuffer_append b1 ''='' False = Some b2" "sb_ok b2" "sb_s b2 = key @ ''=''"
    using append_string [OF b1(2,3), of "''=''" False] assms by auto
  obtain b3 where b3: "stringbuffer_append b2 v False = Some b3" "sb_ok b3" "sb_s b3 = (key @ ''='') @ v"
    using append_string [OF b2(2,3), of v False] assms by auto
  obtain b4 where "stringbuffer_append b3 '';'' False = Some b4" "sb_s b4 = ((key @ ''='') @ v) @ '';''"
    using append_string [OF b3(2,3), of "'';''" False] assms by auto
  then show ?thesis using b1 b2 b3 by (simp add: encode_value_def stringbuffer_getstring_def)
qed

text \<open>The items of a row, separated by commas.\<close>

definition joined :: "string list \<Rightarrow> string" where
  "joined ws = (if ws = [] then [] else concat (map (\<lambda>w. w @ '','') (butlast ws)) @ last ws)"

definition items_length :: "string list \<Rightarrow> nat" where
  "items_length ws = sum_list (map (\<lambda>w. length w + 1) ws)"

lemma items_prefix:
  assumes "sb_ok sb" "sb_s sb = t" "\<And>i. i < length ws \<Longrightarrow> item i = Some (ws ! i)" "n < length ws"
    "length t + items_length ws < 2 ^ 29"
  shows "\<exists>sb'. for_each (\<lambda>i sb. do { valstr \<leftarrow> item i; sb \<leftarrow> stringbuffer_append sb valstr False;
      if i + 1 < length ws then stringbuffer_append sb '','' False else Some sb }) [0..<n] sb = Some sb' \<and>
    sb_ok sb' \<and> sb_s sb' = t @ concat (map (\<lambda>w. w @ '','') (take n ws))"
  using assms(4)
proof (induction n)
  case 0
  then show ?case using assms(1,2) by simp
next
  case (Suc n)
  let ?f = "\<lambda>i sb. do { valstr \<leftarrow> item i; sb \<leftarrow> stringbuffer_append sb valstr False;
      if i + 1 < length ws then stringbuffer_append sb '','' False else Some sb }"
  let ?p = "t @ concat (map (\<lambda>w. w @ '','') (take n ws))"
  obtain sb1 where sb1: "for_each ?f [0..<n] sb = Some sb1" "sb_ok sb1" "sb_s sb1 = ?p" using Suc by auto
  have tk: "take (Suc n) ws = take n ws @ [ws ! n]" using Suc.prems by (simp add: take_Suc_conv_app_nth)
  have "items_length (take (Suc n) ws) \<le> items_length ws"
    using sum_list_append [of "map (\<lambda>w. length w + 1) (take (Suc n) ws)" "map (\<lambda>w. length w + 1) (drop (Suc n) ws)"]
    by (simp add: items_length_def flip: map_append)
  moreover have "length (concat (map (\<lambda>w. w @ '','') (take n ws))) = items_length (take n ws)"
    by (simp add: items_length_def length_concat comp_def)
  ultimately have len: "length ?p + length (ws ! n) + 1 < 2 ^ 29" using assms(5) by (simp add: tk items_length_def)
  obtain sb2 where sb2: "stringbuffer_append sb1 (ws ! n) False = Some sb2" "sb_ok sb2" "sb_s sb2 = ?p @ ws ! n"
    using append_string [OF sb1(2,3), of "ws ! n" False] len by auto
  obtain sb3 where "stringbuffer_append sb2 '','' False = Some sb3" "sb_ok sb3" "sb_s sb3 = (?p @ ws ! n) @ '',''"
    using append_string [OF sb2(2,3), of "'',''" False] len by auto
  then show ?case using sb1 sb2 Suc.prems assms(3) [of n] by (simp add: for_each_upt_Suc tk del: upt_Suc)
qed

lemma encode_items_eq:
  assumes "sb_ok sb" "sb_s sb = t" "\<And>i. i < length ws \<Longrightarrow> item i = Some (ws ! i)" "length t + items_length ws < 2 ^ 29"
  obtains sb' where "encode_items (length ws) item sb = Some sb'" "sb_ok sb'" "sb_s sb' = t @ joined ws"
proof (cases ws rule: rev_cases)
  case Nil
  then show ?thesis using that [of sb] assms(1,2) by (simp add: encode_items_def joined_def)
next
  case (snoc us w)
  let ?f = "\<lambda>i sb. do { valstr \<leftarrow> item i; sb \<leftarrow> stringbuffer_append sb valstr False;
      if i + 1 < length ws then stringbuffer_append sb '','' False else Some sb }"
  let ?p = "t @ concat (map (\<lambda>w. w @ '','') us)"
  obtain sb1 where sb1: "for_each ?f [0..<length us] sb = Some sb1" "sb_ok sb1" "sb_s sb1 = ?p"
    using items_prefix [OF assms(1-3), of "length us"] assms(4) by (auto simp: snoc)
  have "length ?p + length w < 2 ^ 29" using assms(4) by (simp add: snoc items_length_def length_concat comp_def)
  then obtain sb2 where sb2: "stringbuffer_append sb1 w False = Some sb2" "sb_ok sb2" "sb_s sb2 = ?p @ w"
    using append_string [OF sb1(2,3), of w False] by auto
  have "item (length us) = Some w" using assms(3) [of "length us"] by (simp add: snoc)
  then have "for_each ?f [0..<Suc (length us)] sb = Some sb2"
    using sb1(1) sb2(1) by (simp add: for_each_upt_Suc snoc del: upt_Suc)
  then show ?thesis using that [of sb2] sb2 by (simp add: encode_items_def joined_def snoc)
qed

text \<open>The rows of a matrix.\<close>

definition rows_string :: "string list list \<Rightarrow> string" where
  "rows_string wss = concat (map (\<lambda>ws. ''['' @ joined ws @ '']'') wss)"

definition rows_length :: "string list list \<Rightarrow> nat" where
  "rows_length wss = sum_list (map (\<lambda>ws. items_length ws + 2) wss)"

lemma joined_length: "length (joined ws) \<le> items_length ws"
proof (cases ws rule: rev_cases)
  case (snoc us w)
  then show ?thesis by (simp add: joined_def items_length_def length_concat comp_def)
qed (simp add: joined_def)

lemma rows_string_length: "length (rows_string wss) \<le> rows_length wss"
  using joined_length by (induction wss) (auto simp: rows_string_def rows_length_def intro: add_mono)

lemma encode_rows:
  assumes "sb_ok sb" "sb_s sb = t" "\<And>i. i < length wss \<Longrightarrow> length (wss ! i) = nc"
    "\<And>i j. i < length wss \<Longrightarrow> j < nc \<Longrightarrow> item i j = Some (wss ! i ! j)" "length t + rows_length wss < 2 ^ 29"
  shows "\<exists>sb'. for_each (\<lambda>i sb. do { sb \<leftarrow> stringbuffer_append sb ''['' False;
      sb \<leftarrow> encode_items nc (item i) sb; stringbuffer_append sb '']'' False }) [0..<length wss] sb = Some sb' \<and>
    sb_ok sb' \<and> sb_s sb' = t @ rows_string wss"
  using assms
proof (induction wss rule: rev_induct)
  case Nil
  then show ?case by (simp add: rows_string_def)
next
  case (snoc ws wss)
  let ?f = "\<lambda>i sb. do { sb \<leftarrow> stringbuffer_append sb ''['' False;
      sb \<leftarrow> encode_items nc (item i) sb; stringbuffer_append sb '']'' False }"
  have "length (wss ! i) = nc" "j < nc \<Longrightarrow> item i j = Some (wss ! i ! j)" if "i < length wss" for i j
    using snoc.prems(3,4) [of i] that by (simp_all add: nth_append)
  then obtain sb1 where sb1: "for_each ?f [0..<length wss] sb = Some sb1" "sb_ok sb1" "sb_s sb1 = t @ rows_string wss"
    using snoc.IH [OF snoc.prems(1,2)] snoc.prems(5) by (auto simp: rows_length_def)
  have ws: "length ws = nc" "\<And>j. j < length ws \<Longrightarrow> item (length wss) j = Some (ws ! j)"
    using snoc.prems(3,4) [of "length wss"] by simp_all
  have len: "length t + length (rows_string wss) + items_length ws + 2 < 2 ^ 29"
    using snoc.prems(5) rows_string_length [of wss] by (simp add: rows_length_def)
  obtain sb2 where sb2: "stringbuffer_append sb1 ''['' False = Some sb2" "sb_ok sb2" "sb_s sb2 = (t @ rows_string wss) @ ''[''"
    using append_string [OF sb1(2,3), of "''[''" False] len by auto
  obtain sb3 where sb3: "encode_items (length ws) (item (length wss)) sb2 = Some sb3" "sb_ok sb3"
    "sb_s sb3 = ((t @ rows_string wss) @ ''['') @ joined ws"
    using encode_items_eq [OF sb2(2,3) ws(2)] len by auto
  obtain sb4 where "stringbuffer_append sb3 '']'' False = Some sb4" "sb_ok sb4"
    "sb_s sb4 = (((t @ rows_string wss) @ ''['') @ joined ws) @ '']''"
    using append_string [OF sb3(2,3), of "'']''" False] len joined_length [of ws] by auto
  then show ?case using sb1(1) sb2(1) sb3(1) ws(1)
    by (simp add: for_each_upt_Suc rows_string_def del: upt_Suc)
qed

lemma encode_matrix_eq:
  assumes "\<And>i. i < length wss \<Longrightarrow> length (wss ! i) = nc"
    "\<And>i j. i < length wss \<Longrightarrow> j < nc \<Longrightarrow> item i j = Some (wss ! i ! j)" "length key + rows_length wss + 4 < 2 ^ 29"
  shows "encode_matrix key (length wss) nc item = Some (key @ ''='' @ (''['' @ rows_string wss @ '']'') @ '';'')"
proof -
  obtain b1 where b1: "stringbuffer_append stringbuffer_create key False = Some b1" "sb_ok b1" "sb_s b1 = key"
    using append_string [OF sb_ok_create create_string, of key False] assms(3) by auto
  obtain b2 where b2: "stringbuffer_append b1 ''=['' False = Some b2" "sb_ok b2" "sb_s b2 = key @ ''=[''"
    using append_string [OF b1(2,3), of "''=[''" False] assms(3) by auto
  obtain b3 where b3: "for_each (\<lambda>i sb. do { sb \<leftarrow> stringbuffer_append sb ''['' False;
      sb \<leftarrow> encode_items nc (item i) sb; stringbuffer_append sb '']'' False }) [0..<length wss] b2 = Some b3"
    "sb_ok b3" "sb_s b3 = (key @ ''=['') @ rows_string wss"
    using encode_rows [OF b2(2,3) assms(1,2)] assms(3) by auto
  obtain b4 where "stringbuffer_append b3 ''];'' False = Some b4" "sb_s b4 = ((key @ ''=['') @ rows_string wss) @ ''];''"
    using append_string [OF b3(2,3), of "''];''" False] assms(3) rows_string_length [of wss] by auto
  then show ?thesis using b1(1) b2(1) b3(1) by (simp add: encode_matrix_def stringbuffer_getstring_def)
qed

subsection \<open>Parsing what was encoded\<close>

lemma dropWhile_found: "\<forall>x\<in>set xs. P x \<Longrightarrow> \<not> P c \<Longrightarrow> dropWhile P (xs @ c # ys) = c # ys"
  by (simp add: dropWhile_append2)

lemma strchr_found: "c \<notin> set xs \<Longrightarrow> strchr (xs @ c # ys) c = Some (c # ys)"
  using dropWhile_found [of xs "\<lambda>x. x \<noteq> c" c ys] by (metis (mono_tags, lifting) list.simps(5) strchr_def)

lemma key_split:
  assumes "CHR ''='' \<notin> set key" "key = [] \<or> hd key \<noteq> CHR '' ''"
  shows "strchr (key @ CHR ''='' # t) (CHR ''='') = Some (CHR ''='' # t)"
    "dropWhile (\<lambda>c. c = CHR '' '') (key @ CHR ''='' # t) = key @ CHR ''='' # t"
proof -
  show "strchr (key @ CHR ''='' # t) (CHR ''='') = Some (CHR ''='' # t)" by (rule strchr_found [OF assms(1)])
  show "dropWhile (\<lambda>c. c = CHR '' '') (key @ CHR ''='' # t) = key @ CHR ''='' # t" using assms(2) by (cases key) auto
qed

lemma next_singleton:
  assumes key: "CHR ''='' \<notin> set key" "key = [] \<or> hd key \<noteq> CHR '' ''" "length key < ks"
    and v: "\<forall>c\<in>set v. c \<notin> set '';}'' \<and> c \<noteq> CHR 0x0A" "v = [] \<or> hd v \<noteq> CHR ''{''" "length v < vs"
  shows "parser_nextkeyvaluepair ks vs (key @ ''='' @ v @ '';'' @ rest) = Some (Some rest, key, v, Some True)"
proof -
  have "dropWhile (\<lambda>x. x \<notin> set ('';}'' @ [CHR 0x0A])) (v @ CHR '';'' # rest) = CHR '';'' # rest"
    using v(1) by (intro dropWhile_found) auto
  then have "strpbrk (v @ CHR '';'' # rest) ('';}'' @ [CHR 0x0A]) = Some (CHR '';'' # rest)" by (simp add: strpbrk_def)
  moreover have "hd (v @ CHR '';'' # rest) \<noteq> CHR ''{''" using v(2) by (cases v) auto
  ultimately show ?thesis using key_split [OF key(1,2)] key(3) v(3) by (simp add: parser_nextkeyvaluepair_def)
qed

text \<open>The number of brackets open after a string, if it is never negative and no line ends.\<close>

fun bracket_depth :: "nat \<Rightarrow> string \<Rightarrow> nat option" where
  "bracket_depth n [] = Some n"
| "bracket_depth n (c # t) =
     (if c = CHR 0x0A then None
      else if c = CHR ''{'' then bracket_depth (n + 1) t
      else if c = CHR ''}'' then (if n = 0 then None else bracket_depth (n - 1) t)
      else bracket_depth n t)"

lemma closing_depth: "bracket_depth n s = Some k \<Longrightarrow> closing_bracket (n + 1) (s @ t) = closing_bracket (k + 1) t"
proof (induction n s rule: bracket_depth.induct)
  case (2 n c s)
  then show ?case by (cases n) (auto simp: Let_def split: if_splits)
qed simp

lemma next_nested:
  assumes key: "CHR ''='' \<notin> set key" "key = [] \<or> hd key \<noteq> CHR '' ''" "length key < ks"
    and v: "bracket_depth 0 v = Some 0" "length v < vs"
  shows "parser_nextkeyvaluepair ks vs (key @ ''={'' @ v @ ''};'' @ rest) = Some (Some rest, key, v, Some False)"
proof -
  have "closing_bracket 1 (v @ CHR ''}'' # CHR '';'' # rest) = Some (CHR ''}'' # CHR '';'' # rest)"
    using closing_depth [OF v(1), of "CHR ''}'' # CHR '';'' # rest"] by simp
  then show ?thesis using key_split [OF key(1,2)] key(3) v(2) by (simp add: parser_nextkeyvaluepair_def)
qed

subsection \<open>Decoding what was parsed\<close>

definition is_word :: "string \<Rightarrow> bool" where
  "is_word w \<longleftrightarrow> w \<noteq> [] \<and> (\<forall>c\<in>set w. c \<notin> set BRACKETS)"

lemma tokens_commas: "\<forall>w\<in>set us. is_word w \<Longrightarrow> tokens (concat (map (\<lambda>w. w @ '','') us) @ s) BRACKETS = us @ tokens s BRACKETS"
  by (induction us) (auto simp: tokens_word is_word_def BRACKETS_def)

lemma tokens_row:
  assumes "\<forall>w\<in>set ws. is_word w"
  shows "tokens (''['' @ joined ws @ '']'' @ s) BRACKETS = ws @ tokens s BRACKETS"
proof (cases ws rule: rev_cases)
  case Nil
  then show ?thesis by (simp add: joined_def tokens_skip BRACKETS_def)
next
  case (snoc us w)
  have "tokens (w @ '']'' @ s) BRACKETS = w # tokens s BRACKETS"
    using assms snoc by (simp add: tokens_word is_word_def BRACKETS_def)
  then show ?thesis using assms snoc tokens_commas [of us "w @ '']'' @ s"] by (simp add: joined_def tokens_skip BRACKETS_def)
qed

lemma tokens_rows:
  "\<forall>ws\<in>set wss. \<forall>w\<in>set ws. is_word w \<Longrightarrow> tokens (rows_string wss @ s) BRACKETS = concat wss @ tokens s BRACKETS"
proof (induction wss)
  case (Cons ws wss)
  then show ?case using tokens_row [of ws "rows_string wss @ s"] by (simp add: rows_string_def)
qed (simp add: rows_string_def)

text \<open>One row is filled from the column \<open>j\<close> on.\<close>

lemma fill_row:
  assumes "i < length x" "i < length cols" "length (x ! i) = length vs" "cols ! i = length vs" "j < length vs"
    and put: "\<And>a k. k < length vs \<Longrightarrow> put a (ws ! k) = vs ! k" and ws: "length ws = length vs"
  shows "fill put cols (drop j ws @ toks) i j x
    = fill put cols toks (if i + 1 = length cols then 0 else i + 1) 0 (x[i := take j (x ! i) @ drop j vs])"
  using assms(1,3,5)
proof (induction "length vs - j" arbitrary: j x)
  case (Suc d)
  have dr: "drop j ws = ws ! j # drop (Suc j) ws" using Suc.prems(3) ws by (simp add: Cons_nth_drop_Suc)
  let ?x = "x[i := (x ! i)[j := vs ! j]]"
  have st: "store put x i j (ws ! j) = Some ?x" using Suc.prems put by (simp add: store_def)
  show ?case
  proof (cases "Suc j = length vs")
    case True
    then have "take j (x ! i) @ drop j vs = (x ! i)[j := vs ! j]"
      using Suc.prems by (auto simp: list_eq_iff_nth_eq nth_append nth_list_update less_Suc_eq)
    then show ?thesis using True st assms(2,4) ws by (simp add: dr)
  next
    case False
    then have j: "Suc j < length vs" using Suc.prems(3) by simp
    have "fill put cols (drop (Suc j) ws @ toks) i (Suc j) ?x
      = fill put cols toks (if i + 1 = length cols then 0 else i + 1) 0 (?x[i := take (Suc j) (?x ! i) @ drop (Suc j) vs])"
      using Suc.prems j Suc.hyps(2) by (intro Suc.hyps(1)) auto
    moreover have "take (Suc j) (?x ! i) @ drop (Suc j) vs = take j (x ! i) @ drop j vs"
      using Suc.prems j by (simp add: take_Suc_conv_app_nth Cons_nth_drop_Suc [symmetric])
    ultimately show ?thesis using False st assms(2,4) by (simp add: dr)
  qed
qed simp

lemma fill_rows:
  assumes "length x = length vss" "\<And>i. i < length vss \<Longrightarrow> length (x ! i) = nc \<and> length (vss ! i) = nc" "0 < nc"
    and put: "\<And>a v. v \<in> set (concat vss) \<Longrightarrow> put a (f v) = v" and i: "i < length vss"
  shows "fill put (replicate (length vss) nc) (concat (map (map f) (drop i vss))) i 0 x = Some (take i x @ drop i vss)"
  using assms(1,2) i
proof (induction "length vss - i" arbitrary: i x)
  case (Suc d)
  have dr: "drop i vss = vss ! i # drop (Suc i) vss" using Suc.prems(3) by (simp add: Cons_nth_drop_Suc)
  have p: "put a (map f (vss ! i) ! k) = vss ! i ! k" if "k < length (vss ! i)" for a k
    using that Suc.prems(3) by (auto intro!: put bexI [of _ "vss ! i"])
  let ?x = "x[i := vss ! i]"
  have step: "fill put (replicate (length vss) nc) (concat (map (map f) (drop i vss))) i 0 x
    = fill put (replicate (length vss) nc) (concat (map (map f) (drop (Suc i) vss))) (if i + 1 = length vss then 0 else i + 1) 0 ?x"
    using fill_row [of i x "replicate (length vss) nc" "vss ! i" 0 put "map f (vss ! i)" "concat (map (map f) (drop (Suc i) vss))"]
      Suc.prems assms(3) p by (simp add: dr)
  have tk: "take i x @ drop i vss = take (Suc i) ?x @ drop (Suc i) vss"
    using Suc.prems by (simp add: dr take_Suc_conv_app_nth)
  show ?case
  proof (cases "Suc i = length vss")
    case True
    then show ?thesis unfolding step tk using Suc.prems(1) by simp
  next
    case False
    have "fill put (replicate (length vss) nc) (concat (map (map f) (drop (Suc i) vss))) (Suc i) 0 ?x
      = Some (take (Suc i) ?x @ drop (Suc i) vss)"
      using Suc.prems False Suc.hyps(2) by (intro Suc.hyps(1)) (auto simp: nth_list_update)
    then show ?thesis unfolding step tk using False by simp
  qed
qed simp

lemma rows_chars: "c \<in> set (rows_string wss) \<Longrightarrow> c \<in> set ''[],'' \<or> (\<exists>ws\<in>set wss. \<exists>w\<in>set ws. c \<in> set w)"
proof (induction wss)
  case (Cons ws wss)
  have "c \<in> set ''[],'' \<or> (\<exists>w\<in>set ws. c \<in> set w)" if "c \<in> set (joined ws)"
    using that by (cases ws rule: rev_cases) (auto simp: joined_def split: if_splits)
  then show ?case using Cons by (auto simp: rows_string_def)
qed (simp add: rows_string_def)

lemma matrix_length:
  assumes "\<forall>row\<in>set val. length row = nc \<and> (\<forall>v\<in>set row. in_s32 v)"
  shows "rows_length (map (map int_string) val) \<le> length val * (12 * nc + 2)"
proof -
  have "items_length (map int_string row) \<le> 12 * length row" if "\<forall>v\<in>set row. in_s32 v" for row
    using that int_string_length by (induction row) (auto simp: items_length_def intro: add_mono)
  then have "\<forall>row\<in>set val. items_length (map int_string row) + 2 \<le> 12 * nc + 2" using assms by fastforce
  then show ?thesis by (induction val) (auto simp: rows_length_def)
qed

subsection \<open>Properties of the parser\<close>

text \<open>A string written by \<open>parser_encode_string\<close> is parsed back: the key, the value, and the position
  behind the pair, whatever follows, for keys without \<open>=\<close> and leading blanks and values without the
  characters that end a value.\<close>

theorem parser_string_roundtrip:
  assumes "CHR ''='' \<notin> set key" "key = [] \<or> hd key \<noteq> CHR '' ''" "length key < ks"
    and "\<forall>c\<in>set v. c \<notin> set '';}'' \<and> c \<noteq> CHR 0x0A" "v = [] \<or> hd v \<noteq> CHR ''{''" "length v < vs"
    and "length key + length v + 2 < 2 ^ 29"
  shows "\<exists>enc. parser_encode_string key v = Some enc \<and>
    parser_nextkeyvaluepair ks vs (enc @ rest) = Some (Some rest, key, v, Some True)"
  using encode_value_eq [OF assms(7)] next_singleton [OF assms(1-6), of rest] by (simp add: parser_encode_string_def)

theorem parser_string_roundtrip_witness:
  "\<exists>enc. parser_encode_string ''a'' ''xy'' = Some enc \<and>
    parser_nextkeyvaluepair 64 64 (enc @ ''b=1;'') = Some (Some ''b=1;'', ''a'', ''xy'', Some True)"
  by (rule parser_string_roundtrip) simp_all

text \<open>A value in braces that are matched and on one line is returned whole, with all pairs nested in
  it at any depth, and parsing continues behind it.\<close>

theorem parser_nested_value:
  assumes "CHR ''='' \<notin> set key" "key = [] \<or> hd key \<noteq> CHR '' ''" "length key < ks"
    and "bracket_depth 0 v = Some 0" "length v < vs"
  shows "parser_nextkeyvaluepair ks vs (key @ ''={'' @ v @ ''};'' @ rest) = Some (Some rest, key, v, Some False)"
  by (rule next_nested [OF assms])

theorem parser_nested_value_witness:
  "parser_nextkeyvaluepair 8 16 (''k'' @ ''={'' @ ''a={b=1;};'' @ ''};'' @ ''c=2;'') = Some (Some ''c=2;'', ''k'', ''a={b=1;};'', Some False)"
  by (rule parser_nested_value) simp_all

text \<open>C26: a matrix of integers survives the whole way: encoded into a pair, parsed, and decoded into the
  same rows and columns.\<close>

theorem parser_intmatrix_roundtrip:
  assumes key: "CHR ''='' \<notin> set key" "key = [] \<or> hd key \<noteq> CHR '' ''" "length key < ks"
    and val: "\<forall>row\<in>set val. length row = nc \<and> (\<forall>v\<in>set row. in_s32 v)" "0 < nc"
    and len: "length val * (12 * nc + 2) + 2 < vs" "length key + vs + 4 < 2 ^ 29"
  shows "\<exists>enc v. parser_encode_intmatrix key (length val) nc val = Some enc \<and>
    parser_nextkeyvaluepair ks vs (enc @ rest) = Some (Some rest, key, v, Some True) \<and>
    parser_decode_intarray (Some v) (length val) nc = Some val"
proof -
  let ?wss = "map (map int_string) val" and ?v = "''['' @ rows_string (map (map int_string) val) @ '']''"
  have nth: "length (val ! i) = nc" "j < nc \<Longrightarrow> in_s32 (val ! i ! j)" if "i < length val" for i j
    using that val(1) nth_mem by metis+
  have word: "is_word (int_string v)" for v
    using int_string_chars(1) [of _ v] by (auto simp: is_word_def BRACKETS_def int_string_def)
  have rl: "rows_length ?wss \<le> length val * (12 * nc + 2)" using matrix_length [OF val(1)] .
  have "encode_matrix key (length ?wss) nc (\<lambda>i j. do { row \<leftarrow> rd val i; v \<leftarrow> rd row j; sprintf 32 (int_string v) })
    = Some (key @ ''='' @ ?v @ '';'')"
    using nth rl len by (intro encode_matrix_eq) (auto simp: nth)
  then have enc: "parser_encode_intmatrix key (length val) nc val = Some (key @ ''='' @ ?v @ '';'')"
    by (simp add: parser_encode_intmatrix_def)
  have chars: "\<forall>c\<in>set ?v. c \<notin> set '';}'' \<and> c \<noteq> CHR 0x0A" using rows_chars [of _ ?wss] int_string_chars(2) by fastforce
  have nxt: "parser_nextkeyvaluepair ks vs (key @ ''='' @ ?v @ '';'' @ rest) = Some (Some rest, key, ?v, Some True)"
    using next_singleton [OF key chars] rl len(1) rows_string_length [of ?wss] by simp
  have "tokens ?v BRACKETS = concat ?wss"
    using tokens_rows [of ?wss "'']''"] word by (simp add: tokens_skip BRACKETS_def)
  moreover have "fill (\<lambda>a tok. case scan_int tok of None \<Rightarrow> a | Some v \<Rightarrow> v) (replicate (length val) nc)
      (concat (map (map int_string) (drop 0 val))) 0 0 (replicate (length val) (replicate nc 0))
    = Some (take 0 (replicate (length val) (replicate nc 0)) @ drop 0 val)" if "val \<noteq> []"
  proof (rule fill_rows)
    show "(case scan_int (int_string v) of None \<Rightarrow> a | Some v \<Rightarrow> v) = v" if "v \<in> set (concat val)" for a v
    proof -
      have "in_s32 v" using that val(1) by auto
      then show ?thesis by (simp add: scan_int_string)
    qed
  qed (use that nth val(2) in auto)
  then have "fill (\<lambda>a tok. case scan_int tok of None \<Rightarrow> a | Some v \<Rightarrow> v) (replicate (length val) nc)
      (concat ?wss) 0 0 (replicate (length val) (replicate nc 0)) = Some val" by (cases "val = []") simp_all
  ultimately have "parser_decode_intarray (Some ?v) (length val) nc = Some val"
    by (simp add: parser_decode_intarray_def decode_rows_def)
  then show ?thesis using enc nxt by auto
qed

theorem parser_intmatrix_roundtrip_witness:
  "\<exists>enc v. parser_encode_intmatrix ''m'' (length [[1, - 2 :: int], [30, 4]]) 2 [[1, - 2], [30, 4]] = Some enc \<and>
    parser_nextkeyvaluepair 8 100 (enc @ ''x=1;'') = Some (Some ''x=1;'', ''m'', v, Some True) \<and>
    parser_decode_intarray (Some v) (length [[1, - 2 :: int], [30, 4]]) 2 = Some [[1, - 2], [30, 4]]"
  by (rule parser_intmatrix_roundtrip) (simp_all add: in_s32_def)

text \<open>C39: \<open>parser_encode_float\<close> prints its value into a buffer of 16 characters; a value from \<open>10 ^ 8\<close> on
  needs at least 17 with the terminator and overruns the buffer.\<close>

theorem parser_encode_float_overrun:
  assumes "10 ^ 8 \<le> val"
  shows "parser_encode_float key val = None"
proof -
  have none: "sprintf 16 (float_string val) = None" using float_string_long [OF assms] by (simp add: sprintf_def)
  have "do { a \<leftarrow> f; (b::'b) \<leftarrow> g a; None } = (None :: string option)" for f :: "'a option" and g :: "'a \<Rightarrow> 'b option"
    by (cases f) (auto simp: bind_eq_None_conv)
  then show ?thesis unfolding parser_encode_float_def encode_value_def none by simp
qed

theorem parser_encode_float_overrun_witness: "parser_encode_float ''x'' (10 ^ 9) = None"
  by (rule parser_encode_float_overrun) simp

end
