(* ===== verification/Queue.thy ===== *)
theory Queue
  imports Prelude
begin

section \<open>Queues and integer objects (utils/queue.c, utils/integer.c)\<close>

text \<open>
  A queue is a singly linked list of nodes with a pointer to either end. Nodes live in a store, a map
  from addresses to nodes with the next free address; \<^term>\<open>None\<close> as a result of an operation is an
  access through a null or freed pointer.

  The relation \<open>queue_rep\<close> says that a queue in a store holds a list of elements. The theory shows
  that the operations refine first-in first-out behaviour on that list, that no access fails, and
  that destroying a queue ends and frees every node. Integer objects, the elements the code queues,
  are values with a three-way comparison.
\<close>

subsection \<open>Integer objects\<close>

record integer =
  ivalue :: int

definition integer_create :: "int \<Rightarrow> integer" where
  "integer_create v = \<lparr>ivalue = v\<rparr>"

definition integer_value :: "integer \<Rightarrow> int" where
  "integer_value i = ivalue i"

definition integer_set :: "integer \<Rightarrow> int \<Rightarrow> integer" where
  "integer_set i v = i\<lparr>ivalue := v\<rparr>"

definition integer_compare :: "integer \<Rightarrow> integer \<Rightarrow> int" where
  "integer_compare a b =
     (let v1 = integer_value a; v2 = integer_value b in of_bool (v1 > v2) - of_bool (v1 < v2))"

lemma integer_compare_sgn: "integer_compare a b = sgn (ivalue a - ivalue b)"
  by (simp add: integer_compare_def integer_value_def Let_def sgn_if)

subsection \<open>Nodes and queues\<close>

record 'a qnode =
  element :: "'a option"
  qnext :: "nat option"

record 'a qstore =
  cells :: "nat \<rightharpoonup> 'a qnode"
  fresh :: nat

record queue =
  front :: "nat option"
  rear :: "nat option"
  qsize :: int

definition qnode_create :: "'a qstore \<Rightarrow> 'a option \<Rightarrow> nat \<times> 'a qstore" where
  "qnode_create st e =
     (fresh st, st\<lparr>cells := (cells st)(fresh st \<mapsto> \<lparr>element = e, qnext = None\<rparr>), fresh := Suc (fresh st)\<rparr>)"

definition qnode_destroy :: "'a qstore \<Rightarrow> nat option \<Rightarrow> 'a qstore" where
  "qnode_destroy st p = (case p of None \<Rightarrow> st | Some a \<Rightarrow> st\<lparr>cells := (cells st)(a := None)\<rparr>)"

definition queue_create :: queue where
  "queue_create = \<lparr>front = None, rear = None, qsize = 0\<rparr>"

text \<open>The loop of \<open>queue_destroy\<close>; it ends only if the list does.\<close>

partial_function (option) queue_free :: "'a qstore \<Rightarrow> nat option \<Rightarrow> 'a qstore option" where
  "queue_free st p =
     (case p of None \<Rightarrow> Some st
      | Some a \<Rightarrow> do { nd \<leftarrow> cells st a; queue_free (qnode_destroy st (Some a)) (qnext nd) })"

declare queue_free.simps [code]

definition queue_destroy :: "'a qstore \<Rightarrow> queue option \<Rightarrow> 'a qstore option" where
  "queue_destroy st q = (case q of None \<Rightarrow> Some st | Some q \<Rightarrow> queue_free st (front q))"

definition queue_add :: "'a qstore \<times> queue \<Rightarrow> 'a option \<Rightarrow> ('a qstore \<times> queue) option" where
  "queue_add = (\<lambda>(st, q) e.
     let (nd, st) = qnode_create st e;
         q = q\<lparr>qsize := s32 (qsize q + 1)\<rparr>
     in (case rear q of
           None \<Rightarrow> Some (st, q\<lparr>rear := Some nd, front := Some nd\<rparr>)
         | Some r \<Rightarrow> do { rn \<leftarrow> cells st r;
                         Some (st\<lparr>cells := (cells st)(r \<mapsto> rn\<lparr>qnext := Some nd\<rparr>)\<rparr>, q\<lparr>rear := Some nd\<rparr>) }))"

definition queue_remove :: "'a qstore \<times> queue \<Rightarrow> ('a option \<times> 'a qstore \<times> queue) option" where
  "queue_remove = (\<lambda>(st, q).
     (case front q of
        None \<Rightarrow> Some (None, st, q)
      | Some a \<Rightarrow> do {
          let q = q\<lparr>qsize := s32 (qsize q - 1)\<rparr>;
          nd \<leftarrow> cells st a;
          let q = q\<lparr>front := qnext nd\<rparr>;
          let q = (if front q = None then q\<lparr>rear := None\<rparr> else q);
          Some (element nd, qnode_destroy st (Some a), q) }))"

definition queue_peek :: "'a qstore \<times> queue \<Rightarrow> 'a option option" where
  "queue_peek = (\<lambda>(st, q). (case front q of None \<Rightarrow> Some None | Some a \<Rightarrow> do { nd \<leftarrow> cells st a; Some (element nd) }))"

definition queue_size :: "queue \<Rightarrow> int" where
  "queue_size q = qsize q"

definition queue_isempty :: "queue \<Rightarrow> bool" where
  "queue_isempty q \<longleftrightarrow> qsize q = 0"

subsection \<open>Linked lists\<close>

text \<open>\<open>linked c p as\<close>: following the links from \<open>p\<close> visits the addresses \<open>as\<close> and then ends.\<close>

fun linked :: "(nat \<rightharpoonup> 'a qnode) \<Rightarrow> nat option \<Rightarrow> nat list \<Rightarrow> bool" where
  "linked c p [] \<longleftrightarrow> p = None"
| "linked c p (a # as) \<longleftrightarrow> p = Some a \<and> (case c a of None \<Rightarrow> False | Some nd \<Rightarrow> linked c (qnext nd) as)"

definition elements :: "(nat \<rightharpoonup> 'a qnode) \<Rightarrow> nat list \<Rightarrow> 'a option list" where
  "elements c as = map (\<lambda>a. element (the (c a))) as"

definition queue_at :: "'a qstore \<Rightarrow> queue \<Rightarrow> nat list \<Rightarrow> bool" where
  "queue_at st q as \<longleftrightarrow> linked (cells st) (front q) as \<and> distinct as \<and>
     rear q = (if as = [] then None else Some (last as)) \<and> qsize q = int (length as) \<and>
     (\<forall>a\<in>set as. a < fresh st)"

fun queue_rep :: "'a qstore \<times> queue \<Rightarrow> 'a option list \<Rightarrow> bool" where
  "queue_rep (st, q) xs \<longleftrightarrow> (\<exists>as. queue_at st q as \<and> xs = elements (cells st) as)"

lemma linked_cong: "(\<And>a. a \<in> set as \<Longrightarrow> c' a = c a) \<Longrightarrow> linked c' p as = linked c p as"
  by (induction as arbitrary: p) (auto split: option.split)

lemma elements_cong: "(\<And>a. a \<in> set as \<Longrightarrow> c' a = c a) \<Longrightarrow> elements c' as = elements c as"
  by (simp add: elements_def)

lemma linked_dom: "linked c p as \<Longrightarrow> a \<in> set as \<Longrightarrow> c a \<noteq> None"
  by (induction as arbitrary: p) (auto split: option.splits)

text \<open>Appending a node behind the last one.\<close>

lemma linked_append:
  assumes "linked c p as" "as \<noteq> []" "distinct as" "n \<notin> set as" "c (last as) = Some rn"
  shows "linked (c(n \<mapsto> \<lparr>element = e, qnext = None\<rparr>, last as \<mapsto> rn\<lparr>qnext := Some n\<rparr>)) p (as @ [n])"
  using assms
proof (induction as arbitrary: p)
  case (Cons a as)
  show ?case
  proof (cases "as = []")
    case False
    then obtain nd where nd: "c a = Some nd" "p = Some a" "linked c (qnext nd) as"
      using Cons.prems(1) by (auto split: option.splits)
    have prems: "distinct as" "n \<notin> set as" "c (last as) = Some rn" using Cons.prems(3-5) False by simp_all
    have "linked (c(n \<mapsto> \<lparr>element = e, qnext = None\<rparr>, last as \<mapsto> rn\<lparr>qnext := Some n\<rparr>)) (qnext nd) (as @ [n])"
      by (rule Cons.IH [OF nd(3) False prems])
    moreover have "last as \<noteq> a" "n \<noteq> a" using Cons.prems(3,4) False last_in_set [OF False] by auto
    then have "(c(n \<mapsto> \<lparr>element = e, qnext = None\<rparr>, last as \<mapsto> rn\<lparr>qnext := Some n\<rparr>)) a = Some nd" using nd(1) by simp
    moreover have "last (a # as) = last as" using False by simp
    ultimately show ?thesis using nd(2) by (simp only: append_Cons linked.simps option.case)
  qed (use Cons.prems in auto)
qed simp

lemma queue_free_linked:
  "linked (cells st) p as \<Longrightarrow> distinct as \<Longrightarrow> queue_free st p = Some (st\<lparr>cells := (cells st) |` (- set as)\<rparr>)"
proof (induction as arbitrary: st p)
  case Nil
  then show ?case by (simp add: queue_free.simps)
next
  case (Cons a as)
  then obtain nd where nd: "cells st a = Some nd" "p = Some a" "linked (cells st) (qnext nd) as"
    by (auto split: option.splits)
  let ?st = "qnode_destroy st (Some a)"
  have "cells ?st b = cells st b" if "b \<in> set as" for b using that Cons.prems(2) by (auto simp: qnode_destroy_def)
  then have "linked (cells ?st) (qnext nd) as" using nd(3) linked_cong [of as "cells ?st" "cells st"] by blast
  from Cons.IH [OF this] have "queue_free ?st (qnext nd) = Some (?st\<lparr>cells := (cells ?st) |` (- set as)\<rparr>)"
    using Cons.prems(2) by simp
  moreover have "(cells ?st) |` (- set as) = (cells st) |` (- set (a # as))"
    by (auto simp: qnode_destroy_def restrict_map_def fun_eq_iff)
  ultimately show ?case using nd by (subst queue_free.simps) (simp add: qnode_destroy_def)
qed

subsection \<open>The operations refine list operations\<close>

lemma add_rep:
  assumes "queue_rep s xs" "length xs < 2 ^ 31 - 1"
  obtains s' where "queue_add s e = Some s'" "queue_rep s' (xs @ [e])"
proof -
  obtain st q where s: "s = (st, q)" by (cases s)
  obtain as where as: "queue_at st q as" "xs = elements (cells st) as" using assms(1) by (auto simp: s)
  let ?n = "fresh st" and ?nd = "\<lparr>element = e, qnext = None\<rparr>"
  have n: "?n \<notin> set as" using as(1) by (auto simp: queue_at_def)
  have size: "s32 (qsize q + 1) = int (length (as @ [?n]))"
    using as assms(2) by (simp add: queue_at_def elements_def in_s32_def)
  show thesis
  proof (cases "as = []")
    case True
    then have q: "front q = None" "rear q = None" using as(1) by (auto simp: queue_at_def)
    let ?st = "st\<lparr>cells := (cells st)(?n \<mapsto> ?nd), fresh := Suc ?n\<rparr>"
    let ?q = "q\<lparr>qsize := s32 (qsize q + 1), rear := Some ?n, front := Some ?n\<rparr>"
    have "queue_at ?st ?q [?n]" using size True by (simp add: queue_at_def)
    moreover have "elements (cells ?st) [?n] = xs @ [e]" using as(2) True by (simp add: elements_def)
    ultimately have "queue_rep (?st, ?q) (xs @ [e])" by (metis queue_rep.simps)
    then show ?thesis using that q by (simp add: s queue_add_def qnode_create_def)
  next
    case False
    let ?r = "last as"
    have "?r \<in> set as" using False by simp
    then have "?r \<noteq> ?n" using n by metis
    with as(1) False have r: "rear q = Some ?r" "?r \<noteq> ?n" by (simp_all add: queue_at_def)
    obtain rn where rn: "cells st ?r = Some rn"
      using linked_dom [of "cells st" "front q" as ?r] as(1) False by (auto simp: queue_at_def)
    let ?c = "(cells st)(?n \<mapsto> ?nd, ?r \<mapsto> rn\<lparr>qnext := Some ?n\<rparr>)"
    let ?st = "st\<lparr>cells := ?c, fresh := Suc ?n\<rparr>" and ?q = "q\<lparr>qsize := s32 (qsize q + 1), rear := Some ?n\<rparr>"
    have "linked ?c (front q) (as @ [?n])" using as(1) False n rn by (intro linked_append) (auto simp: queue_at_def)
    then have "queue_at ?st ?q (as @ [?n])" using as(1) n size False by (auto simp: queue_at_def)
    moreover have "elements ?c (as @ [?n]) = xs @ [e]"
      using as(2) n rn r(2) by (auto simp: elements_def)
    ultimately have "queue_rep (?st, ?q) (xs @ [e])" 
      unfolding queue_rep.simps by (intro exI [of _ "as @ [?n]"] conjI) (simp_all del: fun_upd_apply)
    moreover have "queue_add s e = Some (?st, ?q)"
      using r rn by (simp add: s queue_add_def qnode_create_def Let_def)
    ultimately show ?thesis using that by blast
  qed
qed

lemma remove_rep:
  assumes "queue_rep s (x # xs)" "length (x # xs) < 2 ^ 31"
  obtains s' where "queue_remove s = Some (x, s')" "queue_rep s' xs"
proof -
  obtain st q where s: "s = (st, q)" by (cases s)
  obtain a as where as: "queue_at st q (a # as)" "x = element (the (cells st a))" "xs = elements (cells st) as"
    using assms(1) by (auto simp: s elements_def)
  obtain nd where nd: "cells st a = Some nd" "front q = Some a" "linked (cells st) (qnext nd) as"
    using as(1) by (auto simp: queue_at_def split: option.splits)
  let ?st = "qnode_destroy st (Some a)"
  let ?q = "q\<lparr>qsize := s32 (qsize q - 1), front := qnext nd, rear := if qnext nd = None then None else rear q\<rparr>"
  have same: "cells ?st b = cells st b" if "b \<in> set as" for b using that as(1) by (auto simp: qnode_destroy_def queue_at_def)
  have "qnext nd = None \<longleftrightarrow> as = []" using nd(3) by (cases as) auto
  moreover have "s32 (qsize q - 1) = int (length as)" using as assms(2) by (simp add: queue_at_def elements_def in_s32_def)
  moreover have "fresh ?st = fresh st" by (simp add: qnode_destroy_def)
  ultimately have "queue_at ?st ?q as"
    using as(1) nd(3) linked_cong [OF same] by (simp add: queue_at_def)
  moreover have "xs = elements (cells ?st) as" using as(3) elements_cong [OF same] by simp
  ultimately have "queue_rep (?st, ?q) xs" by auto
  moreover have "queue_remove s = Some (x, ?st, ?q)"
    using nd(1,2) as(2) by (simp add: s queue_remove_def Let_def)
  ultimately show thesis using that by blast
qed

lemma empty_rep: "queue_rep s [] \<Longrightarrow> queue_remove s = Some (None, s)"
  by (cases s) (auto simp: queue_at_def elements_def queue_remove_def)

lemma peek_rep: "queue_rep s xs \<Longrightarrow> queue_peek s = Some (case xs of [] \<Rightarrow> None | x # _ \<Rightarrow> x)"
  by (cases s) (auto simp: queue_at_def elements_def queue_peek_def neq_Nil_conv split: list.splits option.splits)

declare queue_rep.simps [simp del]

subsection \<open>The interface of a queue\<close>

locale fifo =
  fixes rep :: "'s \<Rightarrow> 'a option list \<Rightarrow> bool" and add :: "'s \<Rightarrow> 'a option \<Rightarrow> 's option"
    and rem :: "'s \<Rightarrow> ('a option \<times> 's) option" and bound :: nat
  assumes add: "rep s xs \<Longrightarrow> length xs < bound \<Longrightarrow> \<exists>s'. add s e = Some s' \<and> rep s' (xs @ [e])"
    and rem: "rep s (x # xs) \<Longrightarrow> length xs < bound \<Longrightarrow> \<exists>s'. rem s = Some (x, s') \<and> rep s' xs"
begin

text \<open>Adding a list of elements and then removing as many gives them back in the same order, behind
  what was there before.\<close>

lemma add_all: "rep s xs \<Longrightarrow> length xs + length ys \<le> bound \<Longrightarrow> \<exists>s'. for_each (\<lambda>e s. add s e) ys s = Some s' \<and> rep s' (xs @ ys)"
proof (induction ys arbitrary: s xs)
  case (Cons y ys)
  obtain s1 where s1: "add s y = Some s1" "rep s1 (xs @ [y])" using add [OF Cons.prems(1)] Cons.prems(2) by auto
  from Cons.IH [OF s1(2)] Cons.prems(2) s1(1) show ?case by auto
qed simp

lemma remove_all:
  "rep s (xs @ zs) \<Longrightarrow> length xs + length zs \<le> bound \<Longrightarrow>
   \<exists>s'. for_each (\<lambda>_ (out, s). do { (x, s) \<leftarrow> rem s; Some (out @ [x], s) }) [0..<length xs] (out, s) = Some (out @ xs, s') \<and> rep s' zs"
proof (induction xs arbitrary: s zs rule: rev_induct)
  case (snoc x xs)
  obtain s1 where s1: "for_each (\<lambda>_ (out, s). do { (x, s) \<leftarrow> rem s; Some (out @ [x], s) }) [0..<length xs] (out, s) = Some (out @ xs, s1)"
    "rep s1 (x # zs)" using snoc.IH [of s "x # zs"] snoc.prems by auto
  obtain s2 where "rem s1 = Some (x, s2)" "rep s2 zs" using rem [OF s1(2)] snoc.prems(2) by auto
  then show ?case using s1(1) by (simp add: for_each_upt_Suc del: upt_Suc)
qed simp

end

interpretation lq: fifo "queue_rep :: 'a qstore \<times> queue \<Rightarrow> 'a option list \<Rightarrow> bool" queue_add queue_remove "2 ^ 31 - 1"
proof unfold_locales
  show "\<exists>s'. queue_add s e = Some s' \<and> queue_rep s' (xs @ [e])" if "queue_rep s xs" "length xs < 2 ^ 31 - 1"
    for s :: "'a qstore \<times> queue" and xs e using add_rep [OF that] by metis
  show "\<exists>s'. queue_remove s = Some (x, s') \<and> queue_rep s' xs" if "queue_rep s (x # xs)" "length xs < 2 ^ 31 - 1"
    for s :: "'a qstore \<times> queue" and x xs
  proof -
    have "length (x # xs) < 2 ^ 31" using that(2) by simp
    from remove_rep [OF that(1) this] show ?thesis by metis
  qed
qed

subsection \<open>Properties of queues\<close>

text \<open>C31: elements leave a queue in the order they entered it. Adding any list of elements to a queue and
  then removing the elements that were there before and those added never fails, returns exactly
  these elements in order, and leaves an empty queue.\<close>

theorem queue_fifo:
  assumes "queue_rep s xs" "length xs + length ys < 2 ^ 31"
  shows "\<exists>s1 s2. for_each (\<lambda>e s. queue_add s e) ys s = Some s1 \<and> queue_rep s1 (xs @ ys) \<and>
    for_each (\<lambda>_ (out, s). do { (x, s) \<leftarrow> queue_remove s; Some (out @ [x], s) }) [0..<length (xs @ ys)] ([], s1) = Some (xs @ ys, s2) \<and>
    queue_rep s2 []"
proof -
  obtain s1 where s1: "for_each (\<lambda>e s. queue_add s e) ys s = Some s1" "queue_rep s1 (xs @ ys)"
    using lq.add_all [OF assms(1), of ys] assms(2) by auto
  moreover obtain s2 where "for_each (\<lambda>_ (out, s). do { (x, s) \<leftarrow> queue_remove s; Some (out @ [x], s) })
      [0..<length (xs @ ys)] ([], s1) = Some ([] @ xs @ ys, s2)" "queue_rep s2 []"
    using lq.remove_all [of s1 "xs @ ys" "[]" "[]"] s1(2) assms(2) by auto
  ultimately show ?thesis by (intro exI [of _ s1] exI [of _ s2]) simp
qed

lemma create_rep: "queue_rep (\<lparr>cells = Map.empty, fresh = 0\<rparr>, queue_create) []"
  by (simp add: queue_rep.simps queue_at_def queue_create_def elements_def)

theorem queue_fifo_witness:
  "\<exists>s1 s2. for_each (\<lambda>e s. queue_add s e) [Some 1, Some (2::nat)] (\<lparr>cells = Map.empty, fresh = 0\<rparr>, queue_create) = Some s1 \<and>
    queue_rep s1 ([] @ [Some 1, Some 2]) \<and>
    for_each (\<lambda>_ (out, s). do { (x, s) \<leftarrow> queue_remove s; Some (out @ [x], s) })
      [0..<length ([] @ [Some 1, Some (2::nat)])] ([], s1) = Some ([] @ [Some 1, Some 2], s2) \<and> queue_rep s2 []"
proof (rule queue_fifo [OF create_rep])
  show "length ([] :: nat option list) + length [Some 1, Some (2::nat)] < 2 ^ 31" by simp
qed

text \<open>Destroying a queue ends and frees exactly the nodes of the queue: no node of it is left in the
  store and every other node is untouched.\<close>

theorem queue_destroy_frees:
  assumes "queue_at st q as"
  shows "queue_destroy st (Some q) = Some (st\<lparr>cells := (cells st) |` (- set as)\<rparr>)"
  using assms by (simp add: queue_destroy_def queue_at_def queue_free_linked)

theorem queue_destroy_frees_witness:
  "queue_destroy \<lparr>cells = [0 \<mapsto> \<lparr>element = Some True, qnext = None\<rparr>], fresh = 1\<rparr> (Some \<lparr>front = Some 0, rear = Some 0, qsize = 1\<rparr>)
    = Some \<lparr>cells = Map.empty, fresh = 1\<rparr>"
  using queue_destroy_frees [of "\<lparr>cells = [0 \<mapsto> \<lparr>element = Some True, qnext = None\<rparr>], fresh = 1\<rparr>"
      "\<lparr>front = Some 0, rear = Some 0, qsize = 1\<rparr>" "[0]"]
  by (simp add: queue_at_def restrict_map_def fun_eq_iff)

end
