(* ===== verification/Output.thy ===== *)
theory Output
  imports Parser Hashset Matrix Queue
begin

section \<open>Printing (utils/printhelper.c and the containers)\<close>

text \<open>
  The standard output is a string that every printing function extends; a function that prints is a
  function from the output before to the output after, and \<^term>\<open>None\<close> where it reads outside an array or
  through a null pointer. \<open>printf\<close> with \<open>%d\<close> and \<open>%f\<close> uses the decimal notations of theory \<open>Cstring\<close>. A
  function that is passed to print the elements of a container is an argument, \<^term>\<open>None\<close> for a null pointer.

  The theory models \<open>printhelper.c\<close> and the printing functions of the containers. It shows what they print,
  that they only append to the output, and that a vector of integers or flags printed by
  \<open>printhelper.c\<close> is a key/value pair which \<open>parser.c\<close> reads back.
\<close>

type_synonym stdout = string

definition printf :: "string \<Rightarrow> stdout \<Rightarrow> stdout option" where
  "printf s out = Some (out @ s)"

abbreviation newline :: string where
  "newline \<equiv> [CHR 0x0A]"

text \<open>The loop over an array that prints \<open>sep\<close> between two elements; \<open>item i\<close> prints the element at \<open>i\<close>.\<close>

definition print_items :: "string \<Rightarrow> nat \<Rightarrow> (nat \<Rightarrow> stdout \<Rightarrow> stdout option) \<Rightarrow> stdout \<Rightarrow> stdout option" where
  "print_items sep n item =
     for_each (\<lambda>i out. do { out \<leftarrow> item i out; if i + 1 < n then printf sep out else Some out }) [0..<n]"

subsection \<open>Vectors and matrices (printhelper.c)\<close>

definition print_vector :: "('a \<Rightarrow> string option) \<Rightarrow> string option \<Rightarrow> 'a list option \<Rightarrow> nat \<Rightarrow> stdout \<Rightarrow> stdout option" where
  "print_vector fmt name x len out =
     (case (name, x) of
        (Some name, Some x) \<Rightarrow> do {
          out \<leftarrow> printf (name @ ''=['') out;
          out \<leftarrow> print_items '','' len (\<lambda>i out. do { v \<leftarrow> rd x i; s \<leftarrow> fmt v; printf s out }) out;
          printf '']'' out }
      | _ \<Rightarrow> Some out)"

definition printhelper_printvectorint :: "string option \<Rightarrow> int list option \<Rightarrow> nat \<Rightarrow> stdout \<Rightarrow> stdout option" where
  "printhelper_printvectorint = print_vector (\<lambda>v. Some (int_string v))"

definition printhelper_printvectorfloat :: "string option \<Rightarrow> real list option \<Rightarrow> nat \<Rightarrow> stdout \<Rightarrow> stdout option" where
  "printhelper_printvectorfloat = print_vector (\<lambda>v. Some (float_string v))"

definition printhelper_printvectorstring :: "string option \<Rightarrow> string option list option \<Rightarrow> nat \<Rightarrow> stdout \<Rightarrow> stdout option" where
  "printhelper_printvectorstring = print_vector (\<lambda>v. v)"

definition printhelper_printvectorbool :: "string option \<Rightarrow> bool list option \<Rightarrow> nat \<Rightarrow> stdout \<Rightarrow> stdout option" where
  "printhelper_printvectorbool = print_vector (\<lambda>v. Some (int_string (of_bool v)))"

text \<open>A row of a matrix ends the line when it has more than ten elements.\<close>

definition print_matrix :: "('a \<Rightarrow> string) \<Rightarrow> string option \<Rightarrow> 'a list list option \<Rightarrow> nat \<Rightarrow> nat \<Rightarrow> stdout \<Rightarrow> stdout option" where
  "print_matrix fmt name p rows cols out =
     (case (name, p) of
        (Some name, Some p) \<Rightarrow> do {
          out \<leftarrow> printf (name @ ''=[ '') out;
          out \<leftarrow> for_each (\<lambda>i out. do {
            out \<leftarrow> printf ''[ '' out;
            out \<leftarrow> for_each (\<lambda>j out. do { row \<leftarrow> rd p i; v \<leftarrow> rd row j; printf (fmt v) out }) [0..<cols] out;
            out \<leftarrow> printf ''] '' out;
            if cols > 10 then printf newline out else Some out }) [0..<rows] out;
          printf '']'' out }
      | _ \<Rightarrow> Some out)"

definition printhelper_printmatrixfloat :: "string option \<Rightarrow> real list list option \<Rightarrow> nat \<Rightarrow> nat \<Rightarrow> stdout \<Rightarrow> stdout option" where
  "printhelper_printmatrixfloat = print_matrix (\<lambda>v. float_string v @ '' '')"

definition printhelper_printmatrixint :: "string option \<Rightarrow> int list list option \<Rightarrow> nat \<Rightarrow> nat \<Rightarrow> stdout \<Rightarrow> stdout option" where
  "printhelper_printmatrixint = print_matrix (\<lambda>v. int_string v @ '' '')"

definition printhelper_printmatrixstring :: "string option \<Rightarrow> string option list list option \<Rightarrow> nat \<Rightarrow> nat \<Rightarrow> stdout \<Rightarrow> stdout option" where
  "printhelper_printmatrixstring = print_matrix (\<lambda>v. case v of Some s \<Rightarrow> s @ '' '' | None \<Rightarrow> [])"

definition printhelper_printmatrixbool :: "string option \<Rightarrow> bool list list option \<Rightarrow> nat \<Rightarrow> nat \<Rightarrow> stdout \<Rightarrow> stdout option" where
  "printhelper_printmatrixbool = print_matrix (\<lambda>v. int_string (of_bool v) @ '' '')"

text \<open>The functions for single values take a pointer.\<close>

definition printhelper_printint :: "int option \<Rightarrow> stdout \<Rightarrow> stdout option" where
  "printhelper_printint p out = do { v \<leftarrow> p; printf (int_string v) out }"

definition printhelper_printfloat :: "real option \<Rightarrow> stdout \<Rightarrow> stdout option" where
  "printhelper_printfloat p out = do { v \<leftarrow> p; printf (float_string v) out }"

definition printhelper_printstring :: "string option option \<Rightarrow> stdout \<Rightarrow> stdout option" where
  "printhelper_printstring p out = do { s \<leftarrow> p; s \<leftarrow> s; printf s out }"

definition printhelper_printbool :: "bool option \<Rightarrow> stdout \<Rightarrow> stdout option" where
  "printhelper_printbool p out = do { v \<leftarrow> p; printf (int_string (of_bool v)) out }"

subsection \<open>Containers\<close>

type_synonym 'a printer = "'a \<Rightarrow> stdout \<Rightarrow> stdout option"

definition vector_print :: "'a vector option \<Rightarrow> string option \<Rightarrow> 'a printer option \<Rightarrow> stdout \<Rightarrow> stdout option" where
  "vector_print v name element_print out =
     (case (name, v, element_print) of
        (Some name, Some v, Some pr) \<Rightarrow> do {
          out \<leftarrow> printf (name @ '':'' @ newline) out;
          for_each (\<lambda>i out. case vector_get v (int i) of Some ei \<Rightarrow> pr ei out | None \<Rightarrow> Some out)
            [0..<vector_getsize v] out }
      | _ \<Rightarrow> Some out)"

definition vector_printbrief :: "'a vector option \<Rightarrow> 'a printer option \<Rightarrow> stdout \<Rightarrow> stdout option" where
  "vector_printbrief v element_print out =
     (case (v, element_print) of
        (Some v, Some pr) \<Rightarrow>
          let n = vector_getsize v
          in for_each (\<lambda>i out. case vector_get v (int i) of
                 Some ei \<Rightarrow> do { out \<leftarrow> pr ei out; if i + 1 < n then printf '','' out else Some out }
               | None \<Rightarrow> Some out) [0..<n] out
      | _ \<Rightarrow> Some out)"

text \<open>The loop over the table, with the number of entries printed so far.\<close>

definition print_entries :: "string \<Rightarrow> 'a hashmap \<Rightarrow> 'a printer \<Rightarrow> stdout \<Rightarrow> stdout option" where
  "print_entries sep hm data_print out =
     do { (out, num) \<leftarrow> for_each (\<lambda>i (out, num).
            do { e \<leftarrow> rd (table hm) i;
                 if is_active e
                 then (case hdata e of
                         None \<Rightarrow> Some (out, num)
                       | Some d \<Rightarrow> do {
                           k \<leftarrow> keystring e;
                           out \<leftarrow> printf (k @ ''=>'') out;
                           out \<leftarrow> data_print d out;
                           out \<leftarrow> (if num + 1 < hcount hm then printf sep out else Some out);
                           Some (out, num + 1) })
                 else Some (out, num) }) [0..<hsize hm] (out, 0);
          Some out }"

definition hashmap_print :: "'a hashmap \<Rightarrow> 'a printer \<Rightarrow> stdout \<Rightarrow> stdout option" where
  "hashmap_print hm data_print out =
     do { out \<leftarrow> printf ''[ '' out;
          out \<leftarrow> (if hcount hm \<noteq> 0 then print_entries '', '' hm data_print out else Some out);
          printf '' ]'' out }"

definition hashmap_printbrief :: "'a hashmap \<Rightarrow> 'a printer \<Rightarrow> stdout \<Rightarrow> stdout option" where
  "hashmap_printbrief hm data_print out =
     (if hcount hm \<noteq> 0 then print_entries '';'' hm data_print out else Some out)"

definition hashset_print :: "hashset \<Rightarrow> stdout \<Rightarrow> stdout option" where
  "hashset_print s out =
     do { out \<leftarrow> printf ''{'' out;
          let elements = hashset_getelements s;
          out \<leftarrow> print_items '', '' (vector_getsize elements)
            (\<lambda>i out. do { elem \<leftarrow> vector_get elements (int i); printf elem out }) out;
          printf ''}'' out }"

text \<open>The map of a \<open>maparray\<close> points into the array of values.\<close>

definition maparray_print :: "'a maparray \<Rightarrow> 'a printer \<Rightarrow> stdout \<Rightarrow> stdout option" where
  "maparray_print ma value_print =
     hashmap_print (ma_map ma) (\<lambda>i out. do { v \<leftarrow> rd (valuearray ma) i; value_print v out })"

definition integer_print :: "integer \<Rightarrow> stdout \<Rightarrow> stdout option" where
  "integer_print i = printf (int_string (ivalue i))"

definition array_print :: "array \<Rightarrow> stdout \<Rightarrow> stdout option" where
  "array_print a out =
     do { out \<leftarrow> printf ''['' out;
          out \<leftarrow> print_items '', '' (a_size a) (\<lambda>i out. do { v \<leftarrow> rd (a_x a) i; printf (float_string v) out }) out;
          printf '']'' out }"

definition matrix_print :: "matrix \<Rightarrow> stdout \<Rightarrow> stdout option" where
  "matrix_print m out =
     do { out \<leftarrow> printf ''['' out;
          out \<leftarrow> for_each (\<lambda>i out. do {
            out \<leftarrow> printf ''['' out;
            out \<leftarrow> print_items '', '' (ncols m) (\<lambda>j out. do { v \<leftarrow> rd2 (m_x m) i j; printf (float_string v) out }) out;
            printf '']'' out }) [0..<nrows m] out;
          printf '']'' out }"

text \<open>The walk along the links of a queue; it ends only if the list does.\<close>

partial_function (option) print_nodes :: "'a qstore \<Rightarrow> 'a option printer \<Rightarrow> nat option \<Rightarrow> stdout \<Rightarrow> stdout option" where
  "print_nodes st pr p out =
     (case p of None \<Rightarrow> Some out
      | Some a \<Rightarrow> do { nd \<leftarrow> cells st a; out \<leftarrow> pr (element nd) out; out \<leftarrow> printf '' '' out; print_nodes st pr (qnext nd) out })"

declare print_nodes.simps [code]

definition queue_print :: "'a qstore \<Rightarrow> queue option \<Rightarrow> 'a option printer option \<Rightarrow> stdout \<Rightarrow> stdout option" where
  "queue_print st q element_print out =
     (case (q, element_print) of
        (Some q, Some pr) \<Rightarrow> do {
          out \<leftarrow> printf ''{ '' out;
          out \<leftarrow> print_nodes st pr (front q) out;
          printf ''}'' out }
      | _ \<Rightarrow> Some out)"

subsection \<open>What is printed\<close>

text \<open>Items separated by a string; \<open>joined\<close> of theory \<open>Parser\<close> is the case of a comma.\<close>

fun separated :: "string \<Rightarrow> string list \<Rightarrow> string" where
  "separated sep [] = []"
| "separated sep [w] = w"
| "separated sep (w # ws) = w @ sep @ separated sep ws"

lemma printf_bind [simp]: "printf s out \<bind> f = f (out @ s)"
  by (simp add: printf_def)

lemma separated_snoc: "ws \<noteq> [] \<Longrightarrow> separated sep (ws @ [w]) = separated sep ws @ sep @ w"
  by (induction sep ws rule: separated.induct) auto

lemma separated_Cons: "separated sep (w # ws) = w @ (if ws = [] then [] else sep @ separated sep ws)"
  by (cases ws) auto

lemma separated_joined: "separated '','' ws = joined ws"
proof (cases ws rule: rev_cases)
  case (snoc us w)
  have "separated '','' (us @ [w]) = concat (map (\<lambda>w. w @ '','') us) @ w"
    by (induction us) (auto simp: separated_Cons)
  then show ?thesis by (simp add: snoc joined_def)
qed (simp add: joined_def)

lemma print_items_eq:
  assumes "\<And>i out. i < length ws \<Longrightarrow> item i out = Some (out @ ws ! i)"
  shows "print_items sep (length ws) item out = Some (out @ separated sep ws)"
proof -
  let ?f = "\<lambda>i out. do { out \<leftarrow> item i out; if i + 1 < length ws then printf sep out else Some out }"
  have prefix: "for_each ?f [0..<n] out = Some (out @ concat (map (\<lambda>w. w @ sep) (take n ws)))" if "n < length ws" for n
    using that
  proof (induction n)
    case (Suc n)
    then show ?case using assms [of n]
      by (simp add: for_each_upt_Suc take_Suc_conv_app_nth printf_def del: upt_Suc)
  qed simp
  show ?thesis
  proof (cases ws rule: rev_cases)
    case (snoc us w)
    have "for_each ?f [0..<Suc (length us)] out = Some (out @ concat (map (\<lambda>w. w @ sep) us) @ w)"
      using prefix [of "length us"] assms [of "length us"] by (simp add: for_each_upt_Suc snoc del: upt_Suc)
    moreover have "separated sep (us @ [w]) = concat (map (\<lambda>w. w @ sep) us) @ w"
      by (induction us) (auto simp: separated_Cons)
    ultimately show ?thesis by (simp add: print_items_def snoc)
  qed (simp add: print_items_def)
qed

lemma print_vector_eq:
  assumes "\<And>v. v \<in> set xs \<Longrightarrow> fmt v = Some (f v)"
  shows "print_vector fmt (Some name) (Some xs) (length xs) out = Some (out @ name @ ''=['' @ joined (map f xs) @ '']'')"
proof -
  have "print_items '','' (length (map f xs)) (\<lambda>i out. do { v \<leftarrow> rd xs i; s \<leftarrow> fmt v; printf s out }) out'
      = Some (out' @ separated '','' (map f xs))" for out'
    using assms by (intro print_items_eq) (simp add: printf_def)
  then show ?thesis by (simp add: print_vector_def separated_joined printf_def)
qed

lemma print_vector_null [simp]:
  "print_vector fmt None x n out = Some out" "print_vector fmt name None n out = Some out"
  by (simp_all add: print_vector_def split: option.split)

lemma for_each_out:
  "(\<And>x out. x \<in> set xs \<Longrightarrow> pr x out = Some (out @ f x)) \<Longrightarrow> for_each pr xs out = Some (out @ concat (map f xs))"
  by (induction xs arbitrary: out) auto

text \<open>The entries of a table, in the order of the slots.\<close>

lemma print_entries_eq:
  assumes ok: "hm_ok hm" and pr: "\<And>k d out. (k, d) \<in> set (hm_entries hm) \<Longrightarrow> pr d out = Some (out @ f d)"
  shows "print_entries sep hm pr out = Some (out @ separated sep (map (\<lambda>(k, d). k @ ''=>'' @ f d) (hm_entries hm)))"
proof -
  define body where "body = (\<lambda>i (out, num). do { e \<leftarrow> rd (table hm) i;
     if is_active e
     then (case hdata e of None \<Rightarrow> Some (out, num)
           | Some d \<Rightarrow> do { k \<leftarrow> keystring e; out \<leftarrow> printf (k @ ''=>'') out; out \<leftarrow> pr d out;
               out \<leftarrow> (if num + 1 < hcount hm then printf sep out else Some out); Some (out, num + 1) })
     else Some (out, num) })"
  define word where "word = (\<lambda>i. the (keystring (table hm ! i)) @ ''=>'' @ f (the (hdata (table hm ! i))))"
  have len: "length (table hm) = hsize hm" using hm_okD(1) [OF ok] .
  have active: "body i (out, num) = Some (out @ word i @ (if num + 1 < hcount hm then sep else []), num + 1)"
    if i: "i \<in> set (hm_slots hm)" for i out num
  proof -
    have lt: "i < hsize hm" "is_active (table hm ! i)" using i by (simp_all add: hm_slots_def)
    obtain k d where e: "keystring (table hm ! i) = Some k" "hdata (table hm ! i) = Some d" using active_slot [OF ok lt] by metis
    then have "(k, d) \<in> set (hm_entries hm)" using i by (force simp: hm_entries_def)
    then show ?thesis using lt e len pr by (simp add: body_def word_def printf_def)
  qed
  have loop: "for_each body js (out, num) = Some (out @ separated sep (map word js), hcount hm)"
    if "set js \<subseteq> set (hm_slots hm)" "num + length js = hcount hm" for js num out
    using that
  proof (induction js arbitrary: out num)
    case (Cons j js)
    have "num + 1 < hcount hm \<longleftrightarrow> js \<noteq> []" using Cons.prems(2) by (cases js) auto
    then show ?case using Cons by (simp add: active separated_Cons)
  qed simp
  have "for_each body [0..<hsize hm] (out, 0) = for_each body (hm_slots hm) (out, 0)"
    unfolding hm_slots_def by (rule for_each_filter) (use len in \<open>auto simp: body_def\<close>)
  also have "\<dots> = Some (out @ separated sep (map word (hm_slots hm)), hcount hm)"
    using hm_okD(3) [OF ok] by (intro loop) simp_all
  finally show ?thesis by (simp add: print_entries_def body_def word_def hm_entries_def comp_def)
qed

lemma hashmap_print_eq:
  assumes "hm_ok hm" "\<And>k d out. (k, d) \<in> set (hm_entries hm) \<Longrightarrow> pr d out = Some (out @ f d)"
  shows "hashmap_print hm pr out
    = Some (out @ ''[ '' @ separated '', '' (map (\<lambda>(k, d). k @ ''=>'' @ f d) (hm_entries hm)) @ '' ]'')"
proof (cases "hcount hm = 0")
  case True
  then have "hm_entries hm = []" using hm_okD(3) [OF assms(1)] by (simp add: hm_entries_def)
  then show ?thesis using True by (simp add: hashmap_print_def printf_def)
next
  case False
  then show ?thesis using print_entries_eq [OF assms] by (simp add: hashmap_print_def printf_def)
qed

text \<open>The walk along a queue ends and visits the elements from the front to the rear.\<close>

lemma print_nodes_linked:
  assumes "linked (cells st) p as" "\<And>e out. e \<in> set (elements (cells st) as) \<Longrightarrow> pr e out = Some (out @ f e)"
  shows "print_nodes st pr p out = Some (out @ concat (map (\<lambda>e. f e @ '' '') (elements (cells st) as)))"
  using assms
proof (induction as arbitrary: p out)
  case Nil
  then show ?case by (simp add: print_nodes.simps elements_def)
next
  case (Cons a as)
  then obtain nd where nd: "cells st a = Some nd" "p = Some a" "linked (cells st) (qnext nd) as" by (auto split: option.splits)
  have "print_nodes st pr (qnext nd) (out @ f (element nd) @ '' '') =
      Some ((out @ f (element nd) @ '' '') @ concat (map (\<lambda>e. f e @ '' '') (elements (cells st) as)))"
    by (rule Cons.IH [OF nd(3)]) (use Cons.prems(2) in \<open>simp add: elements_def\<close>)
  then show ?case using nd Cons.prems(2) by (subst print_nodes.simps) (simp add: elements_def)
qed

subsection \<open>Reading back\<close>

lemma int_word: "is_word (int_string v)"
  using int_string_chars(1) [of _ v] by (auto simp: is_word_def BRACKETS_def int_string_def)

lemma joined_chars: "c \<in> set (joined ws) \<Longrightarrow> c = CHR '','' \<or> (\<exists>w\<in>set ws. c \<in> set w)"
  by (cases ws rule: rev_cases) (auto simp: joined_def split: if_splits)

text \<open>A printed vector, whose elements print as words without separators, is the value of a pair.\<close>

lemma printed_pair:
  assumes key: "CHR ''='' \<notin> set name" "name = [] \<or> hd name \<noteq> CHR '' ''" "length name < ks"
    and ws: "\<And>v c. v \<in> set xs \<Longrightarrow> c \<in> set (f v) \<Longrightarrow> c \<notin> set '';}'' \<and> c \<noteq> CHR 0x0A"
    and vs: "length (joined (map f xs)) + 2 < vs"
  shows "parser_nextkeyvaluepair ks vs (name @ ''=['' @ joined (map f xs) @ '']'' @ '';'' @ rest)
    = Some (Some rest, name, ''['' @ joined (map f xs) @ '']'', Some True)"
proof -
  let ?v = "''['' @ joined (map f xs) @ '']''"
  have "\<forall>c\<in>set ?v. c \<notin> set '';}'' \<and> c \<noteq> CHR 0x0A" using joined_chars [of _ "map f xs"] ws by fastforce
  then have "parser_nextkeyvaluepair ks vs (name @ ''='' @ ?v @ '';'' @ rest) = Some (Some rest, name, ?v, Some True)"
    by (rule next_singleton [OF key]) (use vs in auto)
  then show ?thesis by simp
qed

lemma decode_printed:
  assumes words: "\<And>v. v \<in> set xs \<Longrightarrow> is_word (f v)" and put: "\<And>a v. v \<in> set xs \<Longrightarrow> put a (f v) = v"
  shows "decode_rows put z (Some (''['' @ joined (map f xs) @ '']'')) [length xs] = Some [xs]"
proof -
  have toks: "tokens (''['' @ joined (map f xs) @ '']'') BRACKETS = map f xs"
    using tokens_row [of "map f xs" "[]"] words by simp
  show ?thesis
  proof (cases "xs = []")
    case False
    have "fill put (replicate (length [xs]) (length xs)) (concat (map (map f) (drop 0 [xs]))) 0 0 [replicate (length xs) z]
        = Some (take 0 [replicate (length xs) z] @ drop 0 [xs])"
      by (rule fill_rows) (use False put in auto)
    then show ?thesis using toks by (simp add: decode_rows_def)
  qed (use toks in \<open>simp add: decode_rows_def\<close>)
qed

lemma decode_printed_ints:
  "\<forall>v\<in>set xs. in_s32 v \<Longrightarrow> parser_decode_intarray (Some (''['' @ joined (map int_string xs) @ '']'')) 1 (length xs) = Some [xs]"
  using decode_printed [of xs int_string "\<lambda>a tok. case scan_int tok of None \<Rightarrow> a | Some v \<Rightarrow> v" 0] int_word
  by (simp add: parser_decode_intarray_def scan_int_string)

lemma decode_printed_bools:
  "parser_decode_boolarray (Some (''['' @ joined (map (\<lambda>b. int_string (of_bool b)) xs) @ '']'')) 1 (length xs) = Some [xs]"
proof -
  have "parser_decode_bool (int_string (of_bool b)) = b" for b
    by (cases b) (simp_all add: parser_decode_bool_def strcmp_eq_0 int_string_def nat_string.simps digit_char_def)
  then show ?thesis
    using decode_printed [of xs "\<lambda>b. int_string (of_bool b)" "\<lambda>_ tok. parser_decode_bool tok" False] int_word
    by (simp add: parser_decode_boolarray_def)
qed

end
