(* ===== verification/Configuration.thy ===== *)
theory Configuration
  imports Parser Hashmap Evaluator
begin

section \<open>Configuration files (replay/properties.c, replay/reader.c)\<close>

text \<open>
  A properties object is a hash map filled from the lines \<open>key = value\<close> of a file; the reader takes the
  two policy parameters from it, and \<open>evaluator_createfromfile\<close> builds an evaluator with them. The file
  is an argument: its contents, or \<^term>\<open>None\<close> when it cannot be opened. Lines, keys and values are
  read into buffers of fixed size; a key that does not fit overruns its buffer, which is \<^term>\<open>None\<close>.

  The theory shows that reading a file ends and yields exactly the settings of the file, the last one
  winning, that comments and empty lines are ignored, which parameters the evaluator gets, that it
  falls back to the defaults without a file, and that a long key overruns the buffer.
\<close>

definition PROP_MAX_LINE_LENGTH :: nat where "PROP_MAX_LINE_LENGTH = 4096"

definition PROP_MAX_KEY_LENGTH :: nat where "PROP_MAX_KEY_LENGTH = 64"

definition PROP_MAX_VALUE_LENGTH :: nat where "PROP_MAX_VALUE_LENGTH = 4096"

definition PROP_COMMENT_LINE :: char where "PROP_COMMENT_LINE = CHR ''#''"

subsection \<open>Properties\<close>

record properties =
  pmap :: "string hashmap"

definition properties_create :: "rng \<Rightarrow> (properties \<times> rng) option" where
  "properties_create r = do { (m, r) \<leftarrow> hashmap_create 0 r; Some (\<lparr>pmap = m\<rparr>, r) }"

text \<open>\<open>fgets\<close> reads up to a newline, the end of the file, or \<open>n - 1\<close> characters.\<close>

definition fgets :: "nat \<Rightarrow> string \<Rightarrow> (string \<times> string) option" where
  "fgets n s =
     (if s = [] then None
      else let l = takeWhile (\<lambda>c. c \<noteq> CHR 0x0A) s;
               line = take (n - 1) (if length l < length s then l @ [CHR 0x0A] else l)
           in Some (line, drop (length line) s))"

text \<open>\<open>strcpy\<close> into a buffer of \<open>n\<close> characters.\<close>

definition strcpy :: "nat \<Rightarrow> string \<Rightarrow> string option" where
  "strcpy n s = (if length s < n then Some s else None)"

text \<open>One round of the loop of \<open>properties_readfromfile\<close>.\<close>

definition read_line :: "string \<Rightarrow> string hashmap \<Rightarrow> rng \<Rightarrow> (string hashmap \<times> rng) option" where
  "read_line s m r =
     (if s \<noteq> [] \<and> (hd s = PROP_COMMENT_LINE \<or> hd s = CHR 0x0A) then Some (m, r)
      else (case strchr s (CHR ''='') of
              None \<Rightarrow> Some (m, r)
            | Some eq \<Rightarrow> do {
                k \<leftarrow> strcpy PROP_MAX_KEY_LENGTH (take (length s - length eq) s);
                let k = takeWhile (\<lambda>c. c \<noteq> CHR '' '') k;
                let firstvalue = dropWhile (\<lambda>c. c = CHR '' '') (tl eq);
                v \<leftarrow> strcpy PROP_MAX_VALUE_LENGTH firstvalue;
                let v = takeWhile (\<lambda>c. c \<noteq> CHR 0x0A) v;
                hashmap_insert m (Some v) k r }))"

lemma fgets_shorter: "fgets PROP_MAX_LINE_LENGTH s = Some (line, rest) \<Longrightarrow> length rest < length s"
  by (cases s) (auto simp: fgets_def Let_def PROP_MAX_LINE_LENGTH_def split: if_splits)

function read_lines :: "string \<Rightarrow> string hashmap \<Rightarrow> rng \<Rightarrow> (string hashmap \<times> rng) option" where
  "read_lines s m r =
     (case fgets PROP_MAX_LINE_LENGTH s of
        None \<Rightarrow> Some (m, r)
      | Some (line, rest) \<Rightarrow> do { (m, r) \<leftarrow> read_line line m r; read_lines rest m r })"
  by pat_completeness auto
termination
  by (relation "measure (\<lambda>(s, _). length s)") (auto dest: fgets_shorter)

declare read_lines.simps [simp del]

definition properties_readfromfile :: "properties \<Rightarrow> string option \<Rightarrow> rng \<Rightarrow> (bool \<times> properties \<times> rng) option" where
  "properties_readfromfile p file r =
     (case file of None \<Rightarrow> Some (False, p, r)
      | Some s \<Rightarrow> do { (m, r) \<leftarrow> read_lines s (pmap p) r; Some (True, p\<lparr>pmap := m\<rparr>, r) })"

text \<open>The result \<open>true\<close> with a value copied out is \<open>Some v\<close>.\<close>

definition properties_get :: "properties \<Rightarrow> string \<Rightarrow> string option" where
  "properties_get p key = hashmap_get (pmap p) key"

definition properties_getkeys :: "properties \<Rightarrow> string vector" where
  "properties_getkeys p = hashmap_getkeys (pmap p)"

definition properties_clear :: "properties \<Rightarrow> rng \<Rightarrow> (properties \<times> rng) option" where
  "properties_clear p r = do { (m, r) \<leftarrow> hashmap_create 0 r; Some (p\<lparr>pmap := m\<rparr>, r) }"

subsection \<open>The reader\<close>

record reader =
  rd_p :: properties
  rd_policyresourceindex :: int
  rd_policyobjective :: objective_type

definition reader_create :: "string option \<Rightarrow> rng \<Rightarrow> (reader option \<times> rng) option" where
  "reader_create file r =
     do { (p, r) \<leftarrow> properties_create r;
          (isread, p, r) \<leftarrow> properties_readfromfile p file r;
          if \<not> isread then Some (None, r)
          else do {
            let index = (case properties_get p ''policyResourceIndex'' of Some v \<Rightarrow> parser_decode_int (Some v) | None \<Rightarrow> 0);
            let objtype = (case properties_get p ''policyObjective'' of Some v \<Rightarrow> defs_objtypeFromstring (Some v) | None \<Rightarrow> A_BINPACK);
            Some (Some \<lparr>rd_p = p, rd_policyresourceindex = index, rd_policyobjective = objtype\<rparr>, r) } }"

definition reader_getpolicyresourceindex :: "reader \<Rightarrow> int" where
  "reader_getpolicyresourceindex r = rd_policyresourceindex r"

definition reader_getpolicyobjective :: "reader \<Rightarrow> objective_type" where
  "reader_getpolicyobjective r = rd_policyobjective r"

definition reader_getproperty :: "reader \<Rightarrow> string \<Rightarrow> string option" where
  "reader_getproperty r key = properties_get (rd_p r) key"

definition evaluator_createfromfile :: "mem \<Rightarrow> string option \<Rightarrow> (evaluator \<times> world) option" where
  "evaluator_createfromfile m file =
     do { (rdr, r) \<leftarrow> reader_create file (h_rng m);
          let (index, obj) = (case rdr of
                Some c \<Rightarrow> (reader_getpolicyresourceindex c, reader_getpolicyobjective c)
              | None \<Rightarrow> (0, A_BINPACK));
          evaluator_create (m\<lparr>h_rng := r\<rparr>) index obj }"

subsection \<open>Configuration files as text\<close>

text \<open>The abstract syntax of a file and how it is written.\<close>

datatype cfg_item = Note string | Blank | Setting string string

fun item_text :: "cfg_item \<Rightarrow> string" where
  "item_text (Note s) = ''#'' @ s @ [CHR 0x0A]"
| "item_text Blank = [CHR 0x0A]"
| "item_text (Setting k v) = k @ '' = '' @ v @ [CHR 0x0A]"

fun item_ok :: "cfg_item \<Rightarrow> bool" where
  "item_ok (Note s) \<longleftrightarrow> CHR 0x0A \<notin> set s \<and> length s < 4094"
| "item_ok Blank \<longleftrightarrow> True"
| "item_ok (Setting k v) \<longleftrightarrow> k \<noteq> [] \<and> hd k \<noteq> CHR ''#'' \<and> set k \<inter> {CHR ''='', CHR '' '', CHR 0x0A} = {} \<and> length k < 63 \<and>
     CHR 0x0A \<notin> set v \<and> (v = [] \<or> hd v \<noteq> CHR '' '') \<and> length v < 4000"

fun item_pairs :: "cfg_item \<Rightarrow> (string \<times> string) list" where
  "item_pairs (Setting k v) = [(k, v)]"
| "item_pairs _ = []"

definition cfg_text :: "cfg_item list \<Rightarrow> string" where
  "cfg_text items = concat (map item_text items)"

definition cfg_pairs :: "cfg_item list \<Rightarrow> (string \<times> string) list" where
  "cfg_pairs items = concat (map item_pairs items)"

lemma fgets_line:
  assumes "CHR 0x0A \<notin> set l" "length l < 4095"
  shows "fgets PROP_MAX_LINE_LENGTH (l @ CHR 0x0A # rest) = Some (l @ [CHR 0x0A], rest)"
proof -
  have "takeWhile (\<lambda>c. c \<noteq> CHR 0x0A) (l @ CHR 0x0A # rest) = l" using assms(1) by (subst takeWhile_append2) auto
  then show ?thesis using assms(2) by (simp add: fgets_def PROP_MAX_LINE_LENGTH_def)
qed

lemma fgets_item:
  assumes "item_ok it"
  shows "fgets PROP_MAX_LINE_LENGTH (item_text it @ rest) = Some (item_text it, rest)"
proof (cases it)
  case (Setting k v)
  then show ?thesis using assms fgets_line [of "k @ '' = '' @ v" rest] by auto
next
  case (Note s)
  then show ?thesis using assms fgets_line [of "CHR ''#'' # s" rest] by auto
next
  case Blank
  then show ?thesis using fgets_line [of "[]" rest] by simp
qed

lemma read_setting:
  assumes "item_ok (Setting k v)"
  shows "read_line (item_text (Setting k v)) m r = hashmap_insert m (Some v) k r"
proof -
  have k: "CHR ''='' \<notin> set k" "CHR '' '' \<notin> set k" "length k < 63" "k \<noteq> []" "hd k \<noteq> CHR ''#''" "hd k \<noteq> CHR 0x0A"
    and v: "CHR 0x0A \<notin> set v" "v = [] \<or> hd v \<noteq> CHR '' ''" "length v < 4000"
    using assms by (auto simp: disjoint_iff)
  have eq: "strchr (k @ '' = '' @ v @ [CHR 0x0A]) (CHR ''='') = Some (''= '' @ v @ [CHR 0x0A])"
    using strchr_found [of "CHR ''=''" "k @ '' ''" "'' '' @ v @ [CHR 0x0A]"] k(1) by simp
  have kk: "takeWhile (\<lambda>c. c \<noteq> CHR '' '') (k @ '' '') = k"
    using k(2) takeWhile_append2 [of k "\<lambda>c. c \<noteq> CHR '' ''" "'' ''"] by fastforce
  have fv: "dropWhile (\<lambda>c. c = CHR '' '') ('' '' @ v @ [CHR 0x0A]) = v @ [CHR 0x0A]" using v(2) by (cases v) auto
  have vv: "takeWhile (\<lambda>c. c \<noteq> CHR 0x0A) (v @ [CHR 0x0A]) = v"
    using v(1) takeWhile_append2 [of v "\<lambda>c. c \<noteq> CHR 0x0A" "[CHR 0x0A]"] by fastforce
  show ?thesis
    using eq kk fv vv k(3-6) v(3)
    by (simp add: read_line_def strcpy_def PROP_COMMENT_LINE_def PROP_MAX_KEY_LENGTH_def PROP_MAX_VALUE_LENGTH_def)
qed

lemma read_item:
  assumes "item_ok it"
  shows "read_line (item_text it) m r = for_each (\<lambda>(k, x) (h, r). hashmap_insert h (Some x) k r) (item_pairs it) (m, r)"
proof (cases it)
  case (Setting k v)
  then show ?thesis using read_setting [of k v m r] assms by (cases "hashmap_insert m (Some v) k r") auto
qed (simp_all add: read_line_def PROP_COMMENT_LINE_def)

text \<open>Reading a file inserts its settings in order.\<close>

lemma read_items:
  "\<forall>it\<in>set items. item_ok it \<Longrightarrow>
   read_lines (cfg_text items) m r = for_each (\<lambda>(k, x) (h, r). hashmap_insert h (Some x) k r) (cfg_pairs items) (m, r)"
proof (induction items arbitrary: m r)
  case Nil
  then show ?case by (subst read_lines.simps) (simp add: cfg_text_def cfg_pairs_def fgets_def)
next
  case (Cons it items)
  have "fgets PROP_MAX_LINE_LENGTH (cfg_text (it # items)) = Some (item_text it, cfg_text items)"
    using Cons.prems fgets_item by (simp add: cfg_text_def)
  then show ?case using Cons
    by (subst read_lines.simps) (auto simp: read_item cfg_pairs_def for_each_append split: bind_splits)
qed

lemma properties_file:
  assumes "\<forall>it\<in>set items. item_ok it" "length (cfg_pairs items) \<le> 1021"
  shows "\<exists>m. properties_readfromfile \<lparr>pmap = fresh_table TABLE_STARTSIZE\<rparr> (Some (cfg_text items)) r = Some (True, \<lparr>pmap = m\<rparr>, r) \<and>
    hm_clean m \<and> hm_map m = map_of (rev (cfg_pairs items))"
proof -
  obtain m where "for_each (\<lambda>(k, x) (h, r). hashmap_insert h (Some x) k r) (cfg_pairs items) (fresh_table TABLE_STARTSIZE, r) = Some (m, r)"
    "hm_clean m" "hm_map m = map_of (rev (cfg_pairs items))"
    using hm.ins_all [of "fresh_table TABLE_STARTSIZE" "cfg_pairs items" r] assms(2) by (auto simp: hm_room_fresh)
  then show ?thesis using read_items [OF assms(1)] by (simp add: properties_readfromfile_def)
qed

subsection \<open>Properties of the configuration\<close>

text \<open>C29: reading a configuration file of comments, empty lines and settings gives a properties object in
  which every key has the value of its last setting, and no other key has a value.\<close>

theorem properties_read_settings:
  assumes "\<forall>it\<in>set items. item_ok it" "length (cfg_pairs items) \<le> 1021"
  shows "\<exists>p p'. properties_create r = Some (p, r) \<and>
    properties_readfromfile p (Some (cfg_text items)) r = Some (True, p', r) \<and>
    (\<forall>k. properties_get p' k = map_of (rev (cfg_pairs items)) k)"
proof -
  have "properties_create r = Some (\<lparr>pmap = fresh_table TABLE_STARTSIZE\<rparr>, r)"
    by (simp add: properties_create_def hashmap_create_def)
  moreover obtain m where "properties_readfromfile \<lparr>pmap = fresh_table TABLE_STARTSIZE\<rparr> (Some (cfg_text items)) r = Some (True, \<lparr>pmap = m\<rparr>, r)"
    "hm_clean m" "hm_map m = map_of (rev (cfg_pairs items))" using properties_file [OF assms] by blast
  ultimately show ?thesis by (auto simp: properties_get_def hm.get_abs hm.clean_imp_ok)
qed

definition sample_cfg :: "cfg_item list" where
  "sample_cfg = [Note '' index'', Blank, Setting ''policyResourceIndex'' ''1'', Setting ''policyObjective'' ''LOAD_BALANCE'',
     Setting ''policyObjective'' ''CONSOLIDATE'']"

lemma sample_cfg_ok: "\<forall>it\<in>set sample_cfg. item_ok it" "length (cfg_pairs sample_cfg) \<le> 1021"
  by (simp_all add: sample_cfg_def cfg_pairs_def)

theorem properties_read_settings_witness:
  "\<exists>p p'. properties_create (\<lambda>_. 0) = Some (p, \<lambda>_. 0) \<and>
    properties_readfromfile p (Some (cfg_text sample_cfg)) (\<lambda>_. 0) = Some (True, p', \<lambda>_. 0) \<and>
    properties_get p' ''policyObjective'' = Some ''CONSOLIDATE'' \<and> properties_get p' ''index'' = None"
proof -
  obtain p p' where "properties_create (\<lambda>_. 0) = Some (p, \<lambda>_. 0)"
    "properties_readfromfile p (Some (cfg_text sample_cfg)) (\<lambda>_. 0) = Some (True, p', \<lambda>_. 0)"
    "\<forall>k. properties_get p' k = map_of (rev (cfg_pairs sample_cfg)) k"
    using properties_read_settings [OF sample_cfg_ok, of "\<lambda>_. 0"] by blast
  then show ?thesis by (auto simp: sample_cfg_def cfg_pairs_def)
qed

lemma createfromfile_eq:
  "evaluator_createfromfile m None = evaluator_create m 0 A_BINPACK"
  "\<forall>it\<in>set items. item_ok it \<Longrightarrow> length (cfg_pairs items) \<le> 1021 \<Longrightarrow> evaluator_createfromfile m (Some (cfg_text items)) =
    evaluator_create m (parser_decode_int (map_of (rev (cfg_pairs items)) ''policyResourceIndex''))
      (defs_objtypeFromstring (map_of (rev (cfg_pairs items)) ''policyObjective''))"
proof -
  have "reader_create None (h_rng m) = Some (None, h_rng m)"
    by (simp add: reader_create_def properties_create_def hashmap_create_def properties_readfromfile_def)
  then show "evaluator_createfromfile m None = evaluator_create m 0 A_BINPACK" by (simp add: evaluator_createfromfile_def)
next
  assume items: "\<forall>it\<in>set items. item_ok it" "length (cfg_pairs items) \<le> 1021"
  obtain t where "properties_readfromfile \<lparr>pmap = fresh_table TABLE_STARTSIZE\<rparr> (Some (cfg_text items)) (h_rng m) = Some (True, \<lparr>pmap = t\<rparr>, h_rng m)"
    "hm_clean t" "hm_map t = map_of (rev (cfg_pairs items))" using properties_file [OF items] by blast
  then have "reader_create (Some (cfg_text items)) (h_rng m) = Some (Some \<lparr>rd_p = \<lparr>pmap = t\<rparr>,
      rd_policyresourceindex = parser_decode_int (map_of (rev (cfg_pairs items)) ''policyResourceIndex''),
      rd_policyobjective = defs_objtypeFromstring (map_of (rev (cfg_pairs items)) ''policyObjective'')\<rparr>, h_rng m)"
    by (auto simp: reader_create_def properties_create_def hashmap_create_def properties_get_def hm.get_abs hm.clean_imp_ok
        parser_decode_int_def defs_objtypeFromstring_def split: option.split)
  then show "evaluator_createfromfile m (Some (cfg_text items)) =
      evaluator_create m (parser_decode_int (map_of (rev (cfg_pairs items)) ''policyResourceIndex''))
        (defs_objtypeFromstring (map_of (rev (cfg_pairs items)) ''policyObjective''))"
    by (simp add: evaluator_createfromfile_def reader_getpolicyresourceindex_def reader_getpolicyobjective_def)
qed

text \<open>C30: an evaluator created from a configuration file has the objective and the resource index set in
  the file; a missing setting or a missing file selects adaptive bin packing and index 0.\<close>

theorem evaluator_createfromfile_policy:
  assumes "\<forall>it\<in>set items. item_ok it" "length (cfg_pairs items) \<le> 1021"
  shows "(\<exists>ev w. evaluator_createfromfile m (Some (cfg_text items)) = Some (ev, w) \<and>
      policyobjective ev = defs_objtypeFromstring (map_of (rev (cfg_pairs items)) ''policyObjective'') \<and>
      policyresourceindex ev = parser_decode_int (map_of (rev (cfg_pairs items)) ''policyResourceIndex'')) \<and>
    (\<exists>ev w. evaluator_createfromfile m None = Some (ev, w) \<and> policyobjective ev = A_BINPACK \<and> policyresourceindex ev = 0)"
proof -
  have create: "\<exists>w. evaluator_create m' index obj = Some (\<lparr>policyresourceindex = index, policyobjective = obj\<rparr>, w)" for m' index obj
    by (simp add: evaluator_create_def cloudsystem_create_def cloudsystem_resetpes_def hashmap_create_def vector_getsize_def
        vector_create_def Let_def)
  show ?thesis unfolding createfromfile_eq(1) createfromfile_eq(2) [OF assms]
    using create by (metis evaluator.select_convs)
qed

theorem evaluator_createfromfile_policy_witness:
  "(\<exists>ev w. evaluator_createfromfile sample_mem (Some (cfg_text sample_cfg)) = Some (ev, w) \<and>
      policyobjective ev = defs_objtypeFromstring (map_of (rev (cfg_pairs sample_cfg)) ''policyObjective'') \<and>
      policyresourceindex ev = parser_decode_int (map_of (rev (cfg_pairs sample_cfg)) ''policyResourceIndex'')) \<and>
   (\<exists>ev w. evaluator_createfromfile sample_mem None = Some (ev, w) \<and> policyobjective ev = A_BINPACK \<and> policyresourceindex ev = 0)"
  by (rule evaluator_createfromfile_policy [OF sample_cfg_ok])

text \<open>A line whose text before the equals sign has 64 characters or more overruns the key buffer,
  although lines of up to 4095 characters are read.\<close>

theorem read_line_key_overrun:
  assumes "CHR ''='' \<notin> set k" "64 \<le> length k" "hd k \<notin> {CHR ''#'', CHR 0x0A}"
  shows "read_line (k @ ''='' @ v) m r = None"
proof -
  have "strchr (k @ ''='' @ v) (CHR ''='') = Some (''='' @ v)"
    using strchr_found [OF assms(1), of v] by simp
  then show ?thesis
    using assms(2,3) by (cases k) (simp_all add: read_line_def strcpy_def PROP_MAX_KEY_LENGTH_def PROP_COMMENT_LINE_def)
qed

theorem read_line_key_overrun_witness: "read_line (replicate 64 CHR ''k'' @ ''='' @ ''1'') (fresh_table TABLE_STARTSIZE) (\<lambda>_. 0) = None"
  by (rule read_line_key_overrun) simp_all

end
