(* ===== verification/Reports.thy ===== *)
theory Reports
  imports Output Placement Configuration "HOL-Library.Multiset"
begin

section \<open>Reports on the system (printing functions of system/, stats/, replay/ and evaluator.c)\<close>

text \<open>
  The printing functions of the entities, the cloud system, the updater, the statistics and the configuration,
  over the printing of theory \<open>Output\<close>. Two of them compute something: \<open>cloudsystem_displayutilization\<close> draws
  the usage of the PEs as bars, in the order of the names on demand, and \<open>cloudsystem_printutilizationmatrix\<close>
  accumulates ordered utilisations in the cloud system and prints their averages.

  \<open>qsort\<close> is modelled by insertion; C specifies its result up to the order of equal elements, which are
  indistinguishable here: PEs have distinct names and equal numbers are the same. What \<open>qsort\<close> asks of a comparison
  function is the locale \<open>comparator\<close>; it is interpreted on the two comparison functions of the code.

  The theory shows that a printed resource is read back by the parser, what the bars look like, and when
  the accumulation reads outside its matrix.
\<close>

subsection \<open>Sorting\<close>

fun insert_by :: "('a \<Rightarrow> 'a \<Rightarrow> int option) \<Rightarrow> 'a \<Rightarrow> 'a list \<Rightarrow> 'a list option" where
  "insert_by cmp x [] = Some [x]"
| "insert_by cmp x (y # ys) =
     do { c \<leftarrow> cmp x y; if c \<le> 0 then Some (x # y # ys) else do { zs \<leftarrow> insert_by cmp x ys; Some (y # zs) } }"

fun qsort :: "('a \<Rightarrow> 'a \<Rightarrow> int option) \<Rightarrow> 'a list \<Rightarrow> 'a list option" where
  "qsort cmp [] = Some []"
| "qsort cmp (x # xs) = do { ys \<leftarrow> qsort cmp xs; insert_by cmp x ys }"

locale comparator =
  fixes cmp :: "'a \<Rightarrow> 'a \<Rightarrow> int"
  assumes swap: "cmp y x = - cmp x y"
    and trans: "cmp x y \<le> 0 \<Longrightarrow> cmp y z \<le> 0 \<Longrightarrow> cmp x z \<le> 0"
begin

abbreviation ordered :: "'a list \<Rightarrow> bool" where
  "ordered \<equiv> sorted_wrt (\<lambda>x y. cmp x y \<le> 0)"

lemma insert_ordered:
  assumes "ordered ys" "\<And>y. y \<in> set ys \<Longrightarrow> f x y = Some (cmp x y)"
  shows "\<exists>zs. insert_by f x ys = Some zs \<and> mset zs = add_mset x (mset ys) \<and> ordered zs"
  using assms
proof (induction ys)
  case (Cons y ys)
  show ?case
  proof (cases "cmp x y \<le> 0")
    case True
    then have "ordered (x # y # ys)" using Cons.prems(1) trans by auto
    then show ?thesis using True Cons.prems(2) by (intro exI [of _ "x # y # ys"]) simp
  next
    case False
    obtain zs where zs: "insert_by f x ys = Some zs" "mset zs = add_mset x (mset ys)" "ordered zs"
      using Cons by auto
    have "cmp y x \<le> 0" using False swap [of y x] by simp
    moreover have "set zs = insert x (set ys)" using zs(2) by (metis set_mset_add_mset_insert set_mset_mset)
    ultimately have "ordered (y # zs)" using zs(3) Cons.prems(1) by auto
    then show ?thesis using False zs Cons.prems(2) by (intro exI [of _ "y # zs"]) simp
  qed
qed simp

lemma qsort_ordered:
  assumes "\<And>x y. x \<in> set xs \<Longrightarrow> y \<in> set xs \<Longrightarrow> f x y = Some (cmp x y)"
  shows "\<exists>ys. qsort f xs = Some ys \<and> mset ys = mset xs \<and> ordered ys"
  using assms
proof (induction xs)
  case (Cons x xs)
  then obtain ys where ys: "qsort f xs = Some ys" "mset ys = mset xs" "ordered ys" by auto
  then have "set ys = set xs" by (metis set_mset_mset)
  then show ?case using insert_ordered [OF ys(3), of f x] Cons.prems ys(1,2) by auto
qed simp

end

text \<open>\<open>strcmp\<close> orders strings.\<close>

lemma strcmp_swap: "strcmp t s = - strcmp s t"
  by (induction s t rule: strcmp.induct) auto

lemma strcmp_Cons_le:
  "strcmp (c # s) (d # t) \<le> 0 \<longleftrightarrow> (of_char c :: nat) < of_char d \<or> (of_char c :: nat) = of_char d \<and> strcmp s t \<le> 0"
  by (simp del: of_char_eq_iff)

lemma strcmp_trans: "strcmp s t \<le> 0 \<Longrightarrow> strcmp t u \<le> 0 \<Longrightarrow> strcmp s u \<le> 0"
proof (induction s t arbitrary: u rule: strcmp.induct)
  case (2 d t)
  then show ?case by (cases u) simp_all
next
  case (4 c s d t)
  obtain e v where u: "u = e # v" using "4.prems"(2) by (cases u) auto
  show ?case
    using "4.prems" "4.IH" [of v] unfolding u strcmp_Cons_le by (metis less_trans not_less_iff_gr_or_eq)
qed simp_all

interpretation by_name: comparator "\<lambda>p q. strcmp (pe_name m (the p)) (pe_name m (the q))" for m
  by unfold_locales (rule strcmp_swap, erule (1) strcmp_trans)

interpretation by_value: comparator mathhelper_floatcomp
  by unfold_locales (auto simp: mathhelper_floatcomp_def split: if_splits)

subsection \<open>Entities\<close>

definition resource_print :: "resource \<Rightarrow> stdout \<Rightarrow> stdout option" where
  "resource_print r out =
     do { let n = resource_getnum r;
          out \<leftarrow> printhelper_printvectorint (Some ''resCap'') (Some (resource_getcapacity r)) n out;
          out \<leftarrow> printf ''; '' out;
          out \<leftarrow> printhelper_printvectorint (Some ''resUsed'') (Some (resource_getusage r)) n out;
          out \<leftarrow> printf ''; '' out;
          out \<leftarrow> printhelper_printvectorbool (Some ''ovf'') (Some (allowoverflow r)) n out;
          printf ''; '' out }"

text \<open>The name of the host is read with \<open>le_getname\<close> although the host is a PE; both structs start with the label.\<close>

definition le_print :: "mem \<Rightarrow> le \<Rightarrow> stdout \<Rightarrow> stdout option" where
  "le_print m e out =
     do { out \<leftarrow> printf ''LE: '' out;
          out \<leftarrow> printf (''name='' @ le_getname e @ ''; '') out;
          out \<leftarrow> printf (''isHosted='' @ int_string (of_bool (le_ishosted e)) @ ''; '') out;
          hostname \<leftarrow> (case host e of None \<Rightarrow> Some ''NULL'' | Some p \<Rightarrow> do { P \<leftarrow> h_pe m p; Some (pe_label P) });
          out \<leftarrow> printf (''hostname='' @ hostname @ ''; '') out;
          out \<leftarrow> printhelper_printvectorint (Some ''demand'') (Some (demand e)) (numdemand e) out;
          out \<leftarrow> printf ''; '' out;
          printf newline out }"

definition pe_print :: "mem \<Rightarrow> pe \<Rightarrow> stdout \<Rightarrow> stdout option" where
  "pe_print m P out =
     do { out \<leftarrow> printf ''PE: '' out;
          out \<leftarrow> printf (''name='' @ pe_getname P @ ''; '') out;
          out \<leftarrow> printf (''idx='' @ int_string (indexinsystem P) @ ''; '') out;
          out \<leftarrow> (case pe_resource P of Some r \<Rightarrow> resource_print r out | None \<Rightarrow> Some out);
          let v = hostedLE P;
          let num = vector_getsize v;
          out \<leftarrow> printf ''hostedLEs=['' out;
          out \<leftarrow> print_items '','' num (\<lambda>i out. case vector_get v (int i) of
                   Some e \<Rightarrow> do { E \<leftarrow> h_le m e; printf (le_getname E) out }
                 | None \<Rightarrow> Some out) out;
          out \<leftarrow> printf '']'' out;
          out \<leftarrow> printf ''; '' out;
          printf newline out }"

subsection \<open>Statistics, configuration, updater and evaluator\<close>

definition demandstats_print :: "demandstats \<Rightarrow> stdout \<Rightarrow> stdout option" where
  "demandstats_print d out =
     do { out \<leftarrow> printf (''DemandStats:'' @ newline) out;
          out \<leftarrow> printf (''smoothingfactor='' @ float_string (smoothingfactor d) @ ''; '') out;
          out \<leftarrow> printf (''demandcount='' @ int_string (int (demandcount d)) @ ''; '') out;
          out \<leftarrow> printf newline out;
          out \<leftarrow> printf ''DemandAvg='' out;
          out \<leftarrow> (case demandavg d of Some a \<Rightarrow> array_print a out | None \<Rightarrow> printf ''NULL'' out);
          out \<leftarrow> printf newline out;
          out \<leftarrow> printf ''DemandAvg2='' out;
          out \<leftarrow> (case demandavg2 d of Some a \<Rightarrow> matrix_print a out | None \<Rightarrow> printf ''NULL'' out);
          out \<leftarrow> printf newline out;
          printf newline out }"

definition printstring :: "string \<Rightarrow> stdout \<Rightarrow> stdout option" where
  "printstring p = printf (p @ '' '')"

definition properties_print :: "properties \<Rightarrow> stdout \<Rightarrow> stdout option" where
  "properties_print p out = do { out \<leftarrow> hashmap_print (pmap p) printstring out; printf newline out }"

definition reader_print :: "reader \<Rightarrow> stdout \<Rightarrow> stdout option" where
  "reader_print r out =
     do { out \<leftarrow> printf (''all properties: '' @ newline) out;
          out \<leftarrow> properties_print (rd_p r) out;
          printf newline out }"

definition stateupdater_printid :: "string \<Rightarrow> stdout \<Rightarrow> stdout option" where
  "stateupdater_printid i = printf i"

text \<open>The clock readings of the last start and stop are arguments; \<open>CLOCKS_PER_SEC\<close> is the million of POSIX. The
  conversion to \<open>int\<close> truncates.\<close>

definition update_time :: "int \<Rightarrow> int \<Rightarrow> int" where
  "update_time starttime stoptime =
     (let t = ddiv (dmul 1000 (dbl (of_int (stoptime - starttime)))) 1000000 in if 0 \<le> t then \<lfloor>t\<rfloor> else \<lceil>t\<rceil>)"

definition print_ids :: "string \<Rightarrow> string vector \<Rightarrow> stdout \<Rightarrow> stdout option" where
  "print_ids title v out =
     do { out \<leftarrow> printf (title @ '':['') out;
          out \<leftarrow> vector_printbrief (Some v) (Some stateupdater_printid) out;
          printf (''] '' @ newline) out }"

definition stateupdater_print :: "int \<Rightarrow> int \<Rightarrow> stateupdater \<Rightarrow> stdout \<Rightarrow> stdout option" where
  "stateupdater_print starttime stoptime su out =
     do { out \<leftarrow> printf ''stateupdater: '' out;
          out \<leftarrow> printf (''updateTime='' @ int_string (update_time starttime stoptime) @ ''ms; '') out;
          out \<leftarrow> printf newline out;
          out \<leftarrow> print_ids ''addedPEs'' (addedPEs su) out;
          out \<leftarrow> print_ids ''deletedPEs'' (deletedPEs su) out;
          out \<leftarrow> print_ids ''updatedPEs'' (updatedPEs su) out;
          out \<leftarrow> print_ids ''addedLEs'' (addedLEs su) out;
          out \<leftarrow> print_ids ''deletedLEs'' (deletedLEs su) out;
          out \<leftarrow> print_ids ''updatedLEs'' (updatedLEs su) out;
          printf newline out }"

definition cloudsystem_print :: "mem \<Rightarrow> cloudsystem \<Rightarrow> stdout \<Rightarrow> stdout option" where
  "cloudsystem_print m cs out =
     do { out \<leftarrow> printf (''CloudSystem:'' @ newline) out;
          out \<leftarrow> (case pes cs of
                   Some v \<Rightarrow> vector_print (Some v) (Some ''PEs'') (Some (\<lambda>p out. do { P \<leftarrow> h_pe m p; pe_print m P out })) out
                 | None \<Rightarrow> Some out);
          printf newline out }"

definition evaluator_print :: "world \<Rightarrow> stdout \<Rightarrow> stdout option" where
  "evaluator_print = (\<lambda>(m, cs, su). cloudsystem_print m cs)"

subsection \<open>Usage bars\<close>

text \<open>The order in which PEs are listed: that of the vector, or that of the names.\<close>

definition listed_pes :: "mem \<Rightarrow> nat vector \<Rightarrow> bool \<Rightarrow> nat option list option" where
  "listed_pes m v issorted =
     (if issorted
      then qsort (\<lambda>x y. do { p \<leftarrow> x; q \<leftarrow> y; pe_comparePEs m p q }) (vector_toarraycopy v)
      else Some (vector_toarray v))"

text \<open>The bar is drawn into an allocated string with room for the separator and the terminator; \<open>calloc\<close> fails
  for a size that is negative after an overflow.\<close>

definition usage_bar :: "int \<Rightarrow> int \<Rightarrow> (string \<times> int) option" where
  "usage_bar u c =
     do { let len = s32 ((if u > c then u else c) + 1);
          sq \<leftarrow> (if s32 (len + 1) < 0 then None else Some (replicate (nat (s32 (len + 1))) (CHR 0x00)));
          sq \<leftarrow> for_each (\<lambda>j sq. wri sq j (CHR ''X'')) [0..u - 1] sq;
          sq \<leftarrow> for_each (\<lambda>j sq. wri sq j (CHR '' '')) [u..len - 1] sq;
          sq \<leftarrow> wri sq len (CHR 0x00);
          sq \<leftarrow> wri sq c (CHR ''|'');
          sq \<leftarrow> (if u > c then wri sq u (CHR ''X'') else Some sq);
          Some (takeWhile (\<lambda>x. x \<noteq> CHR 0x00) sq, len) }"

definition display_usage :: "mem \<Rightarrow> nat \<Rightarrow> stdout \<Rightarrow> stdout option" where
  "display_usage m p out =
     do { P \<leftarrow> h_pe m p;
          r \<leftarrow> pe_getresource P;
          u \<leftarrow> rd (resource_getusage r) 0;
          c \<leftarrow> rd (resource_getcapacity r) 0;
          (sq, len) \<leftarrow> usage_bar u c;
          line \<leftarrow> sprintf (length (pe_getname P) + nat (len + 4)) (pe_getname P @ '': '' @ sq);
          printf (line @ '' '' @ newline) out }"

definition cloudsystem_displayutilization :: "mem \<Rightarrow> cloudsystem \<Rightarrow> bool \<Rightarrow> stdout \<Rightarrow> stdout option" where
  "cloudsystem_displayutilization m cs issorted out =
     do { out \<leftarrow> printf (''CloudSystem resource usage:'' @ newline) out;
          out \<leftarrow> (case pes cs of
                   None \<Rightarrow> Some out
                 | Some v \<Rightarrow>
                     if 0 < vector_getsize v
                     then do { allpes \<leftarrow> listed_pes m v issorted;
                               for_each (\<lambda>i out. do { h \<leftarrow> rd allpes i;
                                 case h of Some p \<Rightarrow> display_usage m p out | None \<Rightarrow> Some out }) [0..<vector_getsize v] out }
                     else Some out);
          printf newline out }"

definition display_summary :: "mem \<Rightarrow> nat \<Rightarrow> stdout \<Rightarrow> stdout option" where
  "display_summary m p out =
     do { P \<leftarrow> h_pe m p;
          out \<leftarrow> printf (pe_getname P @ '': '') out;
          out \<leftarrow> printf (int_string (int (vector_getsize (pe_gethostedLE P))) @ '' '') out;
          r \<leftarrow> pe_getresource P;
          out \<leftarrow> for_each (\<lambda>j out. do { c \<leftarrow> rd (resource_getcapacity r) j; u \<leftarrow> rd (resource_getusage r) j;
                   printf (int_string c @ '' '' @ int_string u @ '' '') out }) [0..<resource_getnum r] out;
          printf newline out }"

text \<open>The list of licences is always empty, so the loop over it prints nothing.\<close>

definition cloudsystem_displaysummary :: "mem \<Rightarrow> cloudsystem \<Rightarrow> bool \<Rightarrow> stdout \<Rightarrow> stdout option" where
  "cloudsystem_displaysummary m cs issorted out =
     do { out \<leftarrow> printf (''CloudSystem summary:'' @ newline) out;
          out \<leftarrow> printf (''pe '' @ [CHR 0x09] @ '' occup '' @ [CHR 0x09] @ '' cap '' @ [CHR 0x09] @ '' usg '' @ [CHR 0x09]) out;
          out \<leftarrow> printf newline out;
          out \<leftarrow> (case pes cs of
                   None \<Rightarrow> Some out
                 | Some v \<Rightarrow>
                     if 0 < vector_getsize v
                     then do { allpes \<leftarrow> listed_pes m v issorted;
                               for_each (\<lambda>i out. do { h \<leftarrow> rd allpes i;
                                 case h of Some p \<Rightarrow> display_summary m p out | None \<Rightarrow> Some out }) [0..<vector_getsize v] out }
                     else Some out);
          printf newline out }"

subsection \<open>Ordered utilisations\<close>

text \<open>The utilisation of resource \<open>j\<close> of the PE at position \<open>i\<close>, in column \<open>i\<close> of row \<open>j\<close>.\<close>

definition collect_utilization :: "mem \<Rightarrow> cloudsystem \<Rightarrow> nat \<Rightarrow> nat \<Rightarrow> real list list \<Rightarrow> real list list option" where
  "collect_utilization m cs k n =
     for_each (\<lambda>i u. do { r \<leftarrow> resource_at m cs i;
       case r of None \<Rightarrow> Some u
       | Some R \<Rightarrow> do { util \<leftarrow> resource_getutilization R;
                       for_each (\<lambda>j u. do { x \<leftarrow> rd util j; wr2 u j i x }) [0..<k] u } }) [0..<n]"

definition print_rows :: "string \<Rightarrow> (real \<Rightarrow> real) \<Rightarrow> real list list \<Rightarrow> nat \<Rightarrow> nat \<Rightarrow> stdout \<Rightarrow> stdout option" where
  "print_rows title f x k n =
     for_each (\<lambda>j out. do {
       out \<leftarrow> printf (title @ ''('' @ int_string (int j) @ ''): '') out;
       out \<leftarrow> for_each (\<lambda>i out. do { v \<leftarrow> rd2 x j i; printf (float_string (f v) @ '' '') out }) [0..<n] out;
       printf newline out }) [0..<k]"

definition cloudsystem_printutilizationmatrix :: "mem \<Rightarrow> cloudsystem \<Rightarrow> stdout \<Rightarrow> (cloudsystem \<times> stdout) option" where
  "cloudsystem_printutilizationmatrix m cs out =
     do { let n = cloudsystem_getnumPEs cs;
          k \<leftarrow> cloudsystem_getnumresources m cs;
          if n = 0 \<or> k = 0 then Some (cs, out)
          else do {
            let cs = (case orderedutil cs of
                        None \<Rightarrow> cs\<lparr>orderedutil := Some (matrix_create k n), orderedcount := 0\<rparr> | Some _ \<Rightarrow> cs);
            let sysM = matrix_create k n;
            u \<leftarrow> collect_utilization m cs k n (matrix_getdata sysM);
            out \<leftarrow> print_rows ''nodeUtil'' (\<lambda>v. v) u k n out;
            u \<leftarrow> for_each (\<lambda>j u. do { row \<leftarrow> rd u j; row \<leftarrow> qsort (\<lambda>a b. Some (mathhelper_floatcomp a b)) row; wr u j row }) [0..<k] u;
            z \<leftarrow> orderedutil cs;
            z \<leftarrow> matrix_add z (sysM\<lparr>m_x := u\<rparr>);
            let cs = cs\<lparr>orderedutil := Some z, orderedcount := s32 (orderedcount cs + 1)\<rparr>;
            out \<leftarrow> print_rows ''orderedStatsNodeUtil'' (\<lambda>v. fdiv v (sgl (of_int (orderedcount cs)))) (matrix_getdata z) k n out;
            Some (cs, out) } }"

subsection \<open>Reading a printed resource\<close>

lemma next_blank: "parser_nextkeyvaluepair ks vs (CHR '' '' # q) = parser_nextkeyvaluepair ks vs q"
proof -
  have eq: "strchr (CHR '' '' # q) (CHR ''='') = strchr q (CHR ''='')" by (simp add: strchr_def)
  have skip: "dropWhile (\<lambda>c. c = CHR '' '') (CHR '' '' # q) = dropWhile (\<lambda>c. c = CHR '' '') q" by simp
  show ?thesis unfolding parser_nextkeyvaluepair_def eq skip ..
qed

lemma resource_print_eq:
  assumes "res_wf R"
  shows "resource_print R out = Some (out @ ''resCap=['' @ joined (map int_string (capacity R)) @ '']; resUsed=['' @
    joined (map int_string (usage R)) @ '']; ovf=['' @ joined (map (\<lambda>b. int_string (of_bool b)) (allowoverflow R)) @ '']; '')"
  using res_wfD [OF assms]
    print_vector_eq [of "capacity R" "\<lambda>v. Some (int_string v)" int_string "''resCap''"]
    print_vector_eq [of "usage R" "\<lambda>v. Some (int_string v)" int_string "''resUsed''"]
    print_vector_eq [of "allowoverflow R" "\<lambda>v. Some (int_string (of_bool v))" "\<lambda>b. int_string (of_bool b)" "''ovf''"]
  by (simp add: resource_print_def printhelper_printvectorint_def printhelper_printvectorbool_def res_defs printf_def)

lemma printed_length:
  assumes "\<And>v. v \<in> set xs \<Longrightarrow> length (f v) \<le> 11"
  shows "length (joined (map f xs)) \<le> 12 * length xs"
proof -
  have "items_length (map f xs) \<le> 12 * length xs" using assms by (induction xs) (fastforce simp: items_length_def)+
  then show ?thesis using joined_length [of "map f xs"] by simp
qed

lemma int_chars: "c \<in> set (int_string v) \<Longrightarrow> c \<notin> set '';}'' \<and> c \<noteq> CHR 0x0A"
  using int_string_chars(2) by fastforce

subsection \<open>Bars\<close>

text \<open>The bar of \<open>u\<close> units used out of \<open>c\<close>: a mark per unit, and a separator at the capacity.\<close>

definition bar :: "nat \<Rightarrow> nat \<Rightarrow> string" where
  "bar u c = (if u \<le> c then replicate u (CHR ''X'') @ replicate (c - u) (CHR '' '') @ ''|''
              else replicate c (CHR ''X'') @ ''|'' @ replicate (u - c) (CHR ''X''))"

lemma bar_marks: "length (filter (\<lambda>x. x = CHR ''X'') (bar u c)) = u" "bar u c ! c = CHR ''|''" "length (bar u c) = max u c + 1"
  by (simp_all add: bar_def filter_replicate nth_append)

lemma bar_chars: "\<forall>x\<in>set (bar u c). x \<noteq> CHR 0x00"
  by (auto simp: bar_def)

lemma takeWhile_terminated: "\<forall>x\<in>set w. x \<noteq> z \<Longrightarrow> takeWhile (\<lambda>x. x \<noteq> z) (w @ [z]) = w"
  by (simp add: takeWhile_append2)

lemma int_upt: "a \<le> b \<Longrightarrow> [int a..int b - 1] = map int [a..<b]"
proof (induction b rule: dec_induct)
  case (step b)
  have "[int a..int (Suc b) - 1] = [int a..int b - 1] @ [int b]" using step(1) upto_rec2 [of "int a" "int b"] by simp
  then show ?case using step by simp
qed simp

lemma fill_range:
  assumes "a \<le> b" "b \<le> length sq"
  shows "for_each (\<lambda>j sq. wri sq j x) [int a..int b - 1] sq = Some (take a sq @ replicate (b - a) x @ drop b sq)"
  unfolding int_upt [OF assms(1)] for_each_map using assms
proof (induction b rule: dec_induct)
  case (step b)
  have "for_each (\<lambda>i sq. wri sq (int i) x) [a..<Suc b] sq = wri (take a sq @ replicate (b - a) x @ drop b sq) (int b) x"
    using step by (simp add: for_each_append)
  also have "\<dots> = Some (take a sq @ replicate (b - a) x @ x # drop (Suc b) sq)"
    using step by (simp add: wri_def list_update_append min_absorb2 Cons_nth_drop_Suc [symmetric])
  finally show ?case using step(1) by (simp add: Suc_diff_le replicate_append_same [symmetric])
qed simp

lemma usage_bar_eq:
  assumes "max u c + 2 < 2 ^ 31"
  shows "usage_bar (int u) (int c) = Some (bar u c, int (max u c) + 1)"
proof -
  define n where "n = max u c + 1"
  have n: "u \<le> n" "c < n" by (auto simp: n_def)
  let ?X = "CHR ''X''" and ?B = "CHR '' ''" and ?Z = "CHR 0x00"
  have len: "s32 ((if int u > int c then int u else int c) + 1) = int n" "s32 (int n + 1) = int n + 1"
    using assms by (auto simp: in_s32_def n_def)
  have l1: "for_each (\<lambda>j sq. wri sq j ?X) [0..int u - 1] (replicate (n + 1) ?Z) = Some (replicate u ?X @ replicate (n + 1 - u) ?Z)"
    using fill_range [of 0 u "replicate (n + 1) ?Z" ?X] n(1) by (simp del: replicate_Suc)
  have tail: "replicate (n + 1 - u) ?Z = replicate (n - u) ?Z @ [?Z]" using n(1) by (simp add: Suc_diff_le replicate_append_same)
  have l2: "for_each (\<lambda>j sq. wri sq j ?B) [int u..int n - 1] (replicate u ?X @ replicate (n + 1 - u) ?Z)
      = Some (replicate u ?X @ replicate (n - u) ?B @ [?Z])"
    using fill_range [of u n "replicate u ?X @ replicate (n - u) ?Z @ [?Z]" ?B] n unfolding tail by simp
  have l3: "wri (replicate u ?X @ replicate (n - u) ?B @ [?Z]) (int n) ?Z = Some (replicate u ?X @ replicate (n - u) ?B @ [?Z])"
    using n by (simp add: wri_def list_update_append)
  have sz: "nat (int n + 1) = n + 1" by simp
  show ?thesis
  proof (cases "u \<le> c")
    case True
    then have "replicate (n - u) ?B = replicate (c - u) ?B @ [?B]" by (simp add: n_def max_absorb2 Suc_diff_le replicate_append_same)
    then have "wri (replicate u ?X @ replicate (n - u) ?B @ [?Z]) (int c) (CHR ''|'')
        = Some (replicate u ?X @ replicate (c - u) ?B @ [CHR ''|'', ?Z])"
      using True by (simp add: wri_def list_update_append)
    moreover have "takeWhile (\<lambda>x. x \<noteq> ?Z) (replicate u ?X @ replicate (c - u) ?B @ [CHR ''|'', ?Z]) = bar u c"
      using takeWhile_terminated [OF bar_chars, of u c] True by (simp add: bar_def)
    ultimately show ?thesis unfolding usage_bar_def Let_def len sz using True l1 l2 l3 by (simp add: n_def)
  next
    case False
    then obtain d where u: "u = c + Suc d" by (metis add_Suc_right less_imp_Suc_add not_le)
    have rep: "replicate u ?X = replicate c ?X @ ?X # replicate d ?X" unfolding u replicate_add by simp
    have "wri (replicate u ?X @ replicate (n - u) ?B @ [?Z]) (int c) (CHR ''|'')
        = Some (replicate c ?X @ CHR ''|'' # replicate d ?X @ [?B, ?Z])"
      unfolding rep by (simp add: n_def u wri_def list_update_append del: replicate_app_Cons_same)
    moreover have "wri (replicate c ?X @ CHR ''|'' # replicate d ?X @ [?B, ?Z]) (int u) ?X
        = Some (replicate c ?X @ CHR ''|'' # replicate d ?X @ [?X, ?Z])"
      by (simp add: u wri_def list_update_append nat_add_distrib)
    moreover have "takeWhile (\<lambda>x. x \<noteq> ?Z) (replicate c ?X @ CHR ''|'' # replicate d ?X @ [?X, ?Z]) = bar u c"
      using takeWhile_terminated [OF bar_chars, of u c] by (simp add: bar_def u replicate_append_same [symmetric])
    ultimately show ?thesis unfolding usage_bar_def Let_def len sz using False l1 l2 l3 by (simp add: n_def)
  qed
qed

subsection \<open>The order of the PEs\<close>

text \<open>What is listed: the PEs of the system, each once, and in the order of their names on demand.\<close>

definition listing :: "mem \<Rightarrow> cloudsystem \<Rightarrow> bool \<Rightarrow> nat list \<Rightarrow> bool" where
  "listing m cs issorted ps \<longleftrightarrow> mset ps = mset (cs_pes cs) \<and>
     (if issorted then sorted_wrt (\<lambda>p q. strcmp (pe_name m p) (pe_name m q) < 0) ps else ps = cs_pes cs)"

lemma listing_sorted:
  assumes ok: "sys_ok m cs" and v: "pes cs = Some v"
  obtains ps where "listed_pes m v True = Some (map Some ps)" "listing m cs True ps"
proof -
  have vok: "vec_ok v" "None \<notin> set (vec_list v)" using sys_okD(2) [OF ok] v by auto
  have arr: "vector_toarraycopy v = map Some (cs_pes cs)"
    using v map_Some_the [OF vok(2)] by (simp add: vector_toarraycopy_def vec_list_def)
  let ?f = "\<lambda>x y. do { p \<leftarrow> x; q \<leftarrow> y; pe_comparePEs m p q }"
  have cmp: "?f x y = Some (strcmp (pe_name m (the x)) (pe_name m (the y)))"
    if xy: "x \<in> set (map Some (cs_pes cs))" "y \<in> set (map Some (cs_pes cs))" for x y
  proof -
    obtain p q where pq: "x = Some p" "y = Some q" "p \<in> set (cs_pes cs)" "q \<in> set (cs_pes cs)" using xy by auto
    obtain P Q where "h_pe m p = Some P" "h_pe m q = Some Q" using sys_okD(5) [OF ok] pq(3,4) by metis
    then show ?thesis using pq(1,2) by (simp add: pe_comparePEs_def pe_getname_def pe_name_def)
  qed
  obtain ys where ys: "qsort ?f (map Some (cs_pes cs)) = Some ys" "mset ys = mset (map Some (cs_pes cs))"
    "sorted_wrt (\<lambda>x y. strcmp (pe_name m (the x)) (pe_name m (the y)) \<le> 0) ys"
    using by_name.qsort_ordered [OF cmp] by blast
  let ?ps = "map the ys"
  have "None \<notin> set ys" using ys(2) by (metis (no_types, lifting) ex_map_conv option.distinct(1) set_mset_mset)
  then have some: "ys = map Some ?ps" using map_Some_the [of ys] by simp
  have ms: "mset ?ps = mset (cs_pes cs)" using arg_cong [OF ys(2), of "image_mset the"] by (simp add: image_mset.compositionality comp_def)
  have dist: "distinct (map (pe_name m) ?ps)"
    using sys_okD(3) [OF ok] mset_eq_imp_distinct_iff [of "map (pe_name m) ?ps" "map (pe_name m) (cs_pes cs)"]
      arg_cong [OF ms, of "image_mset (pe_name m)"] by (simp only: mset_map)
  have le: "sorted_wrt (\<lambda>p q. strcmp (pe_name m p) (pe_name m q) \<le> 0) ?ps" using ys(3) by (simp add: sorted_wrt_map)
  have "strcmp (pe_name m (?ps ! i)) (pe_name m (?ps ! j)) < 0" if ij: "i < j" "j < length ?ps" for i j
  proof -
    have "pe_name m (?ps ! i) \<noteq> pe_name m (?ps ! j)" using nth_eq_iff_index_eq [OF dist, of i j] ij by simp
    then have "strcmp (pe_name m (?ps ! i)) (pe_name m (?ps ! j)) \<noteq> 0" using strcmp_eq_0 by blast
    then show ?thesis using sorted_wrt_nth_less [OF le ij] by simp
  qed
  then have "sorted_wrt (\<lambda>p q. strcmp (pe_name m p) (pe_name m q) < 0) ?ps" unfolding sorted_wrt_iff_nth_less by blast
  then show thesis using that [of ?ps] ys(1) ms some arr by (simp add: listed_pes_def listing_def)
qed

lemma listing_array:
  assumes ok: "sys_ok m cs" and v: "pes cs = Some v"
  obtains ps allpes where "listed_pes m v issorted = Some allpes" "listing m cs issorted ps"
    "\<forall>i<length ps. rd allpes i = Some (Some (ps ! i))" "vector_getsize v = length ps"
proof -
  have vok: "vec_ok v" "None \<notin> set (vec_list v)" using sys_okD(2) [OF ok] v by auto
  have size: "vector_getsize v = length ps" if "listing m cs b ps" for b ps
    using that getnumPEs_eq [OF ok] v by (metis cloudsystem_getnumPEs_def listing_def option.case(2) size_mset)
  show thesis
  proof (cases issorted)
    case True
    obtain ps where "listed_pes m v True = Some (map Some ps)" "listing m cs True ps" by (rule listing_sorted [OF ok v])
    then show ?thesis using that [of "map Some ps" ps] size True by simp
  next
    case False
    have "rd (vdata v) i = Some (Some (cs_pes cs ! i))" if i: "i < length (cs_pes cs)" for i
    proof -
      have "vec_list v ! i = Some (cs_pes cs ! i)" using vec_getPE [OF ok v i] i v vok(1) by (simp add: vec_get)
      then show ?thesis using i v vok(1) by (auto simp: vec_list_def vec_ok_def)
    qed
    moreover have "listing m cs False (cs_pes cs)" by (simp add: listing_def)
    ultimately show ?thesis using that [of "vdata v" "cs_pes cs"] size False by (simp add: listed_pes_def vector_toarray_def)
  qed
qed

lemma listing_loop:
  assumes "\<forall>i<length ps. rd allpes i = Some (Some (ps ! i))"
  shows "for_each (\<lambda>i out. do { h \<leftarrow> rd allpes i; case h of Some p \<Rightarrow> pr p out | None \<Rightarrow> Some out }) [0..<length ps] out
    = for_each pr ps out"
proof -
  have "for_each (\<lambda>i out. do { h \<leftarrow> rd allpes i; case h of Some p \<Rightarrow> pr p out | None \<Rightarrow> Some out }) [0..<length ps] out
      = for_each (\<lambda>i. pr (ps ! i)) [0..<length ps] out"
    using assms by (intro for_each_cong) simp_all
  also have "\<dots> = for_each pr ps out" using for_each_map [of pr "(!) ps" "[0..<length ps]" out] by (simp add: map_nth)
  finally show ?thesis .
qed

text \<open>The line of a PE.\<close>

definition usage_line :: "mem \<Rightarrow> nat \<Rightarrow> string" where
  "usage_line m p = (case pe_amounts m p of
     Some (c # _, u # _) \<Rightarrow> pe_name m p @ '': '' @ bar (nat u) (nat c) @ '' '' @ newline | _ \<Rightarrow> [])"

definition drawable :: "mem \<Rightarrow> nat \<Rightarrow> bool" where
  "drawable m p = (case pe_amounts m p of
     Some (c # _, u # _) \<Rightarrow> 0 \<le> c \<and> 0 \<le> u \<and> c + 2 < 2 ^ 31 \<and> u + 2 < 2 ^ 31 | _ \<Rightarrow> False)"

lemma display_usage_eq:
  assumes "drawable m p"
  shows "display_usage m p out = Some (out @ usage_line m p)"
proof -
  obtain cs us where cu: "pe_amounts m p = Some (cs, us)" using assms by (auto simp: drawable_def split: option.splits)
  obtain c cap u use where "cs = c # cap" "us = u # use" using assms cu by (cases cs; cases us) (auto simp: drawable_def)
  with cu assms have am: "pe_amounts m p = Some (c # cap, u # use)" "0 \<le> c" "0 \<le> u" "c + 2 < 2 ^ 31" "u + 2 < 2 ^ 31"
    by (simp_all add: drawable_def)
  then obtain P R where P: "h_pe m p = Some P" "pe_resource P = Some R" "capacity R = c # cap" "usage R = u # use"
    by (auto simp: pe_amounts_def bind_eq_Some_conv)
  have "usage_bar (int (nat u)) (int (nat c)) = Some (bar (nat u) (nat c), int (max (nat u) (nat c)) + 1)"
    by (rule usage_bar_eq) (use am(2-5) in auto)
  then have b: "usage_bar u c = Some (bar (nat u) (nat c), int (max (nat u) (nat c)) + 1)" using am(2,3) by simp
  have "length (pe_label P @ '': '' @ bar (nat u) (nat c)) < length (pe_label P) + nat (int (max (nat u) (nat c)) + 1 + 4)"
    by (simp add: bar_marks(3) nat_add_distrib) arith
  then show ?thesis using P b am(1)
    by (simp add: display_usage_def pe_getresource_def resource_getusage_def resource_getcapacity_def pe_getname_def
        sprintf_def usage_line_def pe_name_def printf_def)
qed

subsection \<open>Ordered utilisations\<close>

lemma collect_shape:
  assumes "sys_ok m cs" "uniform m cs k" "shape k (length (cs_pes cs)) x"
  shows "\<exists>u. collect_utilization m cs k (length (cs_pes cs)) x = Some u \<and> shape k (length (cs_pes cs)) u"
  unfolding collect_utilization_def
proof (rule for_each_upt_total [where P = "\<lambda>_. shape k (length (cs_pes cs))"])
  fix i u assume i: "i < length (cs_pes cs)" and u: "shape k (length (cs_pes cs)) u"
  obtain R where R: "resource_at m cs i = Some (Some R)" "res_wf R" "rnum R = k" by (rule resource_at_eq [OF assms(1,2) i])
  obtain util where util: "resource_getutilization R = Some util" "length util = k"
    using resource_getutilization_eq [OF res_wfD(1,2) [OF R(2)]] R(3) by simp
  have "\<exists>u'. for_each (\<lambda>j u. do { x \<leftarrow> rd util j; wr2 u j i x }) [0..<k] u = Some u' \<and> shape k (length (cs_pes cs)) u'"
    by (rule for_each_upt_total [where P = "\<lambda>_. shape k (length (cs_pes cs))"]) (use u util(2) i in auto)
  then show "\<exists>u'. (do { r \<leftarrow> resource_at m cs i; case r of None \<Rightarrow> Some u
      | Some R \<Rightarrow> do { util \<leftarrow> resource_getutilization R; for_each (\<lambda>j u. do { x \<leftarrow> rd util j; wr2 u j i x }) [0..<k] u } }) = Some u' \<and>
      shape k (length (cs_pes cs)) u'"
    using R(1) util(1) by simp
qed (rule assms(3))

lemma sort_rows_shape:
  assumes "shape k n u"
  shows "\<exists>u'. for_each (\<lambda>j u. do { row \<leftarrow> rd u j; row \<leftarrow> qsort (\<lambda>a b. Some (mathhelper_floatcomp a b)) row; wr u j row }) [0..<k] u
      = Some u' \<and> shape k n u'"
proof (rule for_each_upt_total [where P = "\<lambda>_. shape k n"])
  fix j u assume j: "j < k" and u: "shape k n u"
  obtain row where row: "qsort (\<lambda>a b. Some (mathhelper_floatcomp a b)) (u ! j) = Some row" "mset row = mset (u ! j)"
    using by_value.qsort_ordered [of "u ! j" "\<lambda>a b. Some (mathhelper_floatcomp a b)"] by auto
  have "length row = n" using u j mset_eq_length [OF row(2)] by (simp add: shape_def)
  then show "\<exists>u'. (do { row \<leftarrow> rd u j; row \<leftarrow> qsort (\<lambda>a b. Some (mathhelper_floatcomp a b)) row; wr u j row }) = Some u' \<and> shape k n u'"
    using u j row(1) by (auto simp: shape_def nth_list_update)
qed (rule assms)

lemma print_rows_eq:
  assumes "shape k c x" "n \<le> c"
  shows "\<exists>s. print_rows title f x k n out = Some (out @ s)"
proof -
  let ?row = "\<lambda>j. concat (map (\<lambda>i. float_string (f (x ! j ! i)) @ '' '') [0..<n])"
  have inner: "for_each (\<lambda>i out. do { v \<leftarrow> rd2 x j i; printf (float_string (f v) @ '' '') out }) [0..<n] out = Some (out @ ?row j)"
    if "j < k" for j out
    using that assms by (intro for_each_out) (simp add: printf_def)
  have "print_rows title f x k n out = Some (out @ concat (map (\<lambda>j. title @ ''('' @ int_string (int j) @ ''): '' @ ?row j @ newline) [0..<k]))"
    unfolding print_rows_def by (intro for_each_out) (simp add: inner, simp add: printf_def)
  then show ?thesis by blast
qed

lemma print_rows_overrun:
  assumes "shape k c x" "c < n" "0 < k"
  shows "print_rows title f x k n out = None"
proof -
  let ?f = "\<lambda>i out. do { v \<leftarrow> rd2 x 0 i; printf (float_string (f v) @ '' '') out }"
  have row: "for_each ?f [0..<n] s = None" for s
  proof (rule for_each_fails)
    show "for_each ?f [0..<c] s = Some (s @ concat (map (\<lambda>i. float_string (f (x ! 0 ! i)) @ '' '') [0..<c]))"
      using assms(1,3) by (intro for_each_out) (simp add: printf_def)
    show "c < n" by (rule assms(2))
    show "?f c s' = None" for s' using assms(1,3) by (simp add: rd2_def shape_def rd_def)
  qed
  show ?thesis
    unfolding print_rows_def by (rule for_each_fails [of _ 0 out out]) (use assms(3) row in \<open>simp_all\<close>)
qed

lemma matrix_add_ok:
  assumes "mat_ok z" "mat_ok b" "nrows b = nrows z"
  shows "\<exists>z'. matrix_add z b = Some z' \<and> mat_ok z' \<and> nrows z' = nrows z \<and> ncols z' = ncols z"
proof (cases "ncols b = ncols z")
  case True
  note s = mat_okD(1) [OF assms(1)] mat_okD(1) [OF assms(2)]
  have "for_elements (nrows z) (ncols z) (\<lambda>i j x. do { a \<leftarrow> rd2 x i j; c \<leftarrow> rd2 (matrix_getdata b) i j; Some (fadd a c) }) (m_x z)
      = Some (tabulate (nrows z) (ncols z) (\<lambda>i j. fadd (m_x z ! i ! j) (m_x b ! i ! j)))"
    using s assms(3) True by (intro for_elements_eq) (simp_all add: matrix_getdata_def)
  then show ?thesis using assms True
    by (simp add: matrix_add_def matrix_getnumrows_def matrix_getnumcols_def mat_ok_upd)
qed (use assms in \<open>simp add: matrix_add_def matrix_getnumcols_def\<close>)

subsection \<open>Properties\<close>

text \<open>C28: what \<open>resource_print\<close> writes is a sequence of three pairs which the parser takes apart and decodes
  back into the capacities, the usages and the overflow flags.\<close>

theorem resource_print_roundtrip:
  assumes "res_wf R" "\<forall>x\<in>set (capacity R). in_s32 x" "\<forall>x\<in>set (usage R). in_s32 x" "7 < ks" "12 * rnum R + 2 < vs"
  shows "\<exists>line r1 r2 v1 v2 v3. resource_print R [] = Some line \<and>
    parser_nextkeyvaluepair ks vs line = Some (Some r1, ''resCap'', v1, Some True) \<and>
    parser_nextkeyvaluepair ks vs r1 = Some (Some r2, ''resUsed'', v2, Some True) \<and>
    parser_nextkeyvaluepair ks vs r2 = Some (Some '' '', ''ovf'', v3, Some True) \<and>
    parser_decode_intarray (Some v1) 1 (rnum R) = Some [capacity R] \<and>
    parser_decode_intarray (Some v2) 1 (rnum R) = Some [usage R] \<and>
    parser_decode_boolarray (Some v3) 1 (rnum R) = Some [allowoverflow R]"
proof -
  note len = res_wfD [OF assms(1)]
  let ?b = "\<lambda>b. int_string (of_bool b)"
  let ?c = "joined (map int_string (capacity R))" and ?u = "joined (map int_string (usage R))"
    and ?o = "joined (map ?b (allowoverflow R))"
  let ?r2 = "''ovf=['' @ ?o @ '']; ''" and ?r1 = "''resUsed=['' @ ?u @ '']; ovf=['' @ ?o @ '']; ''"
  have l: "length ?c + 2 < vs" "length ?u + 2 < vs" "length ?o + 2 < vs"
    using assms(2,3,5) int_string_length printed_length [of "capacity R" int_string] printed_length [of "usage R" int_string]
      printed_length [of "allowoverflow R" ?b] len by (auto simp: in_s32_def)
  have p1: "parser_nextkeyvaluepair ks vs (''resCap=['' @ ?c @ '']; '' @ ?r1) = Some (Some ('' '' @ ?r1), ''resCap'', ''['' @ ?c @ '']'', Some True)"
    using printed_pair [of "''resCap''" ks "capacity R" int_string vs "'' '' @ ?r1"] int_chars l(1) assms(4) by simp
  have p2: "parser_nextkeyvaluepair ks vs ('' '' @ ?r1) = Some (Some ('' '' @ ?r2), ''resUsed'', ''['' @ ?u @ '']'', Some True)"
    using printed_pair [of "''resUsed''" ks "usage R" int_string vs "'' '' @ ?r2"] int_chars l(2) assms(4) next_blank by simp
  have p3: "parser_nextkeyvaluepair ks vs ('' '' @ ?r2) = Some (Some '' '', ''ovf'', ''['' @ ?o @ '']'', Some True)"
    using printed_pair [of "''ovf''" ks "allowoverflow R" ?b vs "'' ''"] int_chars l(3) assms(4) next_blank by simp
  have "resource_print R [] = Some (''resCap=['' @ ?c @ '']; '' @ ?r1)" using resource_print_eq [OF assms(1), of "[]"] by simp
  then show ?thesis
    using p1 p2 p3 decode_printed_ints [OF assms(2)] decode_printed_ints [OF assms(3)] decode_printed_bools [of "allowoverflow R"]
    unfolding len by blast
qed

theorem resource_print_roundtrip_witness:
  "\<exists>line r1 r2 v1 v2 v3. resource_print sample_res [] = Some line \<and>
    parser_nextkeyvaluepair 64 64 line = Some (Some r1, ''resCap'', v1, Some True) \<and>
    parser_nextkeyvaluepair 64 64 r1 = Some (Some r2, ''resUsed'', v2, Some True) \<and>
    parser_nextkeyvaluepair 64 64 r2 = Some (Some '' '', ''ovf'', v3, Some True) \<and>
    parser_decode_intarray (Some v1) 1 2 = Some [[4, 16]] \<and>
    parser_decode_intarray (Some v2) 1 2 = Some [[1, 10]] \<and>
    parser_decode_boolarray (Some v3) 1 2 = Some [[False, True]]"
  using resource_print_roundtrip [of sample_res 64 64] by (simp add: sample_res_def res_wf_def in_s32_def)

text \<open>C27: the utilisation display lists every PE once, in the order of their names if asked to, each with a bar that
  has one mark per unit used and the separator at the capacity, whether or not the usage exceeds it.
  Nothing is written outside the bar for amounts that are not negative and small enough for the length of the
  bar to be an \<open>int\<close>.\<close>

theorem displayutilization_bars:
  assumes ok: "sys_ok m cs" and draw: "\<forall>p\<in>set (cs_pes cs). drawable m p"
  shows "\<exists>ps. listing m cs issorted ps \<and>
    cloudsystem_displayutilization m cs issorted out
      = Some (out @ ''CloudSystem resource usage:'' @ newline @ concat (map (usage_line m) ps) @ newline)"
proof -
  obtain v where v: "pes cs = Some v" using sys_okD(2) [OF ok] by blast
  obtain ps allpes where L: "listed_pes m v issorted = Some allpes" "listing m cs issorted ps"
    "\<forall>i<length ps. rd allpes i = Some (Some (ps ! i))" "vector_getsize v = length ps"
    by (rule listing_array [OF ok v])
  have "set ps = set (cs_pes cs)" using L(2) by (metis listing_def set_mset_mset)
  then have lines: "for_each (display_usage m) ps out = Some (out @ concat (map (usage_line m) ps))" for out
    using draw display_usage_eq by (intro for_each_out) simp
  show ?thesis using L(1,2,4) v lines listing_loop [OF L(3), of "display_usage m"]
    by (intro exI [of _ ps]) (simp add: cloudsystem_displayutilization_def printf_def)
qed

theorem displayutilization_bars_witness:
  "\<exists>cs. cloudsystem_displayutilization sample_mem cs True []
    = Some (''CloudSystem resource usage:'' @ newline @ ''node: X   | '' @ newline @ newline)"
proof -
  obtain cs where cs: "cs_pes cs = [0]" "eval_good sample_ev sample_mem (cs\<lparr>ds := Some (demandstats_create 0)\<rparr>) 1"
    by (rule sample_system)
  have ok: "sys_ok sample_mem cs" using cs(2) by (simp add: eval_good_def)
  have am: "pe_amounts sample_mem 0 = Some ([4, 16], [1, 10])"
    by (simp add: pe_amounts_def sample_mem_def sample_pe_def sample_res_def)
  have "\<forall>p\<in>set (cs_pes cs). drawable sample_mem p" using cs(1) am by (simp add: drawable_def)
  then obtain ps where ps: "listing sample_mem cs True ps" "cloudsystem_displayutilization sample_mem cs True []
      = Some ([] @ ''CloudSystem resource usage:'' @ newline @ concat (map (usage_line sample_mem) ps) @ newline)"
    using displayutilization_bars [OF ok] by blast
  have "ps = [0]" using ps(1) cs(1) by (simp add: listing_def)
  moreover have "usage_line sample_mem 0 = ''node: X   | '' @ newline"
    unfolding usage_line_def am by (simp add: pe_name_def sample_mem_def sample_pe_def bar_def eval_nat_numeral)
  ultimately show ?thesis using ps(2) by auto
qed

text \<open>C40: \<open>cloudsystem_printutilizationmatrix\<close> keeps the sums of the ordered utilisations in a matrix that has the size of the
  system at the first call. As long as the system has not grown since, a call succeeds, counts itself,
  keeps the matrix well formed and changes nothing else of the cloud system. Once there are more PEs than
  columns, the sum is silently skipped and the averages are read outside the matrix.\<close>

theorem utilization_matrix_overrun:
  assumes ok: "sys_ok m cs" "uniform m cs k" and k: "0 < k" "cs_pes cs \<noteq> []"
    and z: "\<forall>z. orderedutil cs = Some z \<longrightarrow> mat_ok z \<and> nrows z = k"
  shows "if \<exists>z. orderedutil cs = Some z \<and> ncols z < length (cs_pes cs)
    then cloudsystem_printutilizationmatrix m cs out = None
    else \<exists>z' s. cloudsystem_printutilizationmatrix m cs out =
        Some (cs\<lparr>orderedutil := Some z', orderedcount := s32 ((case orderedutil cs of None \<Rightarrow> 0 | Some _ \<Rightarrow> orderedcount cs) + 1)\<rparr>, out @ s) \<and>
      mat_ok z' \<and> nrows z' = k \<and> length (cs_pes cs) \<le> ncols z'"
proof -
  let ?n = "length (cs_pes cs)"
  define cs1 where "cs1 = (case orderedutil cs of None \<Rightarrow> cs\<lparr>orderedutil := Some (matrix_create k ?n), orderedcount := 0\<rparr> | Some _ \<Rightarrow> cs)"
  have c: "nrows (matrix_create k ?n) = k" "ncols (matrix_create k ?n) = ?n" "shape k ?n (m_x (matrix_create k ?n))"
    using matrix_create_simps [of k ?n] k by auto
  obtain z0 where z0: "orderedutil cs1 = Some z0" "mat_ok z0" "nrows z0 = k"
    "ncols z0 < ?n \<longleftrightarrow> (\<exists>z. orderedutil cs = Some z \<and> ncols z < ?n)"
    using z k c by (cases "orderedutil cs") (auto simp: cs1_def)
  have same: "resource_at m cs1 = resource_at m cs" by (auto simp: cs1_def resource_at_def fun_eq_iff split: option.split)
  obtain u where u: "collect_utilization m cs1 k ?n (matrix_getdata (matrix_create k ?n)) = Some u" "shape k ?n u"
    using collect_shape [OF ok c(3)] by (auto simp: collect_utilization_def same matrix_getdata_def)
  obtain s1 where s1: "print_rows ''nodeUtil'' (\<lambda>v. v) u k ?n out = Some (out @ s1)" using print_rows_eq [OF u(2) order.refl] by blast
  obtain u' where u': "for_each (\<lambda>j u. do { row \<leftarrow> rd u j; row \<leftarrow> qsort (\<lambda>a b. Some (mathhelper_floatcomp a b)) row; wr u j row }) [0..<k] u
      = Some u'" "shape k ?n u'" using sort_rows_shape [OF u(2)] by blast
  have b: "mat_ok ((matrix_create k ?n)\<lparr>m_x := u'\<rparr>)" using mat_ok_upd [OF matrix_create_ok] c u'(2) by simp
  obtain z' where z': "matrix_add z0 ((matrix_create k ?n)\<lparr>m_x := u'\<rparr>) = Some z'" "mat_ok z'" "nrows z' = k" "ncols z' = ncols z0"
    using matrix_add_ok [OF z0(2) b] c(1) z0(3) by auto
  have sh: "shape k (ncols z0) (matrix_getdata z')" using mat_okD(1) [OF z'(2)] z'(3,4) by (simp add: matrix_getdata_def)
  define cs2 where "cs2 = cs1\<lparr>orderedutil := Some z', orderedcount := s32 (orderedcount cs1 + 1)\<rparr>"
  have run: "cloudsystem_printutilizationmatrix m cs out =
      do { out \<leftarrow> print_rows ''orderedStatsNodeUtil'' (\<lambda>v. fdiv v (sgl (of_int (orderedcount cs2)))) (matrix_getdata z') k ?n (out @ s1);
           Some (cs2, out) }"
    unfolding cloudsystem_printutilizationmatrix_def
    using getnumresources_eq [OF ok] getnumPEs_eq [OF ok(1)] k u(1) s1 u'(1) z0(1) z'(1)
    by (simp add: Let_def cs1_def [symmetric] cs2_def)
  show ?thesis
  proof (cases "ncols z0 < ?n")
    case True
    then show ?thesis using print_rows_overrun [OF sh _ k(1)] z0(4) run by simp
  next
    case False
    obtain s2 where "print_rows ''orderedStatsNodeUtil'' (\<lambda>v. fdiv v (sgl (of_int (orderedcount cs2)))) (matrix_getdata z') k ?n (out @ s1)
        = Some ((out @ s1) @ s2)" using print_rows_eq [OF sh, of ?n] False by (metis not_less)
    then have "cloudsystem_printutilizationmatrix m cs out = Some (cs2, out @ s1 @ s2)" using run by simp
    moreover have "cs2 = cs\<lparr>orderedutil := Some z', orderedcount := s32 ((case orderedutil cs of None \<Rightarrow> 0 | Some _ \<Rightarrow> orderedcount cs) + 1)\<rparr>"
      by (simp add: cs2_def cs1_def split: option.split)
    ultimately show ?thesis using False z0(4) z'(2-4) by auto
  qed
qed

text \<open>A system that grew from one PE to two after the first report.\<close>

theorem utilization_matrix_overrun_witness:
  "\<exists>m cs. length (cs_pes cs) = 2 \<and> orderedutil cs = Some (matrix_create 1 1) \<and> cloudsystem_printutilizationmatrix m cs [] = None"
proof -
  let ?m = "\<lparr>h_le = Map.empty, h_pe = Map.empty, h_next = 0, h_rng = (\<lambda>_. 0)\<rparr>"
  have idle: "sys_idle 1 ?m sample_cs" "les_idle ?m sample_cs" "hm_room (pemap sample_cs) = 1021" "cs_pes sample_cs = []"
    by (simp_all add: sys_idle_def sys_ok_def heap_ok_def hosts_def sample_cs_def cs_pes_def pes_ok_def hm.clean_imp_ok
      name_map_def hm_room_fresh uniform_def les_idle_def all_les_def)
  have obs: "\<forall>x\<in>set sample_obs. observation_ok 1 x" "length sample_obs = 5" "dom (seen_capacity sample_obs) = {''n1'', ''n2''}"
    by (auto simp: sample_obs_def report_ok_def amounts_ok_def in_s32_def seen_capacity_def)
  have pre: "\<not> started stateupdater_create" "gen stateupdater_create < 1" "length sample_obs \<le> hm_room (pemap sample_cs)"
    "length (cs_pes sample_cs) + length sample_obs \<le> 1021" "length (all_les ?m sample_cs) + length sample_obs \<le> 1021"
    using idle(3,4) obs(2) by (simp_all add: stateupdater_create_def all_les_def)
  obtain m cs su where r: "capacities (m, cs, su) = seen_capacity sample_obs" "sys_idle 1 m cs"
    using observed_step [OF idle(1,2) pre obs(1)] by blast
  have ok: "sys_ok m cs" "uniform m cs 1" using r(2) by (simp_all add: sys_idle_def)
  have "pe_name m ` set (cs_pes cs) = {''n1'', ''n2''}"
  proof -
    have "dom (\<lambda>x. map_option fst (amounts m cs x)) = dom (amounts m cs)" by (auto simp: dom_def)
    then show ?thesis using amounts_dom [OF ok(1)] obs(3) r(1) by simp
  qed
  then have "card (set (map (pe_name m) (cs_pes cs))) = 2" by simp
  then have len: "length (cs_pes cs) = 2" "cs_pes cs \<noteq> []" using distinct_card [OF sys_okD(3) [OF ok(1)]] by auto
  let ?cs = "cs\<lparr>orderedutil := Some (matrix_create 1 1)\<rparr>"
  have pes: "cs_pes (cs\<lparr>orderedutil := z\<rparr>) = cs_pes cs" for z by (simp add: cs_pes_def)
  have "sys_ok m ?cs" "uniform m ?cs 1" using ok by (simp_all add: sys_ok_def uniform_def pes)
  then have "cloudsystem_printutilizationmatrix m ?cs [] = None"
    using utilization_matrix_overrun [of m ?cs 1 "[]"] len matrix_create_simps [of 1 1] by (auto simp: pes)
  then show ?thesis using len pes by (intro exI [of _ m] exI [of _ ?cs]) simp
qed

end
