(* ===== verification/Gohelper.thy ===== *)
theory Gohelper
  imports Prelude
begin

section \<open>Arrays and matrices handed over from Go (src/pigeon/bsagohelper.c)\<close>

text \<open>
  The Go side cannot index C arrays, so it builds the arguments of the C library through these
  functions: each kind of array and matrix has one to make, get, set and free. Cells are of type
  \<open>int\<close>, \<open>float\<close>, \<open>bool\<close> or \<open>char*\<close>; arrays of cells and the pointer tables of matrices live in a heap
  of their own per cell type. A \<open>char*\<close> is an address or null. \<^term>\<open>None\<close> is a failed assertion
  after \<open>calloc\<close>, an index out of range, a dangling pointer, or a second \<open>free\<close>; \<open>calloc\<close> fails for
  negative sizes and otherwise succeeds, with an empty block for size 0.

  The locale \<open>cell_store\<close> is what the Go side relies on, the locations behaving as independent
  variables; all seven kinds of container are interpretations of it. The property shows the whole life
  of a matrix, after which the heap is as before.
\<close>

record 'a gheap =
  blocks :: "nat \<rightharpoonup> 'a list"
  tables :: "nat \<rightharpoonup> nat option list"
  gfresh :: nat

type_synonym cptr = "nat option"

subsection \<open>The operations on one block and on a table of blocks\<close>

definition make_array :: "'a \<Rightarrow> 'a gheap \<Rightarrow> int \<Rightarrow> (cptr \<times> 'a gheap) option" where
  "make_array z h n =
     (if n < 0 then None
      else Some (Some (gfresh h), h\<lparr>blocks := (blocks h)(gfresh h \<mapsto> replicate (nat n) z), gfresh := Suc (gfresh h)\<rparr>))"

definition get_element :: "'a gheap \<Rightarrow> cptr \<Rightarrow> int \<Rightarrow> 'a option" where
  "get_element h p i = do { a \<leftarrow> p; b \<leftarrow> blocks h a; rdi b i }"

definition set_element :: "'a gheap \<Rightarrow> cptr \<Rightarrow> 'a \<Rightarrow> int \<Rightarrow> 'a gheap option" where
  "set_element h p v i =
     do { a \<leftarrow> p; b \<leftarrow> blocks h a; b \<leftarrow> wri b i v; Some (h\<lparr>blocks := (blocks h)(a \<mapsto> b)\<rparr>) }"

definition free_array :: "'a gheap \<Rightarrow> cptr \<Rightarrow> 'a gheap option" where
  "free_array h p =
     (case p of None \<Rightarrow> Some h
      | Some a \<Rightarrow> do { _ \<leftarrow> blocks h a; Some (h\<lparr>blocks := (blocks h)(a := None)\<rparr>) })"

definition make_rows :: "'a \<Rightarrow> 'a gheap \<Rightarrow> int \<Rightarrow> (nat \<Rightarrow> int option) \<Rightarrow> (cptr \<times> 'a gheap) option" where
  "make_rows z h n cols =
     (if n < 0 then None
      else do {
        let a = gfresh h;
        let h = h\<lparr>tables := (tables h)(a \<mapsto> replicate (nat n) None), gfresh := Suc a\<rparr>;
        h \<leftarrow> for_each (\<lambda>i h. do {
               c \<leftarrow> cols i;
               (p, h) \<leftarrow> make_array z h c;
               t \<leftarrow> tables h a;
               t \<leftarrow> wr t i p;
               Some (h\<lparr>tables := (tables h)(a \<mapsto> t)\<rparr>) }) [0..<nat n] h;
        Some (Some a, h) })"

definition get_cell :: "'a gheap \<Rightarrow> cptr \<Rightarrow> int \<Rightarrow> int \<Rightarrow> 'a option" where
  "get_cell h m i j = do { a \<leftarrow> m; t \<leftarrow> tables h a; p \<leftarrow> rdi t i; get_element h p j }"

definition set_cell :: "'a gheap \<Rightarrow> cptr \<Rightarrow> 'a \<Rightarrow> int \<Rightarrow> int \<Rightarrow> 'a gheap option" where
  "set_cell h m v i j = do { a \<leftarrow> m; t \<leftarrow> tables h a; p \<leftarrow> rdi t i; set_element h p v j }"

definition free_rows :: "'a gheap \<Rightarrow> cptr \<Rightarrow> int \<Rightarrow> 'a gheap option" where
  "free_rows h m n =
     do { h \<leftarrow> for_each (\<lambda>i h. do { a \<leftarrow> m; t \<leftarrow> tables h a; p \<leftarrow> rd t i; free_array h p }) [0..<nat n] h;
          (case m of None \<Rightarrow> Some h
           | Some a \<Rightarrow> do { _ \<leftarrow> tables h a; Some (h\<lparr>tables := (tables h)(a := None)\<rparr>) }) }"

subsection \<open>Integers\<close>

definition makeIntArray :: "int gheap \<Rightarrow> int \<Rightarrow> (cptr \<times> int gheap) option" where
  "makeIntArray = make_array 0"

definition getIntArrayElement :: "int gheap \<Rightarrow> cptr \<Rightarrow> int \<Rightarrow> int option" where
  "getIntArrayElement = get_element"

definition setIntArrayElement :: "int gheap \<Rightarrow> cptr \<Rightarrow> int \<Rightarrow> int \<Rightarrow> int gheap option" where
  "setIntArrayElement = set_element"

definition freeIntArray :: "int gheap \<Rightarrow> cptr \<Rightarrow> int gheap option" where
  "freeIntArray = free_array"

definition makeIntMatrix :: "int gheap \<Rightarrow> int \<Rightarrow> int list \<Rightarrow> (cptr \<times> int gheap) option" where
  "makeIntMatrix h rows cols = make_rows 0 h rows (rd cols)"

definition makeIntMatrixComplete :: "int gheap \<Rightarrow> int \<Rightarrow> int \<Rightarrow> (cptr \<times> int gheap) option" where
  "makeIntMatrixComplete h rows cols = make_rows 0 h rows (\<lambda>_. Some cols)"

definition getIntMatrixElement :: "int gheap \<Rightarrow> cptr \<Rightarrow> int \<Rightarrow> int \<Rightarrow> int option" where
  "getIntMatrixElement = get_cell"

definition setIntMatrixElement :: "int gheap \<Rightarrow> cptr \<Rightarrow> int \<Rightarrow> int \<Rightarrow> int \<Rightarrow> int gheap option" where
  "setIntMatrixElement = set_cell"

definition freeIntMatrix :: "int gheap \<Rightarrow> cptr \<Rightarrow> int \<Rightarrow> int gheap option" where
  "freeIntMatrix = free_rows"

subsection \<open>Strings\<close>

definition makeStringArray :: "cptr gheap \<Rightarrow> int \<Rightarrow> (cptr \<times> cptr gheap) option" where
  "makeStringArray = make_array None"

definition getStringArrayElement :: "cptr gheap \<Rightarrow> cptr \<Rightarrow> int \<Rightarrow> cptr option" where
  "getStringArrayElement = get_element"

definition setStringArrayElement :: "cptr gheap \<Rightarrow> cptr \<Rightarrow> cptr \<Rightarrow> int \<Rightarrow> cptr gheap option" where
  "setStringArrayElement = set_element"

definition freeStringArray :: "cptr gheap \<Rightarrow> cptr \<Rightarrow> cptr gheap option" where
  "freeStringArray = free_array"

definition makeStringMatrix :: "cptr gheap \<Rightarrow> int \<Rightarrow> int list \<Rightarrow> (cptr \<times> cptr gheap) option" where
  "makeStringMatrix h rows cols = make_rows None h rows (rd cols)"

definition makeStringMatrixComplete :: "cptr gheap \<Rightarrow> int \<Rightarrow> int \<Rightarrow> (cptr \<times> cptr gheap) option" where
  "makeStringMatrixComplete h rows cols = make_rows None h rows (\<lambda>_. Some cols)"

definition getStringMatrixElement :: "cptr gheap \<Rightarrow> cptr \<Rightarrow> int \<Rightarrow> int \<Rightarrow> cptr option" where
  "getStringMatrixElement = get_cell"

definition setStringMatrixElement :: "cptr gheap \<Rightarrow> cptr \<Rightarrow> cptr \<Rightarrow> int \<Rightarrow> int \<Rightarrow> cptr gheap option" where
  "setStringMatrixElement = set_cell"

definition freeStringMatrix :: "cptr gheap \<Rightarrow> cptr \<Rightarrow> int \<Rightarrow> cptr gheap option" where
  "freeStringMatrix = free_rows"

subsection \<open>Flags and floats\<close>

definition makeBoolArray :: "bool gheap \<Rightarrow> int \<Rightarrow> (cptr \<times> bool gheap) option" where
  "makeBoolArray = make_array False"

definition getBoolArrayElement :: "bool gheap \<Rightarrow> cptr \<Rightarrow> int \<Rightarrow> bool option" where
  "getBoolArrayElement = get_element"

definition setBoolArrayElement :: "bool gheap \<Rightarrow> cptr \<Rightarrow> bool \<Rightarrow> int \<Rightarrow> bool gheap option" where
  "setBoolArrayElement = set_element"

definition freeBoolArray :: "bool gheap \<Rightarrow> cptr \<Rightarrow> bool gheap option" where
  "freeBoolArray = free_array"

definition makeFloatArray :: "real gheap \<Rightarrow> int \<Rightarrow> (cptr \<times> real gheap) option" where
  "makeFloatArray = make_array 0"

definition getFloatArrayElement :: "real gheap \<Rightarrow> cptr \<Rightarrow> int \<Rightarrow> real option" where
  "getFloatArrayElement = get_element"

definition setFloatArrayElement :: "real gheap \<Rightarrow> cptr \<Rightarrow> real \<Rightarrow> int \<Rightarrow> real gheap option" where
  "setFloatArrayElement = set_element"

definition freeFloatArray :: "real gheap \<Rightarrow> cptr \<Rightarrow> real gheap option" where
  "freeFloatArray = free_array"

definition makeFloatMatrix :: "real gheap \<Rightarrow> int \<Rightarrow> int list \<Rightarrow> (cptr \<times> real gheap) option" where
  "makeFloatMatrix h rows cols = make_rows 0 h rows (rd cols)"

definition makeFloatMatrixComplete :: "real gheap \<Rightarrow> int \<Rightarrow> int \<Rightarrow> (cptr \<times> real gheap) option" where
  "makeFloatMatrixComplete h rows cols = make_rows 0 h rows (\<lambda>_. Some cols)"

definition getFloatMatrixElement :: "real gheap \<Rightarrow> cptr \<Rightarrow> int \<Rightarrow> int \<Rightarrow> real option" where
  "getFloatMatrixElement = get_cell"

definition setFloatMatrixElement :: "real gheap \<Rightarrow> cptr \<Rightarrow> real \<Rightarrow> int \<Rightarrow> int \<Rightarrow> real gheap option" where
  "setFloatMatrixElement = set_cell"

definition freeFloatMatrix :: "real gheap \<Rightarrow> cptr \<Rightarrow> int \<Rightarrow> real gheap option" where
  "freeFloatMatrix = free_rows"

lemmas int_ops = makeIntArray_def getIntArrayElement_def setIntArrayElement_def freeIntArray_def
  makeIntMatrix_def makeIntMatrixComplete_def getIntMatrixElement_def setIntMatrixElement_def freeIntMatrix_def

lemmas string_ops = makeStringArray_def getStringArrayElement_def setStringArrayElement_def freeStringArray_def
  makeStringMatrix_def makeStringMatrixComplete_def getStringMatrixElement_def setStringMatrixElement_def
  freeStringMatrix_def

lemmas float_ops = makeFloatArray_def getFloatArrayElement_def setFloatArrayElement_def freeFloatArray_def
  makeFloatMatrix_def makeFloatMatrixComplete_def getFloatMatrixElement_def setFloatMatrixElement_def
  freeFloatMatrix_def

subsection \<open>What the Go side relies on\<close>

text \<open>A store of cells: \<open>ok h p s\<close> says that \<open>p\<close> is a container of shape \<open>s\<close> in the heap \<open>h\<close>, \<open>cells s\<close>
  are the indices of its cells.\<close>

locale cell_store =
  fixes get :: "'h \<Rightarrow> 'p \<Rightarrow> 'i \<Rightarrow> 'v option"
    and put :: "'h \<Rightarrow> 'p \<Rightarrow> 'v \<Rightarrow> 'i \<Rightarrow> 'h option"
    and ok :: "'h \<Rightarrow> 'p \<Rightarrow> 's \<Rightarrow> bool"
    and cells :: "'s \<Rightarrow> 'i set"
  assumes put_ok: "ok h p s \<Longrightarrow> k \<in> cells s \<Longrightarrow> \<exists>h'. put h p v k = Some h' \<and> ok h' p s"
    and get_put: "ok h p s \<Longrightarrow> k \<in> cells s \<Longrightarrow> put h p v k = Some h' \<Longrightarrow> l \<in> cells s \<Longrightarrow>
      get h' p l = (if l = k then Some v else get h p l)"
    and put_outside: "ok h p s \<Longrightarrow> k \<notin> cells s \<Longrightarrow> put h p v k = None"
begin

definition put_all :: "'h \<Rightarrow> 'p \<Rightarrow> ('i \<times> 'v) list \<Rightarrow> 'h option" where
  "put_all h p ws = for_each (\<lambda>(k, v) h. put h p v k) ws h"

lemma put_all_last:
  assumes "ok h p s" "fst ` set ws \<subseteq> cells s"
  shows "\<exists>h'. put_all h p ws = Some h' \<and> ok h' p s \<and>
    (\<forall>k\<in>cells s. get h' p k = (case map_of (rev ws) k of None \<Rightarrow> get h p k | Some v \<Rightarrow> Some v))"
  using assms
proof (induction ws arbitrary: h)
  case Nil
  then show ?case by (simp add: put_all_def)
next
  case (Cons w ws)
  obtain k v where w: "w = (k, v)" by (cases w)
  then have k: "k \<in> cells s" using Cons.prems(2) by simp
  obtain h1 where h1: "put h p v k = Some h1" "ok h1 p s" using put_ok [OF Cons.prems(1) k, of v] by blast
  obtain h2 where h2: "put_all h1 p ws = Some h2" "ok h2 p s"
      "\<forall>l\<in>cells s. get h2 p l = (case map_of (rev ws) l of None \<Rightarrow> get h1 p l | Some v \<Rightarrow> Some v)"
    using Cons.IH [OF h1(2)] Cons.prems(2) by auto
  have "get h2 p l = (case map_of (rev (w # ws)) l of None \<Rightarrow> get h p l | Some v \<Rightarrow> Some v)" if "l \<in> cells s" for l
    using h2(3) get_put [OF Cons.prems(1) k h1(1), of l] \<open>l \<in> cells s\<close> w
    by (auto simp: map_add_def split: option.splits)
  moreover have "put_all h p (w # ws) = Some h2" using h1(1) h2(1) w by (simp add: put_all_def)
  ultimately show ?case using h2(2) by blast
qed

lemma put_all_outside:
  assumes "ok h p s" "\<not> fst ` set ws \<subseteq> cells s"
  shows "put_all h p ws = None"
  using assms
proof (induction ws arbitrary: h)
  case Nil
  then show ?case by simp
next
  case (Cons w ws)
  obtain k v where w: "w = (k, v)" by (cases w)
  show ?case
  proof (cases "k \<in> cells s")
    case True
    then obtain h1 where "put h p v k = Some h1" "ok h1 p s" using put_ok [OF Cons.prems(1), of k v] by blast
    then show ?thesis using Cons.IH [of h1] Cons.prems(2) True w by (simp add: put_all_def)
  next
    case False
    then show ?thesis using put_outside [OF Cons.prems(1)] w by (simp add: put_all_def)
  qed
qed

end

text \<open>Containers in a heap \<open>h\<close> that were made in the heap \<open>h0\<close>: everything else is as it is in \<open>h0\<close>.\<close>

definition array_at :: "'a gheap \<Rightarrow> cptr \<Rightarrow> 'a gheap \<times> nat \<Rightarrow> bool" where
  "array_at h p = (\<lambda>(h0, n). tables h = tables h0 \<and>
     (\<exists>a b. p = Some a \<and> blocks h0 a = None \<and> blocks h = (blocks h0)(a \<mapsto> b) \<and> length b = n))"

definition array_cells :: "'a gheap \<times> nat \<Rightarrow> int set" where
  "array_cells = (\<lambda>(h0, n). {0..<int n})"

definition matrix_at :: "'a gheap \<Rightarrow> cptr \<Rightarrow> 'a gheap \<times> nat list \<times> nat list \<Rightarrow> bool" where
  "matrix_at h m = (\<lambda>(h0, ps, ns). distinct ps \<and> length ps = length ns \<and>
     (\<exists>a. m = Some a \<and> tables h0 a = None \<and> tables h = (tables h0)(a \<mapsto> map Some ps)) \<and>
     (\<forall>q. q \<notin> set ps \<longrightarrow> blocks h q = blocks h0 q) \<and> (\<forall>q\<in>set ps. blocks h0 q = None) \<and>
     (\<forall>i<length ps. \<exists>b. blocks h (ps ! i) = Some b \<and> length b = ns ! i))"

definition matrix_cells :: "'a gheap \<times> nat list \<times> nat list \<Rightarrow> (int \<times> int) set" where
  "matrix_cells = (\<lambda>(h0, ps, ns). {(i, j). 0 \<le> i \<and> nat i < length ns \<and> 0 \<le> j \<and> nat j < ns ! nat i})"

lemma array_store: "cell_store get_element set_element array_at array_cells"
proof (unfold_locales, goal_cases)
  case (1 h p s k v)
  then show ?case
    by (auto simp: array_at_def array_cells_def set_element_def wri_def nat_less_iff bind_eq_Some_conv
        split: prod.splits) (metis length_list_update)
next
  case (2 h p s k v h' l)
  then show ?case
    by (auto simp: array_at_def array_cells_def set_element_def get_element_def wri_def rdi_def nat_less_iff
        nth_list_update split: prod.splits)
next
  case (3 h p s k v)
  then show ?case
    by (auto simp: array_at_def array_cells_def set_element_def wri_def wr_def nat_less_iff split: prod.splits)
qed

lemma set_cell_row:
  assumes "matrix_at h m (h0, ps, ns)" "0 \<le> i" "nat i < length ps"
  obtains b where "blocks h (ps ! nat i) = Some b" "length b = ns ! nat i"
    "\<And>j. get_cell h m i j = rdi b j"
    "\<And>v j. set_cell h m v i j = map_option (\<lambda>b. h\<lparr>blocks := (blocks h)(ps ! nat i \<mapsto> b)\<rparr>) (wri b j v)"
proof -
  obtain b where b: "blocks h (ps ! nat i) = Some b" "length b = ns ! nat i" using assms by (auto simp: matrix_at_def)
  moreover have "get_cell h m i j = rdi b j" for j
    using assms b by (auto simp: matrix_at_def get_cell_def get_element_def rdi_def)
  moreover have "set_cell h m v i j = map_option (\<lambda>b. h\<lparr>blocks := (blocks h)(ps ! nat i \<mapsto> b)\<rparr>) (wri b j v)" for v j
    using assms b by (cases "wri b j v") (auto simp: matrix_at_def set_cell_def set_element_def rdi_def)
  ultimately show thesis using that by blast
qed

lemma matrix_at_update:
  assumes "matrix_at h m (h0, ps, ns)" "i < length ps" "length b = ns ! i"
  shows "matrix_at (h\<lparr>blocks := (blocks h)(ps ! i \<mapsto> b)\<rparr>) m (h0, ps, ns)"
  using assms by (auto simp: matrix_at_def nth_eq_iff_index_eq)

lemma set_cell_outside:
  assumes "matrix_at h m (h0, ps, ns)" "(i, j) \<notin> matrix_cells (h0, ps, ns)"
  shows "set_cell h m v i j = None"
proof (cases "0 \<le> i \<and> nat i < length ps")
  case True
  then obtain b where "length b = ns ! nat i"
      "set_cell h m v i j = map_option (\<lambda>b. h\<lparr>blocks := (blocks h)(ps ! nat i \<mapsto> b)\<rparr>) (wri b j v)"
    using set_cell_row [OF assms(1)] by metis
  moreover have "\<not> (0 \<le> j \<and> nat j < ns ! nat i)" using assms True by (auto simp: matrix_cells_def matrix_at_def)
  ultimately show ?thesis by (auto simp: wri_def)
next
  case False
  then show ?thesis using assms(1) by (auto simp: matrix_at_def set_cell_def rdi_def rd_def)
qed

lemma set_cell_inside:
  assumes "matrix_at h m (h0, ps, ns)" "(i, j) \<in> matrix_cells (h0, ps, ns)"
  shows "\<exists>h'. set_cell h m v i j = Some h' \<and> matrix_at h' m (h0, ps, ns) \<and>
    (\<forall>(k, l)\<in>matrix_cells (h0, ps, ns). get_cell h' m k l = (if (k, l) = (i, j) then Some v else get_cell h m k l))"
proof -
  have i: "0 \<le> i" "nat i < length ps" and j: "0 \<le> j" "nat j < ns ! nat i" and d: "distinct ps"
    using assms by (auto simp: matrix_cells_def matrix_at_def)
  obtain b where b: "blocks h (ps ! nat i) = Some b" "length b = ns ! nat i"
      "\<And>v j. set_cell h m v i j = map_option (\<lambda>b. h\<lparr>blocks := (blocks h)(ps ! nat i \<mapsto> b)\<rparr>) (wri b j v)"
    using set_cell_row [OF assms(1) i] by metis
  let ?h = "h\<lparr>blocks := (blocks h)(ps ! nat i \<mapsto> b[nat j := v])\<rparr>"
  have ok: "matrix_at ?h m (h0, ps, ns)" using matrix_at_update [OF assms(1) i(2)] b(2) by simp
  have "get_cell ?h m k l = (if (k, l) = (i, j) then Some v else get_cell h m k l)"
    if kl: "(k, l) \<in> matrix_cells (h0, ps, ns)" for k l
  proof -
    have k: "0 \<le> k" "nat k < length ps" and l: "0 \<le> l" "nat l < ns ! nat k"
      using kl assms(1) by (auto simp: matrix_cells_def matrix_at_def)
    obtain c where c: "blocks ?h (ps ! nat k) = Some c" "get_cell ?h m k l = rdi c l"
      using set_cell_row [OF ok k] by metis
    obtain e where e: "blocks h (ps ! nat k) = Some e" "get_cell h m k l = rdi e l" "length e = ns ! nat k"
      using set_cell_row [OF assms(1) k] by metis
    show ?thesis
    proof (cases "k = i")
      case True
      then show ?thesis using b(1) c e l j by (auto simp: rdi_def nth_list_update)
    next
      case False
      then have "ps ! nat k \<noteq> ps ! nat i" using i k d by (auto simp: nth_eq_iff_index_eq)
      then show ?thesis using False c e by auto
    qed
  qed
  then show ?thesis using ok b(2,3) j by (auto simp: wri_def)
qed

lemma matrix_store: "cell_store (\<lambda>h m (i, j). get_cell h m i j) (\<lambda>h m v (i, j). set_cell h m v i j) matrix_at matrix_cells"
proof (unfold_locales, goal_cases)
  case (1 h p s k v)
  then show ?case
    using set_cell_inside [of h p "fst s" "fst (snd s)" "snd (snd s)" "fst k" "snd k" v] by (auto simp: split_def)
next
  case (2 h p s k v h' l)
  then show ?case
    using set_cell_inside [of h p "fst s" "fst (snd s)" "snd (snd s)" "fst k" "snd k" v] by (force simp: split_def)
next
  case (3 h p s k v)
  then show ?case
    using set_cell_outside [of h p "fst s" "fst (snd s)" "snd (snd s)" "fst k" "snd k" v] by (auto simp: split_def)
qed

interpretation int_array: cell_store getIntArrayElement setIntArrayElement array_at array_cells
  unfolding int_ops by (rule array_store)

interpretation string_array: cell_store getStringArrayElement setStringArrayElement array_at array_cells
  unfolding string_ops by (rule array_store)

interpretation bool_array: cell_store getBoolArrayElement setBoolArrayElement array_at array_cells
  unfolding getBoolArrayElement_def setBoolArrayElement_def by (rule array_store)

interpretation float_array: cell_store getFloatArrayElement setFloatArrayElement array_at array_cells
  unfolding float_ops by (rule array_store)

interpretation int_matrix: cell_store "\<lambda>h m (i, j). getIntMatrixElement h m i j"
    "\<lambda>h m v (i, j). setIntMatrixElement h m v i j" matrix_at matrix_cells
  unfolding int_ops by (rule matrix_store)

interpretation string_matrix: cell_store "\<lambda>h m (i, j). getStringMatrixElement h m i j"
    "\<lambda>h m v (i, j). setStringMatrixElement h m v i j" matrix_at matrix_cells
  unfolding string_ops by (rule matrix_store)

interpretation float_matrix: cell_store "\<lambda>h m (i, j). getFloatMatrixElement h m i j"
    "\<lambda>h m v (i, j). setFloatMatrixElement h m v i j" matrix_at matrix_cells
  unfolding float_ops by (rule matrix_store)

subsection \<open>The life of a matrix\<close>

definition gheap_ok :: "'a gheap \<Rightarrow> bool" where
  "gheap_ok h \<longleftrightarrow> dom (blocks h) \<subseteq> {..<gfresh h} \<and> dom (tables h) \<subseteq> {..<gfresh h}"

text \<open>The rows are allocated one after the other behind the table.\<close>

lemma make_rows_at:
  assumes "gheap_ok h0" "\<And>i. i < length ns \<Longrightarrow> cols i = Some (int (ns ! i))"
  shows "\<exists>h ps. make_rows z h0 (int (length ns)) cols = Some (Some (gfresh h0), h) \<and>
    matrix_at h (Some (gfresh h0)) (h0, ps, ns) \<and> (\<forall>i<length ns. blocks h (ps ! i) = Some (replicate (ns ! i) z))"
proof -
  let ?a = "gfresh h0" and ?n = "length ns"
  define B where "B k = (\<lambda>q. if ?a < q \<and> q \<le> ?a + k then Some (replicate (ns ! (q - Suc ?a)) z) else blocks h0 q)" for k
  define T where "T k = map (\<lambda>i. Some (Suc ?a + i)) [0..<k] @ replicate (?n - k) None" for k
  define H where "H k = h0\<lparr>blocks := B k, tables := (tables h0)(?a \<mapsto> T k), gfresh := Suc ?a + k\<rparr>" for k
  define F where "F = (\<lambda>i h. do { c \<leftarrow> cols i; (p, h) \<leftarrow> make_array z h c; t \<leftarrow> tables h ?a; t \<leftarrow> wr t i p;
     Some (h\<lparr>tables := (tables h)(?a \<mapsto> t)\<rparr>) })"
  have B: "(B k)(Suc (?a + k) \<mapsto> replicate (ns ! k) z) = B (Suc k)" for k
    by (auto simp: B_def fun_eq_iff)
  have T: "(T k)[k := Some (Suc (?a + k))] = T (Suc k)" "k < length (T k)" if "k < ?n" for k
  proof -
    have "?n - k = Suc (?n - Suc k)" using that by simp
    then show "(T k)[k := Some (Suc (?a + k))] = T (Suc k)" "k < length (T k)"
      using that by (simp_all add: T_def list_update_append)
  qed
  have rounds: "for_each F [0..<k] (H 0) = Some (H k)" if "k \<le> ?n" for k
    using that
  proof (induction k)
    case 0
    show ?case by simp
  next
    case (Suc k)
    have "F k (H k) = Some (H (Suc k))"
      using Suc.prems assms(2) [of k] T [of k] by (simp add: F_def make_array_def H_def B)
    then show ?case using Suc by (simp add: for_each_upt_Suc del: upt_Suc)
  qed
  have "B 0 = blocks h0" by (auto simp: B_def fun_eq_iff)
  then have z: "h0\<lparr>tables := (tables h0)(?a \<mapsto> replicate ?n None), gfresh := Suc ?a\<rparr> = H 0"
    by (simp add: H_def T_def)
  have out: "blocks h0 q = None" "tables h0 q = None" if "?a \<le> q" for q
    using assms(1) that by (auto simp: gheap_ok_def domIff subset_eq not_less [symmetric])
  have "make_rows z h0 (int ?n) cols = Some (Some ?a, H ?n)"
    using rounds [of ?n] z unfolding make_rows_def F_def Let_def by simp
  moreover have "matrix_at (H ?n) (Some ?a) (h0, map (\<lambda>i. Suc ?a + i) [0..<?n], ns)"
    using out by (auto simp: matrix_at_def distinct_map inj_on_def image_iff comp_def H_def B_def T_def)
      (metis Suc_le_D add_Suc_right atLeastLessThan_iff le0 less_eq_Suc_le less_iff_Suc_add nat_add_left_cancel_le)
  ultimately show ?thesis
    by (intro exI [of _ "H ?n"] exI [of _ "map (\<lambda>i. Suc ?a + i) [0..<?n]"]) (simp add: H_def B_def)
qed

lemma free_rows_at:
  fixes h :: "'a gheap"
  assumes "matrix_at h m (h0, ps, ns)"
  shows "\<exists>h'. free_rows h m (int (length ns)) = Some h' \<and> blocks h' = blocks h0 \<and> tables h' = tables h0"
proof -
  obtain a where a: "m = Some a" "tables h0 a = None" "tables h = (tables h0)(a \<mapsto> map Some ps)"
    and ps: "distinct ps" "length ps = length ns" "\<forall>q. q \<notin> set ps \<longrightarrow> blocks h q = blocks h0 q"
      "\<forall>q\<in>set ps. blocks h0 q = None" "\<forall>i<length ps. \<exists>b. blocks h (ps ! i) = Some b \<and> length b = ns ! i"
    using assms by (auto simp: matrix_at_def)
  let ?f = "\<lambda>i h. do { a \<leftarrow> m; t \<leftarrow> tables h a; p \<leftarrow> rd t i; free_array h p }"
  have "\<exists>h'. for_each ?f [0..<length ns] h = Some h' \<and> tables h' = tables h \<and>
      blocks h' = (blocks h) |` (- set (take (length ns) ps))"
  proof (rule for_each_upt_total [where P = "\<lambda>i h'. tables h' = tables h \<and> blocks h' = (blocks h) |` (- set (take i ps))"])
    show "tables h = tables h \<and> blocks h = (blocks h) |` (- set (take 0 ps))" by (simp add: restrict_map_def)
  next
    fix i and h' :: "'a gheap"
    assume i: "i < length ns" and h': "tables h' = tables h \<and> blocks h' = (blocks h) |` (- set (take i ps))"
    have "ps ! i \<notin> set (take i ps)" using i ps(1,2) by (auto simp: in_set_conv_nth nth_eq_iff_index_eq)
    then have "blocks h' (ps ! i) = blocks h (ps ! i)" using h' by simp
    then obtain b where "blocks h' (ps ! i) = Some b" using ps(2,5) i by auto
    then have "?f i h' = Some (h'\<lparr>blocks := (blocks h')(ps ! i := None)\<rparr>)"
      using h' a(1,3) i ps(2) by (simp add: free_array_def)
    moreover have "((blocks h) |` (- set (take i ps)))(ps ! i := None) = (blocks h) |` (- set (take (Suc i) ps))"
      using i ps(2) by (auto simp: take_Suc_conv_app_nth restrict_map_def fun_eq_iff)
    ultimately show "\<exists>h''. ?f i h' = Some h'' \<and> tables h'' = tables h \<and> blocks h'' = (blocks h) |` (- set (take (Suc i) ps))"
      using h' by (intro exI [of _ "h'\<lparr>blocks := (blocks h')(ps ! i := None)\<rparr>"] conjI) simp_all
  qed
  then obtain h' where h': "for_each ?f [0..<length ns] h = Some h'" "tables h' = tables h"
      "blocks h' = (blocks h) |` (- set ps)"
    using ps(2) by auto
  have "blocks h' = blocks h0" using h'(3) ps(3,4) by (auto simp: restrict_map_def fun_eq_iff)
  moreover have "free_rows h m (int (length ns)) = Some (h'\<lparr>tables := (tables h')(a := None)\<rparr>)"
    unfolding free_rows_def nat_int h'(1) using a(1,3) h'(2) by simp
  ultimately show ?thesis using a(2,3) h'(2) by auto
qed

lemma matrix_get_new:
  assumes "matrix_at h m (h0, ps, ns)" "(i, j) \<in> matrix_cells (h0, ps, ns)"
    "\<forall>i<length ns. blocks h (ps ! i) = Some (replicate (ns ! i) z)"
  shows "get_cell h m i j = Some z"
proof -
  have i: "0 \<le> i" "nat i < length ps" and j: "0 \<le> j" "nat j < ns ! nat i" and l: "length ps = length ns"
    using assms(1,2) by (auto simp: matrix_cells_def matrix_at_def)
  obtain b where "blocks h (ps ! nat i) = Some b" "get_cell h m i j = rdi b j" using set_cell_row [OF assms(1) i] by metis
  then show ?thesis using assms(3) i j l by (auto simp: rdi_def)
qed

text \<open>Writes inside a matrix with rows of lengths \<open>ns\<close>.\<close>

definition in_rows :: "nat list \<Rightarrow> ((int \<times> int) \<times> 'v) list \<Rightarrow> bool" where
  "in_rows ns ws \<longleftrightarrow> list_all (\<lambda>((i, j), v). 0 \<le> i \<and> nat i < length ns \<and> 0 \<le> j \<and> nat j < ns ! nat i) ws"

lemma in_rows_cells: "in_rows ns ws \<longleftrightarrow> fst ` set ws \<subseteq> matrix_cells (h, ps, ns)"
  by (auto simp: in_rows_def matrix_cells_def list_all_iff)

text \<open>C33: the life of a matrix of floats the Go side hands over. In a heap whose allocated addresses are
  below the next free one, making a matrix with given row lengths succeeds; any sequence of writes to cells
  inside it succeeds and each cell then reads as the last value written to it, or 0; a sequence with a write
  outside has no result, which stands for the undefined behaviour of C, where nothing checks the indices; and freeing the matrix afterwards gives back exactly the heap before it was made.\<close>

theorem float_matrix_life:
  assumes "gheap_ok h"
  shows "\<exists>m h1. makeFloatMatrix h (int (length ns)) (map int ns) = Some (m, h1) \<and>
    (\<forall>ws. in_rows ns ws \<longrightarrow> (\<exists>h2 h3.
      for_each (\<lambda>((i, j), v) h. setFloatMatrixElement h m v i j) ws h1 = Some h2 \<and>
      (\<forall>i<length ns. \<forall>j<ns ! i. getFloatMatrixElement h2 m (int i) (int j) =
         Some (case map_of (rev ws) (int i, int j) of None \<Rightarrow> 0 | Some v \<Rightarrow> v)) \<and>
      freeFloatMatrix h2 m (int (length ns)) = Some h3 \<and> blocks h3 = blocks h \<and> tables h3 = tables h)) \<and>
    (\<forall>ws. \<not> in_rows ns ws \<longrightarrow> for_each (\<lambda>((i, j), v) h. setFloatMatrixElement h m v i j) ws h1 = None)"
proof -
  obtain h1 ps where h1: "makeFloatMatrix h (int (length ns)) (map int ns) = Some (Some (gfresh h), h1)"
    and at: "matrix_at h1 (Some (gfresh h)) (h, ps, ns)"
    and z: "\<forall>i<length ns. blocks h1 (ps ! i) = Some (replicate (ns ! i) 0)"
    using make_rows_at [OF assms, of ns "rd (map int ns)" 0] by (auto simp: float_ops)
  let ?m = "Some (gfresh h)" and ?s = "(h, ps, ns)"
  have all: "float_matrix.put_all h p ws = for_each (\<lambda>((i, j), v) h. setFloatMatrixElement h p v i j) ws h" for h p ws
    unfolding float_matrix.put_all_def by (rule for_each_cong) auto
  have read: "getFloatMatrixElement h1 ?m (int i) (int j) = Some 0" if "i < length ns" "j < ns ! i" for i j
    using matrix_get_new [OF at _ z, of "int i" "int j"] that by (simp add: float_ops matrix_cells_def)
  have "\<exists>h2 h3. float_matrix.put_all h1 ?m ws = Some h2 \<and>
      (\<forall>i<length ns. \<forall>j<ns ! i. getFloatMatrixElement h2 ?m (int i) (int j) =
         Some (case map_of (rev ws) (int i, int j) of None \<Rightarrow> 0 | Some v \<Rightarrow> v)) \<and>
      freeFloatMatrix h2 ?m (int (length ns)) = Some h3 \<and> blocks h3 = blocks h \<and> tables h3 = tables h"
    if w: "fst ` set ws \<subseteq> matrix_cells ?s" for ws
  proof -
    obtain h2 where h2: "float_matrix.put_all h1 ?m ws = Some h2" "matrix_at h2 ?m ?s"
        "\<forall>k\<in>matrix_cells ?s. (case k of (i, j) \<Rightarrow> getFloatMatrixElement h2 ?m i j) =
           (case map_of (rev ws) k of None \<Rightarrow> (case k of (i, j) \<Rightarrow> getFloatMatrixElement h1 ?m i j) | Some v \<Rightarrow> Some v)"
      using float_matrix.put_all_last [OF at w] by blast
    have "getFloatMatrixElement h2 ?m (int i) (int j) =
        Some (case map_of (rev ws) (int i, int j) of None \<Rightarrow> 0 | Some v \<Rightarrow> v)" if "i < length ns" "j < ns ! i" for i j
      using h2(3) [THEN bspec, of "(int i, int j)"] read [OF that] that
      by (auto simp: matrix_cells_def split: option.splits)
    then show ?thesis using h2(1) free_rows_at [OF h2(2)] by (auto simp: float_ops)
  qed
  moreover have "float_matrix.put_all h1 ?m ws = None" if "\<not> fst ` set ws \<subseteq> matrix_cells ?s" for ws
    using float_matrix.put_all_outside [OF at that] .
  ultimately show ?thesis unfolding in_rows_cells [of ns _ h ps] all using h1 by blast
qed

theorem float_matrix_life_witness:
  "\<exists>m h1 h2 h3. makeFloatMatrix \<lparr>blocks = Map.empty, tables = Map.empty, gfresh = 0\<rparr> 2 [2, 1] = Some (m, h1) \<and>
    for_each (\<lambda>((i, j), v) h. setFloatMatrixElement h m v i j) [((0, 1), 5), ((1, 0), 7), ((0, 1), 6)] h1 = Some h2 \<and>
    getFloatMatrixElement h2 m 0 1 = Some 6 \<and> getFloatMatrixElement h2 m 0 0 = Some 0 \<and>
    freeFloatMatrix h2 m 2 = Some h3 \<and> blocks h3 = Map.empty \<and>
    for_each (\<lambda>((i, j), v) h. setFloatMatrixElement h m v i j) [((1, 1), 5)] h1 = None"
proof -
  let ?h = "\<lparr>blocks = Map.empty, tables = Map.empty, gfresh = 0\<rparr> :: real gheap"
  have "gheap_ok ?h" by (simp add: gheap_ok_def)
  have eqs: "length [2, 1 :: nat] = 2" "int 2 = 2" "map int [2, 1] = [2, 1]" by simp_all
  from float_matrix_life [OF \<open>gheap_ok ?h\<close>, of "[2, 1]", unfolded eqs] obtain m h1
    where mk: "makeFloatMatrix ?h 2 [2, 1] = Some (m, h1)"
      and inside: "\<And>ws. in_rows [2, 1] ws \<Longrightarrow> (\<exists>h2 h3.
      for_each (\<lambda>((i, j), v) h. setFloatMatrixElement h m v i j) ws h1 = Some h2 \<and>
      (\<forall>i<2. \<forall>j<[2, 1] ! i. getFloatMatrixElement h2 m (int i) (int j) =
         Some (case map_of (rev ws) (int i, int j) of None \<Rightarrow> 0 | Some v \<Rightarrow> v)) \<and>
      freeFloatMatrix h2 m 2 = Some h3 \<and> blocks h3 = blocks ?h \<and> tables h3 = tables ?h)"
      and outside: "\<And>ws. \<not> in_rows [2, 1] ws \<Longrightarrow>
        for_each (\<lambda>((i, j), v) h. setFloatMatrixElement h m v i j) ws h1 = None"
    by blast
  have "in_rows [2, 1] [((0, 1), 5), ((1, 0), 7), ((0, 1), 6 :: real)]" by (simp add: in_rows_def)
  from inside [OF this] obtain h2 h3 where h2: "for_each (\<lambda>((i, j), v) h. setFloatMatrixElement h m v i j)
        [((0, 1), 5), ((1, 0), 7), ((0, 1), 6)] h1 = Some h2"
      "\<forall>i<2. \<forall>j<[2, 1] ! i. getFloatMatrixElement h2 m (int i) (int j) =
         Some (case map_of (rev [((0, 1), 5), ((1, 0), 7), ((0, 1), 6)]) (int i, int j) of None \<Rightarrow> 0 | Some v \<Rightarrow> v)"
      "freeFloatMatrix h2 m 2 = Some h3" "blocks h3 = Map.empty"
    by auto
  have "getFloatMatrixElement h2 m 0 1 = Some 6" "getFloatMatrixElement h2 m 0 0 = Some 0"
    using h2(2) [rule_format, of 0 1] h2(2) [rule_format, of 0 0] by simp_all
  moreover have "\<not> in_rows [2, 1] [((1, 1), 5 :: real)]" by (simp add: in_rows_def)
  ultimately show ?thesis using mk h2(1,3,4) outside by blast
qed

end
