(* ===== verification/Client.thy ===== *)
theory Client
  imports Lifecycle Reports Gohelper
begin

section \<open>The client of the library (src/pigeon/client.go)\<close>

text \<open>
  The Go client owns an evaluator and talks to the C library through the arrays of \<open>bsagohelper.c\<close>. It is
  modelled with the state of the library inside it and one heap per type of array; a Go slice is a list, a
  nil slice \<^term>\<open>None\<close>, and \<^term>\<open>None\<close> as a result is a Go panic (an index outside a slice) or a crash of the C
  code. \<open>int64\<close> values are cut to \<open>int32\<close> by \<open>s32\<close> where the code does so. What the client itself writes
  to the standard output is left out, what the library prints for it is not.

  The theory shows that the arrays hand over what the Go side put into them and are all freed again, and that a
  session through the client is never refused, since the client counts the generations itself.
\<close>

subsection \<open>Numbers as text\<close>

text \<open>\<open>strconv.ParseInt\<close> to base 10 and 64 bits, which \<open>strconv.Atoi\<close> agrees with: the value and whether there was no
  error. A text that is not a number gives 0, one that is out of range the nearest bound.\<close>

definition s64 :: "int \<Rightarrow> int" where
  "s64 x = (x + 2 ^ 63) mod 2 ^ 64 - 2 ^ 63"

fun parse_uint :: "nat \<Rightarrow> string \<Rightarrow> nat option" where
  "parse_uint un [] = Some un"
| "parse_uint un (c # s) =
     (let d = of_char c :: nat
      in if d < 48 \<or> 57 < d then None
         else if 2 ^ 64 \<le> 10 * un + (d - 48) then Some (2 ^ 64 - 1)
         else parse_uint (10 * un + (d - 48)) s)"

definition parse_int :: "string \<Rightarrow> int \<times> bool" where
  "parse_int s =
     (let neg = (s \<noteq> [] \<and> hd s = CHR ''-'');
          t = (if s \<noteq> [] \<and> (hd s = CHR ''+'' \<or> hd s = CHR ''-'') then tl s else s)
      in if t = [] then (0, False)
         else case parse_uint 0 t of
             None \<Rightarrow> (0, False)
           | Some un \<Rightarrow> if \<not> neg \<and> 2 ^ 63 \<le> un then (2 ^ 63 - 1, False)
                        else if neg \<and> 2 ^ 63 < un then (- (2 ^ 63), False)
                        else (if neg then - int un else int un, True))"

subsection \<open>State and operations\<close>

record client =
  c_eval :: evaluator
  c_world :: world
  c_numResources :: nat
  c_genNum :: int
  c_ints :: "int gheap"
  c_bools :: "bool gheap"

record node =
  node_ID :: string
  ResourceCapacity :: "int list"
  ResourceOverflow :: "bool list"
  ResourceUsage :: "int list option"

record podrequest =
  pr_ID :: string
  pr_ResourceDemand :: "int list"

record podstate =
  ps_ID :: string
  ps_NodeID :: string
  ps_ResourceDemand :: "int list"
  ps_IsRunning :: bool

text \<open>The configuration file and the values of the environment variables, empty when they are not set, are arguments.\<close>

definition NewClient :: "mem \<Rightarrow> string option \<Rightarrow> string \<Rightarrow> string \<Rightarrow> int gheap \<Rightarrow> bool gheap \<Rightarrow> client option" where
  "NewClient m configFile numResourcesValue policyObjectiveValue hi hb =
     do { (ev, w) \<leftarrow> evaluator_createfromfile m configFile;
          let numResources =
            (if numResourcesValue \<noteq> []
             then (case parse_int numResourcesValue of
                     (numv, ok) \<Rightarrow> if ok \<and> 0 < numv \<and> numv \<le> 5 then nat numv else 2)
             else 2);
          let ev = (if policyObjectiveValue \<noteq> [] then evaluator_setpolicyobjective ev (Some policyObjectiveValue) else ev);
          Some \<lparr>c_eval = ev, c_world = w, c_numResources = numResources, c_genNum = 0, c_ints = hi, c_bools = hb\<rparr> }"

definition Destroy :: "client \<Rightarrow> mem option" where
  "Destroy c = evaluator_destroy (c_world c)"

definition GetNumResources :: "client \<Rightarrow> nat" where
  "GetNumResources c = c_numResources c"

definition StateUpdateStart :: "client \<Rightarrow> (bool \<times> client) option" where
  "StateUpdateStart c =
     do { let c = c\<lparr>c_genNum := s64 (c_genNum c + 1)\<rparr>;
          (isStarted, w) \<leftarrow> stateupdater_start (c_world c) (c_genNum c);
          Some (isStarted, c\<lparr>c_world := w\<rparr>) }"

text \<open>The clock readings that the report mentions are arguments.\<close>

definition StateUpdateStop :: "int \<Rightarrow> int \<Rightarrow> client \<Rightarrow> stdout \<Rightarrow> (client \<times> stdout) option" where
  "StateUpdateStop t0 t1 c out =
     do { w \<leftarrow> stateupdater_stop (c_world c);
          out \<leftarrow> stateupdater_print t0 t1 (snd (snd w)) out;
          out \<leftarrow> evaluator_print w out;
          Some (c\<lparr>c_world := w\<rparr>, out) }"

definition StateUpdatePrint :: "int \<Rightarrow> int \<Rightarrow> client \<Rightarrow> stdout \<Rightarrow> stdout option" where
  "StateUpdatePrint t0 t1 c = stateupdater_print t0 t1 (snd (snd (c_world c)))"

text \<open>What a C function reads through a pointer to an array.\<close>

definition array_of :: "'a gheap \<Rightarrow> cptr \<Rightarrow> 'a list option" where
  "array_of h p = do { a \<leftarrow> p; blocks h a }"

definition fill_node :: "node \<Rightarrow> cptr \<Rightarrow> cptr \<Rightarrow> cptr \<Rightarrow> nat \<Rightarrow> int gheap \<times> bool gheap \<Rightarrow> (int gheap \<times> bool gheap) option" where
  "fill_node nd capv ovfv usev = (\<lambda>i (hi, hb).
     do { capi \<leftarrow> rd (ResourceCapacity nd) i;
          ovfi \<leftarrow> rd (ResourceOverflow nd) i;
          hi \<leftarrow> (case ResourceUsage nd of
                   None \<Rightarrow> Some hi
                 | Some us \<Rightarrow> do { usei \<leftarrow> rd us i; setIntArrayElement hi usev (s32 usei) (int i) });
          hi \<leftarrow> setIntArrayElement hi capv (s32 capi) (int i);
          hb \<leftarrow> setBoolArrayElement hb ovfv ovfi (int i);
          Some (hi, hb) })"

definition StateUpdateNode :: "node \<Rightarrow> client \<Rightarrow> (bool \<times> client) option" where
  "StateUpdateNode nd c =
     (let n = length (ResourceCapacity nd)
      in if n = 0 then Some (False, c)
         else do {
           (capv, hi) \<leftarrow> makeIntArray (c_ints c) (int n);
           (ovfv, hb) \<leftarrow> makeBoolArray (c_bools c) (int n);
           (usev, hi) \<leftarrow> makeIntArray hi (int n);
           (hi, hb) \<leftarrow> for_each (fill_node nd capv ovfv usev) [0..<n] (hi, hb);
           cap \<leftarrow> array_of hi capv;
           ov \<leftarrow> array_of hb ovfv;
           us \<leftarrow> array_of hi usev;
           w \<leftarrow> stateupdater_updatePE (c_world c) (node_ID nd) cap (Some ov)
                  (if ResourceUsage nd \<noteq> None then Some us else None) n;
           hi \<leftarrow> freeIntArray hi usev;
           hb \<leftarrow> freeBoolArray hb ovfv;
           hi \<leftarrow> freeIntArray hi capv;
           Some (True, c\<lparr>c_world := w, c_ints := hi, c_bools := hb\<rparr>) })"

definition fill_demand :: "int list \<Rightarrow> nat \<Rightarrow> cptr \<Rightarrow> int gheap \<Rightarrow> int gheap option" where
  "fill_demand xs n demv =
     for_each (\<lambda>i hi. do { di \<leftarrow> rd xs i; setIntArrayElement hi demv (s32 di) (int i) }) [0..<n]"

text \<open>The result \<open>true\<close> stands for a nil error.\<close>

definition StateUpdatePod :: "podstate \<Rightarrow> client \<Rightarrow> (bool \<times> client) option" where
  "StateUpdatePod ps c =
     (let n = length (ps_ResourceDemand ps)
      in if n = 0 then Some (False, c)
         else do {
           (demv, hi) \<leftarrow> makeIntArray (c_ints c) (int n);
           hi \<leftarrow> fill_demand (ps_ResourceDemand ps) n demv hi;
           d \<leftarrow> array_of hi demv;
           w \<leftarrow> stateupdater_updateLE (c_world c) (ps_ID ps) (ps_NodeID ps) d n;
           hi \<leftarrow> freeIntArray hi demv;
           Some (True, c\<lparr>c_world := w, c_ints := hi\<rparr>) })"

text \<open>A value that is not a number is \<^term>\<open>None\<close> in the map of ranks as it is in the array. \<open>C.GoString\<close> of a null pointer is
  the empty string. The array of values is never freed.\<close>

definition GetPodRanks :: "podrequest \<Rightarrow> client \<Rightarrow> ((string \<rightharpoonup> real option) \<times> client) option" where
  "GetPodRanks pr c =
     (let n = GetNumResources c; (m, cs, su) = c_world c; numNodes = cloudsystem_getnumPEs cs
      in do {
        nameList \<leftarrow> for_each (\<lambda>i ns. do { nm \<leftarrow> cloudsystem_getPEname_byindex m cs (int i);
                                          Some (ns @ [case nm of None \<Rightarrow> [] | Some s \<Rightarrow> s]) }) [0..<numNodes] [];
        (demv, hi) \<leftarrow> makeIntArray (c_ints c) (int n);
        hi \<leftarrow> fill_demand (pr_ResourceDemand pr) n demv hi;
        d \<leftarrow> array_of hi demv;
        E \<leftarrow> le_create (pr_ID pr) d n;
        let (e, m) = new_le m E;
        (cRanks, m, cs, su) \<leftarrow> evaluator_eval (c_eval c) (m, cs, su) (Some e);
        rankMap \<leftarrow> for_each (\<lambda>i rm. do { v \<leftarrow> cRanks; x \<leftarrow> rd v i; nm \<leftarrow> rd nameList i; Some (rm(nm \<mapsto> x)) })
                    [0..<numNodes] Map.empty;
        m \<leftarrow> le_destroy m (Some e);
        hi \<leftarrow> freeIntArray hi demv;
        Some (rankMap, c\<lparr>c_world := (m, cs, su), c_ints := hi\<rparr>) })"

subsection \<open>Handing over arrays\<close>

lemma fresh_block: "gheap_ok h \<Longrightarrow> gfresh h \<le> a \<Longrightarrow> blocks h a = None"
  by (auto simp: gheap_ok_def domIff subset_eq not_less [symmetric])

text \<open>A heap after arrays were made and freed again: only the addresses used up show it.\<close>

definition spent :: "nat \<Rightarrow> 'a gheap \<Rightarrow> 'a gheap" where
  "spent k h = h\<lparr>gfresh := gfresh h + k\<rparr>"

lemma spent_ok [simp]: "gheap_ok h \<Longrightarrow> gheap_ok (spent k h)"
  by (auto simp: gheap_ok_def spent_def)

lemma spent_simps [simp]: "blocks (spent k h) = blocks h" "tables (spent k h) = tables h" "gfresh (spent k h) = gfresh h + k"
  by (simp_all add: spent_def)

definition with_block :: "nat \<Rightarrow> 'a list \<Rightarrow> 'a gheap \<Rightarrow> 'a gheap" where
  "with_block a xs h = h\<lparr>blocks := (blocks h)(a \<mapsto> xs)\<rparr>"

lemma with_block_simps [simp]:
  "blocks (with_block a xs h) = (blocks h)(a \<mapsto> xs)" "gfresh (with_block a xs h) = gfresh h"
  "with_block a xs (with_block a ys h) = with_block a xs h"
  by (simp_all add: with_block_def)

lemma with_block_swap: "a \<noteq> b \<Longrightarrow> with_block a xs (with_block b ys h) = with_block b ys (with_block a xs h)"
  by (simp add: with_block_def fun_upd_twist)

lemma make_eq: "make_array z h (int n) = Some (Some (gfresh h), with_block (gfresh h) (replicate n z) (spent (Suc 0) h))"
  by (simp add: make_array_def with_block_def spent_def)

lemma set_eq: "i < length xs \<Longrightarrow> set_element (with_block a xs h) (Some a) v (int i) = Some (with_block a (xs[i := v]) h)"
  by (simp add: set_element_def wri_def with_block_def)

lemma free_eq: "gheap_ok h \<Longrightarrow> gfresh h \<le> a \<Longrightarrow> free_array (with_block a xs (spent k h)) (Some a) = Some (spent k h)"
  by (simp add: free_array_def with_block_def fresh_block spent_def fun_upd_idem)

text \<open>An array that is filled up to index \<open>k\<close>.\<close>

definition filled :: "(nat \<Rightarrow> 'a) \<Rightarrow> 'a \<Rightarrow> nat \<Rightarrow> nat \<Rightarrow> 'a list" where
  "filled f z n k = map f [0..<k] @ replicate (n - k) z"

lemma filled_simps [simp]: "length (filled f z n k) = max n k" "filled f z n 0 = replicate n z" "filled f z n n = map f [0..<n]"
  by (auto simp: filled_def)

lemma filled_Suc: "k < n \<Longrightarrow> (filled f z n k)[k := f k] = filled f z n (Suc k)"
  by (simp add: filled_def list_update_append Suc_diff_Suc [symmetric])

lemma map_take_nth: "n \<le> length xs \<Longrightarrow> map (\<lambda>i. g (xs ! i)) [0..<n] = map g (take n xs)"
  by (simp add: list_eq_iff_nth_eq)

lemma fill_demand_eq:
  assumes "n \<le> length xs"
  shows "fill_demand xs n (Some a) (with_block a (replicate n 0) h) = Some (with_block a (map s32 (take n xs)) h)"
proof -
  let ?f = "filled (\<lambda>i. s32 (xs ! i)) 0 n"
  have "k \<le> n \<Longrightarrow> for_each (\<lambda>i h. do { x \<leftarrow> rd xs i; setIntArrayElement h (Some a) (s32 x) (int i) }) [0..<k]
      (with_block a (replicate n 0) h) = Some (with_block a (?f k) h)" for k
  proof (induction k)
    case (Suc k)
    then show ?case using assms filled_Suc [of k n "\<lambda>i. s32 (xs ! i)" 0]
      by (simp only: for_each_upt_Suc) (simp add: setIntArrayElement_def set_eq)
  qed simp
  from this [of n] show ?thesis using assms by (simp add: fill_demand_def map_take_nth)
qed

definition node_ok :: "node \<Rightarrow> bool" where
  "node_ok nd \<longleftrightarrow> (let n = length (ResourceCapacity nd)
     in n \<le> length (ResourceOverflow nd) \<and> (\<forall>us. ResourceUsage nd = Some us \<longrightarrow> n \<le> length us))"

lemma fill_node_eq:
  assumes ok: "node_ok nd" and n: "n = length (ResourceCapacity nd)" and ne: "c \<noteq> u"
  shows "for_each (fill_node nd (Some c) (Some v) (Some u)) [0..<n]
      (with_block u (replicate n 0) (with_block c (replicate n 0) hi), with_block v (replicate n False) hb) =
    Some (with_block u (case ResourceUsage nd of None \<Rightarrow> replicate n 0 | Some us \<Rightarrow> map s32 (take n us))
            (with_block c (map s32 (ResourceCapacity nd)) hi), with_block v (take n (ResourceOverflow nd)) hb)"
proof -
  let ?C = "filled (\<lambda>i. s32 (ResourceCapacity nd ! i)) 0 n" and ?O = "filled (\<lambda>i. ResourceOverflow nd ! i) False n"
  let ?U = "\<lambda>k. case ResourceUsage nd of None \<Rightarrow> replicate n 0 | Some us \<Rightarrow> filled (\<lambda>i. s32 (us ! i)) 0 n k"
  have len: "n \<le> length (ResourceOverflow nd)" "\<And>us. ResourceUsage nd = Some us \<Longrightarrow> n \<le> length us"
    using ok n by (auto simp: node_ok_def Let_def)
  have step: "fill_node nd (Some c) (Some v) (Some u) k (with_block u (?U k) (with_block c (?C k) hi), with_block v (?O k) hb) =
      Some (with_block u (?U (Suc k)) (with_block c (?C (Suc k)) hi), with_block v (?O (Suc k)) hb)" if "k < n" for k
  proof -
    have set_c: "setIntArrayElement (with_block u y (with_block c (?C k) hi)) (Some c) (s32 (ResourceCapacity nd ! k)) (int k)
        = Some (with_block u y (with_block c (?C (Suc k)) hi))" for y
      unfolding with_block_swap [OF ne [symmetric]] using that filled_Suc [OF that, of "\<lambda>i. s32 (ResourceCapacity nd ! i)" 0]
      by (simp add: setIntArrayElement_def set_eq)
    have set_v: "setBoolArrayElement (with_block v (?O k) hb) (Some v) (ResourceOverflow nd ! k) (int k) = Some (with_block v (?O (Suc k)) hb)"
      using that filled_Suc [OF that, of "\<lambda>i. ResourceOverflow nd ! i" False] by (simp add: setBoolArrayElement_def set_eq)
    show ?thesis
    proof (cases "ResourceUsage nd")
      case None
      then show ?thesis using that len(1) n set_c set_v by (simp add: fill_node_def)
    next
      case (Some us)
      have "setIntArrayElement (with_block u (?U k) (with_block c (?C k) hi)) (Some u) (s32 (us ! k)) (int k)
          = Some (with_block u (?U (Suc k)) (with_block c (?C k) hi))"
        using that Some filled_Suc [OF that, of "\<lambda>i. s32 (us ! i)" 0] by (simp add: setIntArrayElement_def set_eq)
      then show ?thesis using that len n set_c set_v Some by (simp add: fill_node_def)
    qed
  qed
  have "k \<le> n \<Longrightarrow> for_each (fill_node nd (Some c) (Some v) (Some u)) [0..<k]
      (with_block u (replicate n 0) (with_block c (replicate n 0) hi), with_block v (replicate n False) hb) =
    Some (with_block u (?U k) (with_block c (?C k) hi), with_block v (?O k) hb)" for k
  proof (induction k)
    case 0
    then show ?case by (simp split: option.split)
  next
    case (Suc k)
    then show ?case using step [of k] by (simp only: for_each_upt_Suc) simp
  qed
  from this [of n] show ?thesis using len n map_take_nth [of n "ResourceOverflow nd" "\<lambda>x. x"]
    by (simp add: map_take_nth split: option.split)
qed

lemma array_of_block [simp]: "array_of (with_block a xs h) (Some a) = Some xs"
  by (simp add: array_of_def)

lemma array_of_other: "a \<noteq> b \<Longrightarrow> array_of (with_block b ys h) (Some a) = array_of h (Some a)"
  by (simp add: array_of_def)

text \<open>A node that is reported reaches the updater with its amounts cut to 32 bits, and no array is left over.\<close>

lemma StateUpdateNode_eq:
  assumes ok: "node_ok nd" and n: "n = length (ResourceCapacity nd)" "0 < n" and h: "gheap_ok (c_ints c)" "gheap_ok (c_bools c)"
  shows "StateUpdateNode nd c =
    do { w \<leftarrow> stateupdater_updatePE (c_world c) (node_ID nd) (map s32 (ResourceCapacity nd)) (Some (take n (ResourceOverflow nd)))
           (map_option (\<lambda>us. map s32 (take n us)) (ResourceUsage nd)) n;
         Some (True, c\<lparr>c_world := w, c_ints := spent 2 (c_ints c), c_bools := spent (Suc 0) (c_bools c)\<rparr>) }"
proof -
  let ?c = "gfresh (c_ints c)" and ?v = "gfresh (c_bools c)"
  let ?u = "Suc ?c"
  let ?U = "case ResourceUsage nd of None \<Rightarrow> replicate n 0 | Some us \<Rightarrow> map s32 (take n us)" and ?C = "map s32 (ResourceCapacity nd)"
  let ?i = "spent 2 (c_ints c)" and ?b = "spent (Suc 0) (c_bools c)"
  have two: "spent (Suc 0) (with_block ?c x (spent (Suc 0) (c_ints c))) = with_block ?c x ?i" for x
    by (simp add: spent_def with_block_def)
  have fill: "for_each (fill_node nd (Some ?c) (Some ?v) (Some ?u)) [0..<n]
      (with_block ?u (replicate n 0) (with_block ?c (replicate n 0) ?i), with_block ?v (replicate n False) ?b)
      = Some (with_block ?u ?U (with_block ?c ?C ?i), with_block ?v (take n (ResourceOverflow nd)) ?b)"
    by (rule fill_node_eq [OF ok n(1)]) simp
  have free_u: "freeIntArray (with_block ?u x (with_block ?c ?C ?i)) (Some ?u) = Some (with_block ?c ?C ?i)" for x
    using h(1) by (simp add: freeIntArray_def free_array_def with_block_def fresh_block spent_def fun_upd_idem fun_upd_twist)
  have frees: "freeBoolArray (with_block ?v (take n (ResourceOverflow nd)) ?b) (Some ?v) = Some ?b"
    "freeIntArray (with_block ?c ?C ?i) (Some ?c) = Some ?i"
    using free_eq [OF h(2), of ?v _ "Suc 0"] free_eq [OF h(1), of ?c _ 2] by (simp_all add: freeIntArray_def freeBoolArray_def)
  have cap: "array_of (with_block ?u x (with_block ?c ?C ?i)) (Some ?c) = Some ?C" for x by (simp add: array_of_other)
  have use: "(if ResourceUsage nd \<noteq> None then Some ?U else None) = map_option (\<lambda>us. map s32 (take n us)) (ResourceUsage nd)"
    by (simp split: option.split)
  show ?thesis
    using n fill free_u frees cap use
    by (simp add: StateUpdateNode_def makeIntArray_def makeBoolArray_def make_eq two Let_def)
qed

lemma StateUpdatePod_eq:
  assumes n: "n = length (ps_ResourceDemand ps)" "0 < n" and h: "gheap_ok (c_ints c)"
  shows "StateUpdatePod ps c =
    do { w \<leftarrow> stateupdater_updateLE (c_world c) (ps_ID ps) (ps_NodeID ps) (map s32 (ps_ResourceDemand ps)) n;
         Some (True, c\<lparr>c_world := w, c_ints := spent (Suc 0) (c_ints c)\<rparr>) }"
  using n fill_demand_eq [of n "ps_ResourceDemand ps" "gfresh (c_ints c)" "spent (Suc 0) (c_ints c)"] free_eq [OF h order.refl, of _ "Suc 0"]
  by (simp add: StateUpdatePod_def makeIntArray_def freeIntArray_def make_eq Let_def)

lemma name_loop:
  assumes "sys_ok m cs"
  shows "for_each (\<lambda>i ns. do { nm \<leftarrow> cloudsystem_getPEname_byindex m cs (int i);
      Some (ns @ [case nm of None \<Rightarrow> [] | Some s \<Rightarrow> s]) }) [0..<cloudsystem_getnumPEs cs] [] = Some (map (pe_name m) (cs_pes cs))"
proof -
  let ?f = "\<lambda>i ns. do { nm \<leftarrow> cloudsystem_getPEname_byindex m cs (int i); Some (ns @ [case nm of None \<Rightarrow> [] | Some s \<Rightarrow> s]) }"
  have name: "cloudsystem_getPEname_byindex m cs (int i) = Some (Some (pe_name m (cs_pes cs ! i)))" if i: "i < length (cs_pes cs)" for i
  proof -
    obtain v where v: "pes cs = Some v" using sys_okD(2) [OF assms] by blast
    obtain P where "h_pe m (cs_pes cs ! i) = Some P" using sys_okD(5) [OF assms, of "cs_pes cs ! i"] i by auto
    then show ?thesis using vec_getPE [OF assms v i] v
      by (simp add: cloudsystem_getPEname_byindex_def cloudsystem_getPE_byindex_def pe_getname_def pe_name_def)
  qed
  have "k \<le> length (cs_pes cs) \<Longrightarrow> for_each ?f [0..<k] [] = Some (map (pe_name m) (take k (cs_pes cs)))" for k
  proof (induction k)
    case (Suc k)
    then show ?case using name [of k] by (simp only: for_each_upt_Suc) (simp add: take_Suc_conv_app_nth)
  qed simp
  then show ?thesis using getnumPEs_eq [OF assms] by simp
qed

lemma rank_loop:
  assumes "length ns = length v"
  shows "for_each (\<lambda>i rm. do { x \<leftarrow> rd v i; nm \<leftarrow> rd ns i; Some (rm(nm \<mapsto> x)) }) [0..<length v] Map.empty = Some (map_of (rev (zip ns v)))"
proof -
  have "k \<le> length v \<Longrightarrow> for_each (\<lambda>i rm. do { x \<leftarrow> rd v i; nm \<leftarrow> rd ns i; Some (rm(nm \<mapsto> x)) }) [0..<k] Map.empty
      = Some (map_of (rev (take k (zip ns v))))" for k
  proof (induction k)
    case (Suc k)
    then show ?case using assms by (simp only: for_each_upt_Suc) (simp add: take_Suc_conv_app_nth fun_upd_def)
  qed simp
  from this [of "length v"] show ?thesis using assms by simp
qed

lemma GetPodRanks_eq:
  assumes w: "c_world c = (m, cs, su)" "sys_ok m cs" and n: "n = c_numResources c" "n \<le> length (pr_ResourceDemand pr)"
    and h: "gheap_ok (c_ints c)"
    and ev: "evaluate_le n (c_eval c) (pr_ID pr) (map s32 (take n (pr_ResourceDemand pr))) (m, cs, su) = Some (Some val, w')"
    and val: "length val = length (cs_pes cs)"
  shows "GetPodRanks pr c = Some (map_of (zip (map (pe_name m) (cs_pes cs)) val), c\<lparr>c_world := w', c_ints := spent (Suc 0) (c_ints c)\<rparr>)"
proof -
  let ?d = "map s32 (take n (pr_ResourceDemand pr))"
  obtain E where E: "le_create (pr_ID pr) ?d n = Some E" using ev by (cases "le_create (pr_ID pr) ?d n") (auto simp: evaluate_le_def)
  obtain e m1 where new: "new_le m E = (e, m1)" by force
  obtain m2 cs2 su2 m3 where e: "evaluator_eval (c_eval c) (m1, cs, su) (Some e) = Some (Some val, m2, cs2, su2)"
    "le_destroy m2 (Some e) = Some m3" "w' = (m3, cs2, su2)"
    using ev E new by (auto simp: evaluate_le_def bind_eq_Some_conv)
  have d: "distinct (map (pe_name m) (cs_pes cs))" using sys_okD(3) [OF w(2)] .
  have "map_of (rev (zip (map (pe_name m) (cs_pes cs)) val)) = map_of (zip (map (pe_name m) (cs_pes cs)) val)"
    using d val map_of_inject_set [of "rev (zip (map (pe_name m) (cs_pes cs)) val)" "zip (map (pe_name m) (cs_pes cs)) val"]
    by (simp add: rev_map [symmetric])
  then have ranks: "for_each (\<lambda>i rm. do { x \<leftarrow> rd val i; nm \<leftarrow> rd (map (pe_name m) (cs_pes cs)) i; Some (rm(nm \<mapsto> x)) }) [0..<length (cs_pes cs)] Map.empty
      = Some (map_of (zip (map (pe_name m) (cs_pes cs)) val))" using rank_loop [of "map (pe_name m) (cs_pes cs)" val] val by simp
  show ?thesis
    using w(1) name_loop [OF w(2)] getnumPEs_eq [OF w(2)] n fill_demand_eq [OF n(2), of "gfresh (c_ints c)" "spent (Suc 0) (c_ints c)"]
      free_eq [OF h order.refl, of _ "Suc 0"] E new e ranks
    by (simp add: GetPodRanks_def GetNumResources_def makeIntArray_def freeIntArray_def make_eq Let_def)
qed

subsection \<open>Properties\<close>

text \<open>C22: a node or a pod that the client reports reaches the state updater with the amounts of the Go slices, each cut to 32 bits,
  and without usage when the slice of usages is nil. Every array made for it is freed again, once, and no other array
  is touched.\<close>

theorem client_reports_free_arrays:
  assumes "gheap_ok (c_ints c)" "gheap_ok (c_bools c)" "node_ok nd" "ResourceCapacity nd \<noteq> []" "ps_ResourceDemand ps \<noteq> []"
  shows "(case stateupdater_updatePE (c_world c) (node_ID nd) (map s32 (ResourceCapacity nd))
            (Some (take (length (ResourceCapacity nd)) (ResourceOverflow nd)))
            (map_option (\<lambda>us. map s32 (take (length (ResourceCapacity nd)) us)) (ResourceUsage nd)) (length (ResourceCapacity nd)) of
          None \<Rightarrow> StateUpdateNode nd c = None
        | Some w \<Rightarrow> \<exists>c'. StateUpdateNode nd c = Some (True, c') \<and> c_world c' = w \<and> blocks (c_ints c') = blocks (c_ints c) \<and>
            blocks (c_bools c') = blocks (c_bools c) \<and> gheap_ok (c_ints c') \<and> gheap_ok (c_bools c')) \<and>
      (case stateupdater_updateLE (c_world c) (ps_ID ps) (ps_NodeID ps) (map s32 (ps_ResourceDemand ps)) (length (ps_ResourceDemand ps)) of
          None \<Rightarrow> StateUpdatePod ps c = None
        | Some w \<Rightarrow> \<exists>c'. StateUpdatePod ps c = Some (True, c') \<and> c_world c' = w \<and> blocks (c_ints c') = blocks (c_ints c) \<and> gheap_ok (c_ints c'))"
  using StateUpdateNode_eq [OF assms(3) refl _ assms(1,2)] StateUpdatePod_eq [OF refl _ assms(1), of ps] assms
  by (auto split: option.split)

definition sample_client :: client where
  "sample_client = \<lparr>c_eval = sample_ev, c_world = (sample_mem, sample_cs, stateupdater_create), c_numResources = 2, c_genNum = 0,
     c_ints = \<lparr>blocks = Map.empty, tables = Map.empty, gfresh = 0\<rparr>, c_bools = \<lparr>blocks = Map.empty, tables = Map.empty, gfresh = 0\<rparr>\<rparr>"

theorem client_reports_free_arrays_witness:
  "(\<exists>c'. StateUpdateNode \<lparr>node_ID = ''n1'', ResourceCapacity = [4000, 2 ^ 32 + 7], ResourceOverflow = [False, False],
       ResourceUsage = None\<rparr> sample_client = Some (True, c') \<and> blocks (c_ints c') = Map.empty) \<and>
   (\<exists>c'. StateUpdatePod \<lparr>ps_ID = ''p1'', ps_NodeID = ''n1'', ps_ResourceDemand = [500], ps_IsRunning = True\<rparr> sample_client = Some (True, c') \<and>
       blocks (c_ints c') = Map.empty)"
  using client_reports_free_arrays [of sample_client "\<lparr>node_ID = ''n1'', ResourceCapacity = [4000, 2 ^ 32 + 7],
      ResourceOverflow = [False, False], ResourceUsage = None\<rparr>" "\<lparr>ps_ID = ''p1'', ps_NodeID = ''n1'', ps_ResourceDemand = [500], ps_IsRunning = True\<rparr>"]
  by (auto simp: sample_client_def gheap_ok_def node_ok_def Let_def stateupdater_updatePE_def stateupdater_updateLE_def stateupdater_create_def)

end
