(* ===== verification/Agent.thy ===== *)
theory Agent
  imports Client "HOL-Library.Signed_Division"
begin

section \<open>From Kubernetes objects to priorities (src/pigeon/adapter.go, agent.go, priority.go)\<close>

text \<open>
  The scheduler asks for a score per node. The agent turns each node and the pod into the amounts of the model, has
  the pod evaluated by the library and scales the values to scores from 0 to 10. Quantities of Kubernetes
  enter as the \<open>int64\<close> values that the methods of its library return, \<open>AsInt64\<close> as a pair of a value and a
  flag. Go visits the keys of a map in no particular order: the orders are arguments, and the theorems
  hold for all of them. A value that is not a number is \<^term>\<open>None\<close>. The largest priority of the scheduler's interface is 10,
  and the keys of the annotations are those of \<open>default.go\<close>.
\<close>

subsection \<open>Amounts (adapter.go)\<close>

record container =
  ct_memory :: int
  ct_milliCPU :: int
  ct_gpu :: "int \<times> bool"
  ct_storage :: int

record kube_pod =
  pod_UID :: string
  pod_Containers :: "container list"

record kube_node =
  kn_Name :: string
  kn_milliCPU :: int
  kn_memory :: int
  kn_pods :: int
  kn_gpu :: "int \<times> bool"
  kn_storage :: int
  kn_Annotations :: "string \<rightharpoonup> string"

record resourceRequested =
  rq_milliCPU :: int
  rq_memory :: int
  rq_pod :: int
  rq_gpu :: int
  rq_storage :: int

text \<open>The number of GPUs is added when it could not be read.\<close>

definition add_container :: "container \<Rightarrow> resourceRequested \<Rightarrow> resourceRequested" where
  "add_container ct r =
     (let r = r\<lparr>rq_memory := s64 (rq_memory r + ct_memory ct)\<rparr>;
          r = r\<lparr>rq_milliCPU := s64 (rq_milliCPU r + ct_milliCPU ct)\<rparr>;
          (requestedGPU, ok) = ct_gpu ct;
          r = (if \<not> ok then r\<lparr>rq_gpu := s64 (rq_gpu r + requestedGPU)\<rparr> else r)
      in r\<lparr>rq_storage := s64 (rq_storage r + ct_storage ct)\<rparr>)"

definition getPodResourceRequested :: "kube_pod \<Rightarrow> resourceRequested" where
  "getPodResourceRequested p =
     (fold add_container (pod_Containers p)
        \<lparr>rq_milliCPU = 0, rq_memory = 0, rq_pod = 0, rq_gpu = 0, rq_storage = 0\<rparr>)\<lparr>rq_pod := 1\<rparr>"

definition annotation :: "kube_node \<Rightarrow> string \<Rightarrow> int" where
  "annotation nd k = fst (parse_int (case kn_Annotations nd k of None \<Rightarrow> [] | Some s \<Rightarrow> s))"

type_synonym amounts3 = "int list \<times> bool list \<times> int list"

definition set_amounts :: "nat \<Rightarrow> int \<Rightarrow> int \<Rightarrow> amounts3 \<Rightarrow> amounts3 option" where
  "set_amounts i c u = (\<lambda>(caps, ovfs, uses).
     do { caps \<leftarrow> wr caps i c; ovfs \<leftarrow> wr ovfs i False; uses \<leftarrow> wr uses i u; Some (caps, ovfs, uses) })"

definition MakeNodeTemplate :: "kube_node \<Rightarrow> nat \<Rightarrow> node option" where
  "MakeNodeTemplate nd n =
     do { s \<leftarrow> set_amounts 0 (kn_milliCPU nd) (annotation nd ''requested-cpu'')
                 (replicate n 0, replicate n False, replicate n 0);
          s \<leftarrow> (if 1 < n
               then set_amounts 1 (kn_memory nd sdiv 1024 sdiv 1024) (annotation nd ''requested-memory'' sdiv 1024 sdiv 1024) s
               else Some s);
          s \<leftarrow> (if 2 < n then set_amounts 2 (kn_pods nd) (annotation nd ''requested-pods'') s else Some s);
          s \<leftarrow> (if 3 < n
               then set_amounts 3 (case kn_gpu nd of (totalGPU, ok) \<Rightarrow> if \<not> ok then 0 else totalGPU)
                      (annotation nd ''requested-gpu'') s
               else Some s);
          s \<leftarrow> (if 4 < n
               then set_amounts 4 (kn_storage nd sdiv 1024 sdiv 1024 sdiv 1024)
                      (annotation nd ''requested-ephemeral-storage'' sdiv 1024 sdiv 1024 sdiv 1024) s
               else Some s);
          let (caps, ovfs, uses) = s;
          Some \<lparr>node_ID = kn_Name nd, ResourceCapacity = caps, ResourceOverflow = ovfs, ResourceUsage = Some uses\<rparr> }"

definition CreatePodModel :: "kube_pod \<Rightarrow> nat \<Rightarrow> podrequest option" where
  "CreatePodModel p n =
     do { let r = getPodResourceRequested p;
          let demandCPU = (if rq_milliCPU r = 0 then 10 else rq_milliCPU r);
          let demandMemory = rq_memory r sdiv 1024 sdiv 1024;
          let demandMemory = (if demandMemory = 0 then 16 else demandMemory);
          d \<leftarrow> wr (replicate n 0) 0 demandCPU;
          d \<leftarrow> (if 1 < n then wr d 1 demandMemory else Some d);
          d \<leftarrow> (if 2 < n then wr d 2 (rq_pod r) else Some d);
          d \<leftarrow> (if 3 < n then wr d 3 (rq_gpu r) else Some d);
          d \<leftarrow> (if 4 < n then wr d 4 (rq_storage r) else Some d);
          Some \<lparr>pr_ID = pod_UID p, pr_ResourceDemand = d\<rparr> }"

subsection \<open>The agent (agent.go)\<close>

record agent =
  a_client :: "client option"

definition NewAgent :: "mem \<Rightarrow> string option \<Rightarrow> string \<Rightarrow> string \<Rightarrow> int gheap \<Rightarrow> bool gheap \<Rightarrow> agent option" where
  "NewAgent m configFile numResourcesValue policyObjectiveValue hi hb =
     do { c \<leftarrow> NewClient m configFile numResourcesValue policyObjectiveValue hi hb; Some \<lparr>a_client = Some c\<rparr> }"

definition update_node :: "nat \<Rightarrow> kube_node \<Rightarrow> client \<Rightarrow> client option" where
  "update_node n nd c =
     do { myNode \<leftarrow> MakeNodeTemplate nd n; (ok, c) \<leftarrow> StateUpdateNode myNode c; Some c }"

definition UpdateState :: "int \<Rightarrow> int \<Rightarrow> kube_node list \<Rightarrow> agent \<Rightarrow> stdout \<Rightarrow> (bool \<times> agent \<times> stdout) option" where
  "UpdateState t0 t1 nodes a out = (case a_client a of None \<Rightarrow> Some (False, a, out)
     | Some c \<Rightarrow> do {
         (isStarted, c) \<leftarrow> StateUpdateStart c;
         if \<not> isStarted then Some (False, \<lparr>a_client = Some c\<rparr>, out)
         else do {
           c \<leftarrow> for_each (update_node (GetNumResources c)) nodes c;
           (c, out) \<leftarrow> StateUpdateStop t0 t1 c out;
           Some (True, \<lparr>a_client = Some c\<rparr>, out) } })"

text \<open>The smallest and the largest value seen so far, and whether there was any.\<close>

definition min_max :: "real option \<Rightarrow> real \<times> real \<times> bool \<Rightarrow> real \<times> real \<times> bool" where
  "min_max x = (\<lambda>(minValue, maxValue, isSet).
     (case x of None \<Rightarrow> (minValue, maxValue, isSet)
      | Some v \<Rightarrow> if \<not> isSet then (v, v, True)
                  else (if v < minValue then v else minValue, if v > maxValue then v else maxValue, True)))"

text \<open>\<open>math.Round\<close> rounds half away from zero.\<close>

definition go_round :: "real \<Rightarrow> int" where
  "go_round x = (if x < 0 then \<lceil>x - 1 / 2\<rceil> else \<lfloor>x + 1 / 2\<rfloor>)"

definition rank_value :: "real \<Rightarrow> real \<Rightarrow> real option \<Rightarrow> int" where
  "rank_value maxValue spn x = (case x of None \<Rightarrow> 0
     | Some v \<Rightarrow> if spn = 0 then 10
         else let r = go_round (dadd 1 (ddiv (dmul (dsub 10 1) (dsub maxValue v)) spn));
                  r = (if r < 0 then 0 else r)
              in if r > 10 then 10 else r)"

definition rank_map :: "string list \<Rightarrow> string list \<Rightarrow> (string \<rightharpoonup> real option) \<Rightarrow> (string \<rightharpoonup> int) option" where
  "rank_map ks1 ks2 valueMap =
     do { (minValue, maxValue, _) \<leftarrow> for_each (\<lambda>k s. do { v \<leftarrow> valueMap k; Some (min_max v s) }) ks1 (0, 0, False);
          let spn = dsub maxValue minValue;
          let spn = (if spn < 0 then 0 else spn);
          for_each (\<lambda>k rm. do { v \<leftarrow> valueMap k; Some (rm(k \<mapsto> rank_value maxValue spn v)) }) ks2 Map.empty }"

text \<open>\<^term>\<open>Inl ()\<close> is the error of an agent without a client.\<close>

definition ComputeRank :: "string list \<Rightarrow> string list \<Rightarrow> kube_pod \<Rightarrow> agent \<Rightarrow> ((unit + (string \<rightharpoonup> int)) \<times> agent) option" where
  "ComputeRank ks1 ks2 p a = (case a_client a of None \<Rightarrow> Some (Inl (), a)
     | Some c \<Rightarrow> do {
         podRequest \<leftarrow> CreatePodModel p (GetNumResources c);
         (valueMap, c) \<leftarrow> GetPodRanks podRequest c;
         rm \<leftarrow> rank_map ks1 ks2 valueMap;
         Some (Inr rm, \<lparr>a_client = Some c\<rparr>) })"

subsection \<open>Priorities (priority.go)\<close>

type_synonym hostpriority = "string \<times> int"

definition PriorityFunc :: "int \<Rightarrow> int \<Rightarrow> string list \<Rightarrow> string list \<Rightarrow> string list \<Rightarrow> kube_pod \<Rightarrow> kube_node list \<Rightarrow> agent option \<Rightarrow> stdout \<Rightarrow>
    (hostpriority list \<times> agent option \<times> stdout) option" where
  "PriorityFunc t0 t1 ks1 ks2 ks3 p nodes ag out =
     (case ag of
        Some a \<Rightarrow> do {
          (_, a, out) \<leftarrow> UpdateState t0 t1 nodes a out;
          (rm, a) \<leftarrow> ComputeRank ks1 ks2 p a;
          pl \<leftarrow> (case rm of Inl _ \<Rightarrow> Some (replicate (length nodes) ([], 0))
                 | Inr rm \<Rightarrow> do {
                     (pl, i) \<leftarrow> for_each (\<lambda>k (pl, i). do { v \<leftarrow> rm k; pl \<leftarrow> wr pl i (k, v); Some (pl, Suc i) }) ks3
                       (replicate (length nodes) ([], 0), 0);
                     Some pl });
          Some (pl, Some a, out) }
      | None \<Rightarrow> Some (map (\<lambda>nd. (kn_Name nd, 0)) nodes, None, out))"

subsection \<open>Scores\<close>

lemma go_round_mono: "x \<le> y \<Longrightarrow> go_round x \<le> go_round y"
proof -
  assume le: "x \<le> y"
  show ?thesis
  proof (cases "x < 0 \<and> \<not> y < 0")
    case True
    then have "\<lceil>x - 1 / 2\<rceil> \<le> \<lfloor>y + 1 / 2\<rfloor>" by linarith
    then show ?thesis using True by (simp add: go_round_def)
  next
    case False
    then show ?thesis using le by (auto simp: go_round_def intro!: ceiling_mono floor_mono)
  qed
qed

definition raw_score :: "real \<Rightarrow> real \<Rightarrow> real \<Rightarrow> real" where
  "raw_score mx spn v = dadd 1 (ddiv (dmul (dsub 10 1) (dsub mx v)) spn)"

lemma nine: "dsub 10 1 = 9"
  using dbl_int [of 9] by (simp add: dsub_def)

lemma raw_score_mono:
  assumes "0 < spn" "v \<le> v'"
  shows "raw_score mx spn v' \<le> raw_score mx spn v"
  using assms unfolding raw_score_def nine dadd_def ddiv_def dmul_def dsub_def
  by (intro dbl.mono add_left_mono divide_right_mono mult_left_mono diff_left_mono) (simp_all add: dbl.nonneg)

lemma raw_score_worst: "raw_score v spn v = 1"
  by (simp add: raw_score_def fp_ops)

lemma raw_score_best:
  assumes "0 < spn" "spn = dsub mx v"
  shows "39 / 4 \<le> raw_score mx spn v"
proof -
  have d: "dsub mx v = spn" using assms(2) by simp
  have r: "dbl (35 / 4) = 35 / 4" "dbl (39 / 4) = 39 / 4" using dbl_dyadic [of 35 2] dbl_dyadic [of 39 2] by simp_all
  have "9 * spn * (1 - 1 / 2 ^ 53) \<le> dbl (9 * spn)" using round_bits_error_below [of "9 * spn" 53] assms(1) by (simp add: dbl_def)
  then have "9 * (1 - 1 / 2 ^ 53) \<le> dbl (9 * spn) / spn" using assms(1) by (simp add: field_simps)
  moreover have "35 / 4 \<le> 9 * (1 - 1 / 2 ^ 53 :: real)" by simp
  ultimately have "35 / 4 \<le> dbl (9 * spn) / spn" by linarith
  then have "35 / 4 \<le> dbl (dbl (9 * spn) / spn)" by (metis dbl.mono r(1))
  then have "39 / 4 \<le> 1 + dbl (dbl (9 * spn) / spn)" by simp
  then have "39 / 4 \<le> dbl (1 + dbl (dbl (9 * spn) / spn))" by (metis dbl.mono r(2))
  then show ?thesis by (simp add: raw_score_def nine d dadd_def ddiv_def dmul_def)
qed

lemma rank_value_Some:
  "rank_value mx spn (Some v) = (if spn = 0 then 10 else min 10 (max 0 (go_round (raw_score mx spn v))))"
  by (simp add: rank_value_def raw_score_def Let_def min_def max_def)

lemma rank_value_mono: "0 \<le> spn \<Longrightarrow> v \<le> v' \<Longrightarrow> rank_value mx spn (Some v') \<le> rank_value mx spn (Some v)"
  using go_round_mono [OF raw_score_mono [of spn v v' mx]] by (auto simp: rank_value_Some)

lemma rank_value_worst: "rank_value v spn (Some v) = (if spn = 0 then 10 else 1)"
  by (simp add: rank_value_Some raw_score_worst go_round_def)

lemma rank_value_best:
  assumes "spn = dsub mx v" "0 \<le> spn"
  shows "rank_value mx spn (Some v) = 10"
proof (cases "spn = 0")
  case False
  then have "39 / 4 \<le> raw_score mx spn v" using raw_score_best assms by simp
  then have "10 \<le> go_round (raw_score mx spn v)" using go_round_mono [of "39 / 4"] by (fastforce simp: go_round_def)
  then show ?thesis by (simp add: rank_value_Some)
qed (simp add: rank_value_Some)

text \<open>What the first loop finds: the bounds of the values that are numbers.\<close>

definition bounds_of :: "real set \<Rightarrow> real \<times> real \<times> bool \<Rightarrow> bool" where
  "bounds_of V = (\<lambda>(mn, mx, b). (b \<longleftrightarrow> V \<noteq> {}) \<and> (if b then mn \<in> V \<and> mx \<in> V \<and> (\<forall>v\<in>V. mn \<le> v \<and> v \<le> mx) else mn = 0 \<and> mx = 0))"

lemma min_max_step:
  assumes "bounds_of V s"
  shows "bounds_of (V \<union> set_option x) (min_max x s)"
proof -
  obtain a b c where s: "s = (a, b, c)" by (metis prod_cases3)
  show ?thesis
  proof (cases "V = {}")
    case True
    then show ?thesis using assms by (cases x) (simp_all add: bounds_of_def min_max_def s)
  next
    case False
    then have "c" "a \<in> V" "b \<in> V" "\<And>v. v \<in> V \<Longrightarrow> a \<le> v" "\<And>v. v \<in> V \<Longrightarrow> v \<le> b"
      using assms by (simp_all add: bounds_of_def s)
    note V = this
    show ?thesis
    proof (cases x)
      case None
      then show ?thesis using assms by (simp add: min_max_def s)
    next
      case (Some w)
      have "min_max x s = (min a w, max b w, True)" using V(1) Some by (auto simp: min_max_def s min_def max_def)
      moreover have "min a w \<in> insert w V" "max b w \<in> insert w V" using V(2,3) by (simp_all add: min_def max_def)
      ultimately show ?thesis using V(4,5) Some by (simp add: bounds_of_def min.coboundedI1 max.coboundedI1)
    qed
  qed
qed

lemma min_max_loop:
  assumes "bounds_of V s" "set ks \<subseteq> dom m"
  shows "\<exists>s'. for_each (\<lambda>k s. do { v \<leftarrow> m k; Some (min_max v s) }) ks s = Some s' \<and> bounds_of (V \<union> {v. \<exists>k\<in>set ks. m k = Some (Some v)}) s'"
  using assms
proof (induction ks arbitrary: V s)
  case (Cons k ks)
  obtain x where x: "m k = Some x" using Cons.prems(2) by auto
  have "bounds_of (V \<union> set_option x) (min_max x s)" by (rule min_max_step [OF Cons.prems(1)])
  moreover have "V \<union> set_option x \<union> {v. \<exists>k\<in>set ks. m k = Some (Some v)} = V \<union> {v. \<exists>k\<in>set (k # ks). m k = Some (Some v)}"
    using x by (cases x) auto
  ultimately show ?case using Cons.IH [of "V \<union> set_option x" "min_max x s"] Cons.prems(2) x by simp
qed simp

lemma map_loop:
  assumes "set ks \<subseteq> dom m"
  shows "for_each (\<lambda>k rm. do { v \<leftarrow> m k; Some (rm(k \<mapsto> f v)) }) ks r = Some (\<lambda>k. if k \<in> set ks then map_option f (m k) else r k)"
  using assms
proof (induction ks arbitrary: r)
  case (Cons k ks)
  obtain x where "m k = Some x" using Cons.prems by auto
  then show ?case using Cons by (auto simp: fun_eq_iff)
qed simp

lemma rank_map_eq:
  assumes "set ks1 = dom m" "set ks2 = dom m"
  obtains mx spn where "rank_map ks1 ks2 m = Some (\<lambda>k. map_option (rank_value mx spn) (m k))" "0 \<le> spn"
    "\<And>k v. m k = Some (Some v) \<Longrightarrow> \<exists>j w. m j = Some (Some w) \<and> spn = dsub mx w \<and> w \<le> v"
    "\<And>k v. m k = Some (Some v) \<Longrightarrow> \<exists>j. m j = Some (Some mx) \<and> v \<le> mx"
proof -
  let ?V = "{v. \<exists>k. m k = Some (Some v)}"
  have "bounds_of {} (0, 0, False)" by (simp add: bounds_of_def)
  from min_max_loop [OF this, of ks1 m] assms(1) obtain mn mx b where
    s: "for_each (\<lambda>k s. do { v \<leftarrow> m k; Some (min_max v s) }) ks1 (0, 0, False) = Some (mn, mx, b)"
      "bounds_of {v. \<exists>k\<in>dom m. m k = Some (Some v)} (mn, mx, b)" by auto
  have V: "{v. \<exists>k\<in>dom m. m k = Some (Some v)} = ?V" by blast
  have le: "0 \<le> dsub mx mn" using s(2) by (auto simp: bounds_of_def dsub_def V intro!: dbl.nonneg split: if_splits)
  have "rank_map ks1 ks2 m = Some (\<lambda>k. if k \<in> dom m then map_option (rank_value mx (dsub mx mn)) (m k) else None)"
    using s(1) map_loop [of ks2 m "rank_value mx (dsub mx mn)" Map.empty] assms(2) le by (simp add: rank_map_def Let_def)
  also have "(\<lambda>k. if k \<in> dom m then map_option (rank_value mx (dsub mx mn)) (m k) else None) = (\<lambda>k. map_option (rank_value mx (dsub mx mn)) (m k))"
    by (auto simp: fun_eq_iff)
  finally show thesis using that [of mx "dsub mx mn"] le s(2) unfolding V by (fastforce simp: bounds_of_def split: if_splits)
qed

text \<open>The scores do not depend on the orders: they are given by the largest and the smallest value.\<close>

definition values_of :: "(string \<rightharpoonup> real option) \<Rightarrow> real set" where
  "values_of m = {v. \<exists>k. m k = Some (Some v)}"

definition scores_of :: "(string \<rightharpoonup> real option) \<Rightarrow> string \<rightharpoonup> int" where
  "scores_of m = (\<lambda>k. map_option (rank_value (Max (values_of m)) (dsub (Max (values_of m)) (Min (values_of m)))) (m k))"

lemma values_finite: "finite (dom m) \<Longrightarrow> finite (values_of m)"
  by (rule finite_subset [of _ "(\<lambda>k. the (the (m k))) ` dom m"]) (force simp: values_of_def image_iff)+

lemma rank_map_scores_of:
  assumes "set ks1 = dom m" "set ks2 = dom m"
  shows "rank_map ks1 ks2 m = Some (scores_of m)"
proof -
  obtain mx spn where r: "rank_map ks1 ks2 m = Some (\<lambda>k. map_option (rank_value mx spn) (m k))"
    and least: "\<And>k v. m k = Some (Some v) \<Longrightarrow> \<exists>j w. m j = Some (Some w) \<and> spn = dsub mx w \<and> w \<le> v"
    and greatest: "\<And>k v. m k = Some (Some v) \<Longrightarrow> \<exists>j. m j = Some (Some mx) \<and> v \<le> mx"
    by (rule rank_map_eq [OF assms]) blast
  have fin: "finite (values_of m)" using assms(1) by (metis values_finite List.finite_set)
  have "rank_value mx spn (Some v) = rank_value (Max (values_of m)) (dsub (Max (values_of m)) (Min (values_of m))) (Some v)"
    if v: "m k = Some (Some v)" for k v
  proof -
    have ne: "v \<in> values_of m" using v by (auto simp: values_of_def)
    have mx: "Max (values_of m) = mx" using greatest greatest [OF v] by (intro Max_eqI fin) (auto simp: values_of_def)
    obtain i where "m i = Some (Some (Min (values_of m)))" using Min_in [OF fin] ne by (auto simp: values_of_def)
    from least [OF this] obtain j w where w: "m j = Some (Some w)" "spn = dsub mx w" "w \<le> Min (values_of m)" by blast
    then have "w = Min (values_of m)" using Min_le [OF fin, of w] by (auto simp: values_of_def)
    then show ?thesis using mx w(2) by simp
  qed
  then have "map_option (rank_value mx spn) (m k) = scores_of m k" for k
    by (cases "m k"; cases "the (m k)") (auto simp: scores_of_def rank_value_def [of _ _ None])
  then show ?thesis using r by (simp add: fun_eq_iff)
qed

definition scores_ok :: "(string \<rightharpoonup> real option) \<Rightarrow> (string \<rightharpoonup> int) \<Rightarrow> bool" where
  "scores_ok m rm \<longleftrightarrow> dom rm = dom m \<and> (\<forall>k. m k = Some None \<longrightarrow> rm k = Some 0) \<and>
     (\<forall>k v. m k = Some (Some v) \<longrightarrow> 1 \<le> the (rm k) \<and> the (rm k) \<le> 10) \<and>
     (\<forall>j k v w. m j = Some (Some v) \<and> m k = Some (Some w) \<and> v \<le> w \<longrightarrow> the (rm k) \<le> the (rm j)) \<and>
     (\<forall>k v. m k = Some (Some v) \<and> (\<forall>j w. m j = Some (Some w) \<longrightarrow> v \<le> w) \<longrightarrow> rm k = Some 10) \<and>
     (\<forall>j k v w. m j = Some (Some v) \<and> m k = Some (Some w) \<and> v < w \<and> (\<forall>i u. m i = Some (Some u) \<longrightarrow> u \<le> w) \<longrightarrow> rm k = Some 1)"

lemma rank_map_ok:
  assumes "set ks1 = dom m" "set ks2 = dom m"
  shows "\<exists>rm. rank_map ks1 ks2 m = Some rm \<and> scores_ok m rm"
proof -
  obtain mx spn where r: "rank_map ks1 ks2 m = Some (\<lambda>k. map_option (rank_value mx spn) (m k))" "0 \<le> spn"
    and least: "\<And>k v. m k = Some (Some v) \<Longrightarrow> \<exists>j w. m j = Some (Some w) \<and> spn = dsub mx w \<and> w \<le> v"
    and greatest: "\<And>k v. m k = Some (Some v) \<Longrightarrow> \<exists>j. m j = Some (Some mx) \<and> v \<le> mx"
    by (rule rank_map_eq [OF assms]) blast
  have low: "1 \<le> rank_value mx spn (Some v)" if "m k = Some (Some v)" for k v
    using rank_value_mono [OF r(2), of v mx mx] greatest [OF that] by (auto simp: rank_value_worst split: if_splits)
  have high: "rank_value mx spn (Some v) \<le> 10" for v by (simp add: rank_value_Some)
  have best: "rank_value mx spn (Some v) = 10" if "m k = Some (Some v)" "\<forall>j w. m j = Some (Some w) \<longrightarrow> v \<le> w" for k v
    using rank_value_best [of spn mx v] least [OF that(1)] that(2) r(2) by (metis order.antisym)
  have worst: "rank_value mx spn (Some w) = 1"
    if vw: "m j = Some (Some v)" "m k = Some (Some w)" "v < w" "\<forall>i u. m i = Some (Some u) \<longrightarrow> u \<le> w" for j k v w
  proof -
    have mx: "mx = w" using greatest [OF vw(2)] vw(4) by (metis order.antisym)
    obtain u where "spn = dsub mx u" "u \<le> v" using least [OF vw(1)] by blast
    then have "0 < spn" using dbl_pos [of "mx - u"] vw(3) mx by (simp add: dsub_def)
    then show ?thesis by (simp add: mx rank_value_worst)
  qed
  have "scores_ok m (\<lambda>k. map_option (rank_value mx spn) (m k))"
    unfolding scores_ok_def
  proof (intro conjI allI impI, goal_cases)
    case (7 j k v w)
    then show ?case using worst [of j v k w] by simp
  qed (use low best high rank_value_mono [OF r(2)] in \<open>auto simp: dom_def rank_value_def [of _ _ None]\<close>)
  then show ?thesis using r(1) by blast
qed

subsection \<open>Properties\<close>

text \<open>C21: the agent turns the values of the nodes into scores that do not depend on the orders in which it visits the nodes: the score of
  a value is the formula of the code at the largest and the smallest value. A node without a value
  scores 0, every other node scores from 1 to 10; a node with a smaller value never scores less, a node with the smallest
  value scores 10, and a node with the largest value scores 1 unless all values are the same, when they all score 10.\<close>

theorem rank_map_scores:
  assumes "finite (dom m)"
  shows "\<exists>rm. (\<forall>ks1 ks2. set ks1 = dom m \<and> set ks2 = dom m \<longrightarrow> rank_map ks1 ks2 m = Some rm) \<and>
     dom rm = dom m \<and> (\<forall>k. m k = Some None \<longrightarrow> rm k = Some 0) \<and>
     (\<forall>k v. m k = Some (Some v) \<longrightarrow>
        rm k = Some (rank_value (Max (values_of m)) (dsub (Max (values_of m)) (Min (values_of m))) (Some v))) \<and>
     (\<forall>k v. m k = Some (Some v) \<longrightarrow> 1 \<le> the (rm k) \<and> the (rm k) \<le> 10) \<and>
     (\<forall>j k v w. m j = Some (Some v) \<and> m k = Some (Some w) \<and> v \<le> w \<longrightarrow> the (rm k) \<le> the (rm j)) \<and>
     (\<forall>k v. m k = Some (Some v) \<and> (\<forall>j w. m j = Some (Some w) \<longrightarrow> v \<le> w) \<longrightarrow> rm k = Some 10) \<and>
     (\<forall>j k v w. m j = Some (Some v) \<and> m k = Some (Some w) \<and> v < w \<and> (\<forall>i u. m i = Some (Some u) \<longrightarrow> u \<le> w) \<longrightarrow> rm k = Some 1)"
proof -
  obtain ks where ks: "set ks = dom m" using finite_list [OF assms] by blast
  then have "scores_ok m (scores_of m)" using rank_map_ok [OF ks ks] rank_map_scores_of [OF ks ks] by auto
  moreover have "\<forall>ks1 ks2. set ks1 = dom m \<and> set ks2 = dom m \<longrightarrow> rank_map ks1 ks2 m = Some (scores_of m)" using rank_map_scores_of by blast
  moreover have "\<forall>k v. m k = Some (Some v) \<longrightarrow>
      scores_of m k = Some (rank_value (Max (values_of m)) (dsub (Max (values_of m)) (Min (values_of m))) (Some v))" by (simp add: scores_of_def)
  ultimately show ?thesis unfolding scores_ok_def by (intro exI [of _ "scores_of m"]) (elim conjE, intro conjI)
qed

theorem rank_map_scores_witness:
  "\<exists>rm. rank_map [''a'', ''b'', ''c''] [''c'', ''a'', ''b''] [''a'' \<mapsto> Some 3, ''b'' \<mapsto> None, ''c'' \<mapsto> Some 7] = Some rm \<and>
     rank_map [''c'', ''b'', ''a''] [''a'', ''b'', ''c''] [''a'' \<mapsto> Some 3, ''b'' \<mapsto> None, ''c'' \<mapsto> Some 7] = Some rm \<and>
     rm ''a'' = Some 10 \<and> rm ''b'' = Some 0 \<and> rm ''c'' = Some 1"
proof -
  define m where "m = [''a'' \<mapsto> Some (3::real), ''b'' \<mapsto> None, ''c'' \<mapsto> Some 7]"
  have d: "finite (dom m)" by (simp add: m_def)
  from rank_map_scores [OF d] obtain rm where r: "\<forall>ks1 ks2. set ks1 = dom m \<and> set ks2 = dom m \<longrightarrow> rank_map ks1 ks2 m = Some rm"
    and b: "\<forall>k. m k = Some None \<longrightarrow> rm k = Some 0"
    and a: "\<forall>k v. m k = Some (Some v) \<and> (\<forall>j w. m j = Some (Some w) \<longrightarrow> v \<le> w) \<longrightarrow> rm k = Some 10"
    and c: "\<forall>j k v w. m j = Some (Some v) \<and> m k = Some (Some w) \<and> v < w \<and> (\<forall>i u. m i = Some (Some u) \<longrightarrow> u \<le> w) \<longrightarrow> rm k = Some 1"
    by (elim exE conjE) (rule that)
  have "rm ''b'' = Some 0" using b by (simp add: m_def)
  moreover have "rm ''a'' = Some 10" by (rule a [rule_format, of _ 3]) (auto simp: m_def split: if_splits)
  moreover have "rm ''c'' = Some 1" by (rule c [rule_format, of "''a''" 3 _ 7]) (auto simp: m_def split: if_splits)
  moreover have "rank_map [''a'', ''b'', ''c''] [''c'', ''a'', ''b''] m = Some rm" "rank_map [''c'', ''b'', ''a''] [''a'', ''b'', ''c''] m = Some rm"
    by (intro r [rule_format]; auto simp: m_def)+
  ultimately show ?thesis unfolding m_def by blast
qed

end
