(* ===== verification/Priority.thy ===== *)
theory Priority
  imports Agent
begin

section \<open>The priorities are right\<close>

text \<open>
  The Go agent from end to end: an invariant of the agent between two requests, that a new agent has it and every
  request keeps it, and what the priorities say about the nodes.
\<close>

subsection \<open>Overflow is never allowed\<close>

text \<open>No function of the library changes the overflow flags of a PE; those the agent reports are not set.\<close>

definition ovf_of :: "mem \<Rightarrow> nat \<rightharpoonup> bool list" where
  "ovf_of m p = do { P \<leftarrow> h_pe m p; R \<leftarrow> pe_resource P; Some (allowoverflow R) }"

fun world_ovf :: "world \<Rightarrow> nat \<rightharpoonup> bool list" where
  "world_ovf (m, cs, su) = ovf_of m"

lemma ovf_simps [simp]:
  "ovf_of (m\<lparr>h_rng := r\<rparr>) = ovf_of m" "ovf_of (put_le m e E) = ovf_of m"
  "ovf_of (put_pe m p P) = (ovf_of m)(p := do { R \<leftarrow> pe_resource P; Some (allowoverflow R) })"
  by (auto simp: ovf_of_def put_le_def put_pe_def fun_eq_iff)

lemma ovf_same: "h_pe m p = Some P \<Longrightarrow> pe_resource P = Some R \<Longrightarrow> (ovf_of m)(p \<mapsto> allowoverflow R) = ovf_of m"
  by (simp add: ovf_of_def fun_eq_iff)

lemma resource_ovf:
  "resource_use R E = Some (b, R') \<Longrightarrow> allowoverflow R' = allowoverflow R"
  "resource_release R E = Some (b, R') \<Longrightarrow> allowoverflow R' = allowoverflow R"
  "resource_setcapacity R c = Some R' \<Longrightarrow> allowoverflow R' = allowoverflow R"
  "resource_setusage R c = Some R' \<Longrightarrow> allowoverflow R' = allowoverflow R"
  by (auto simp: resource_use_def resource_release_def resource_setcapacity_def resource_setusage_def bind_eq_Some_conv)

lemma removeLE_ovf: "pe_removeLE m p e b = Some (x, m') \<Longrightarrow> ovf_of m' = ovf_of m"
  by (auto simp: pe_removeLE_def Let_def bind_eq_Some_conv ovf_same dest: resource_ovf(2) split: if_splits)

lemma placeLE_ovf: "pe_placeLE m p e b = Some (x, m') \<Longrightarrow> ovf_of m' = ovf_of m"
  by (auto simp: pe_placeLE_def Let_def bind_eq_Some_conv ovf_same dest: resource_ovf(1) split: if_splits)

lemma clear_ovf: "pe_clear m p b = Some m' \<Longrightarrow> ovf_of m' = ovf_of m"
  by (clarsimp simp: pe_clear_def Let_def bind_eq_Some_conv, drule for_each_keeps [where g = ovf_of])
    (auto simp: bind_eq_Some_conv dest: removeLE_ovf)

lemma removePE_ovf: "cloudsystem_remove_PE m cs k = Some (x, m', cs') \<Longrightarrow> ovf_of m' = ovf_of m"
  by (auto simp: cloudsystem_remove_PE_def Let_def bind_eq_Some_conv dest: clear_ovf split: option.splits)

lemma setindex_ovf: "pe_setindexinsystem m p i = Some m' \<Longrightarrow> ovf_of m' = ovf_of m"
  by (auto simp: pe_setindexinsystem_def bind_eq_Some_conv ovf_of_def put_pe_def fun_eq_iff)

lemma resetpes_ovf: "cloudsystem_resetpes m cs = Some (m', cs') \<Longrightarrow> ovf_of m' = ovf_of m"
  unfolding cloudsystem_resetpes_def
  by (clarsimp simp: Let_def bind_eq_Some_conv split: if_splits option.splits,
      drule for_each_keeps [where g = "\<lambda>(h, m). ovf_of m"]) (auto simp: bind_eq_Some_conv dest!: setindex_ovf)

lemma stop_pes_ovf: "stop_pes w = Some w' \<Longrightarrow> world_ovf w' = world_ovf w"
  unfolding stop_pes_def
  by (cases w, clarsimp simp: bind_eq_Some_conv Let_def, drule for_each_keeps [where g = world_ovf])
    (auto simp: bind_eq_Some_conv dest: removePE_ovf split: if_splits)

lemma stop_les_ovf: "stop_les w = Some w' \<Longrightarrow> world_ovf w' = world_ovf w"
  unfolding stop_les_def
  by (cases w, clarsimp simp: bind_eq_Some_conv Let_def, drule for_each_keeps [where g = world_ovf])
    (auto simp: bind_eq_Some_conv dest: removeLE_ovf split: if_splits option.splits)

lemma stop_placements_ovf: "stop_placements w = Some w' \<Longrightarrow> world_ovf w' = world_ovf w"
  unfolding stop_placements_def
  by (cases w, clarsimp simp: bind_eq_Some_conv Let_def, drule for_each_keeps [where g = world_ovf])
    (auto simp: bind_eq_Some_conv dest!: placeLE_ovf split: if_splits option.splits)

lemma stop_ovf: "stateupdater_stop w = Some w' \<Longrightarrow> world_ovf w' = world_ovf w"
  by (cases w) (fastforce simp: stateupdater_stop_def bind_eq_Some_conv
      dest: stop_pes_ovf resetpes_ovf stop_les_ovf stop_placements_ovf split: if_splits)

lemma fill_ovf: "fill_lemap m cs h = Some (h', m') \<Longrightarrow> ovf_of m' = ovf_of m"
proof -
  assume "fill_lemap m cs h = Some (h', m')"
  then obtain v where v: "for_each (\<lambda>i (h, m). do { pei \<leftarrow> vector_get v (int i); P \<leftarrow> h_pe m pei;
      let les = pe_gethostedLE P;
      for_each (\<lambda>j (h, m). do { lej \<leftarrow> vector_get les (int j); E \<leftarrow> h_le m lej;
        (h, r) \<leftarrow> hashmap_insert h (Some lej) (le_getname E) (h_rng m); Some (h, m\<lparr>h_rng := r\<rparr>) }) [0..<vector_getsize les] (h, m) })
      [0..<vector_getsize v] (h, m) = Some (h', m')" by (auto simp: fill_lemap_def bind_eq_Some_conv)
  have "(\<lambda>(h, m). ovf_of m) (h', m') = (\<lambda>(h, m). ovf_of m) (h, m)"
  proof (rule for_each_keeps [OF v], clarsimp simp: Let_def bind_eq_Some_conv, goal_cases)
    case (1 i h m h' m' p P)
    then show ?case by - (drule for_each_keeps [where g = "\<lambda>(h, m). ovf_of m"], auto simp: bind_eq_Some_conv)
  qed
  then show ?thesis by simp
qed

lemma start_ovf: "stateupdater_start w g = Some (b, w') \<Longrightarrow> world_ovf w' = world_ovf w"
  by (cases w) (fastforce simp: stateupdater_start_def bind_eq_Some_conv dest: stop_ovf fill_ovf split: if_splits)

definition strict :: "world \<Rightarrow> bool" where
  "strict w \<longleftrightarrow> (\<forall>p o'. world_ovf w p = Some o' \<longrightarrow> True \<notin> set o')"

lemma create_strict: "resource_create n cap (Some (replicate n False)) = Some R \<Longrightarrow> True \<notin> set (allowoverflow R)"
proof -
  assume "resource_create n cap (Some (replicate n False)) = Some R"
  then obtain c v where l: "for_each (\<lambda>i (c, v). do { x \<leftarrow> rd cap i; c' \<leftarrow> wr c i x; b \<leftarrow> rd (replicate n False) i; v' \<leftarrow> wr v i b;
      Some (c', v') }) [0..<n] (replicate n 0, replicate n False) = Some (c, v)" "allowoverflow R = v"
    by (auto simp: resource_create_def bind_eq_Some_conv)
  have "(\<lambda>(c, v). True \<notin> set v) (c, v)"
    by (rule for_each_invariant [OF l(1)]) (auto simp: bind_eq_Some_conv rd_def wr_def split: if_splits dest!: set_update_subset_insert [THEN subsetD])
  then show ?thesis using l(2) by simp
qed

lemma update_ovf: "pe_update m p (Some cap) (Some use) = Some m' \<Longrightarrow> ovf_of m' = ovf_of m"
  by (auto simp: pe_update_def bind_eq_Some_conv ovf_same dest!: resource_ovf(3,4))

lemma addPE_ovf: "cloudsystem_addPE m cs p = Some (m', cs') \<Longrightarrow> ovf_of m' = ovf_of m"
  by (auto simp: cloudsystem_addPE_def Let_def bind_eq_Some_conv split: if_splits option.splits)

lemma report_strict:
  assumes r: "report (pid, cap, Some (replicate n False), use) n w = Some w'" and s: "strict w"
  shows "strict w'"
proof -
  obtain m cs su where w: "w = (m, cs, su)" by (metis prod_cases3)
  show ?thesis
  proof (cases "started su")
    case True
    obtain obs obs' x where h: "observedPEs su = Some obs" "hashset_add obs pid (h_rng m) = Some (obs', x)"
      using r True by (auto simp: report_def stateupdater_updatePE_def w bind_eq_Some_conv)
    show ?thesis
    proof (cases "cloudsystem_getPE cs pid")
      case (Some p)
      have "world_ovf w' = ovf_of m"
        using r True h Some by (auto simp: report_def stateupdater_updatePE_def w Let_def bind_eq_Some_conv split: if_splits dest!: update_ovf)
      then show ?thesis using s by (simp add: strict_def w)
    next
      case None
      obtain R1 R where R: "resource_create n cap (Some (replicate n False)) = Some R1" "resource_setusage R1 use = Some R"
        using r True h None by (auto simp: report_def stateupdater_updatePE_def w Let_def case_prod_beta bind_eq_Some_conv)
      have flags: "True \<notin> set (allowoverflow R)" using create_strict [OF R(1)] resource_ovf(4) [OF R(2)] by simp
      have "world_ovf w' = (ovf_of m)(h_next m \<mapsto> allowoverflow R)"
        using r True h None R
        by (auto simp: report_def stateupdater_updatePE_def w Let_def bind_eq_Some_conv pe_create_def new_pe_def ovf_of_def put_pe_def dest!: addPE_ovf)
      then show ?thesis using s flags by (auto simp: strict_def w)
    qed
  qed (use r s in \<open>auto simp: report_def stateupdater_updatePE_def w\<close>)
qed

subsection \<open>The reports print\<close>

lemma for_each_returns: "(\<And>x s. x \<in> set xs \<Longrightarrow> \<exists>s'. f x s = Some s') \<Longrightarrow> \<exists>s'. for_each f xs s = Some s'"
  using for_each_total [of "\<lambda>_. True" s xs f] by auto

lemma print_ids_returns: "\<exists>out'. print_ids title v out = Some out'"
proof -
  have "\<exists>out'. vector_printbrief (Some v) (Some stateupdater_printid) out = Some out'" for out
    unfolding vector_printbrief_def Let_def
    by simp (rule for_each_returns, auto simp: stateupdater_printid_def printf_def split: option.split)
  then obtain f where "vector_printbrief (Some v) (Some stateupdater_printid) out = Some (f out)" for out by metis
  then show ?thesis by (simp add: print_ids_def printf_def)
qed

lemma stateupdater_print_returns: "\<exists>out'. stateupdater_print t0 t1 su out = Some out'"
proof -
  obtain f where "print_ids title v out = Some (f title v out)" for title v out
    using print_ids_returns by metis
  then show ?thesis by (simp add: stateupdater_print_def printf_def)
qed

lemma pe_print_returns:
  assumes "heap_ok m" "h_pe m p = Some P"
  shows "\<exists>out'. pe_print m P out = Some out'"
proof -
  have P: "vec_ok (hostedLE P)" "\<And>R. pe_resource P = Some R \<Longrightarrow> res_wf R" using heap_okD(1) [OF assms] by (auto simp: pe_ok_def)
  have item: "\<exists>out'. (case vector_get (hostedLE P) (int i) of Some e \<Rightarrow> do { E \<leftarrow> h_le m e; printf (le_getname E) out } | None \<Rightarrow> Some out) = Some out'"
    if "i < vector_getsize (hostedLE P)" for i out
  proof (cases "vector_get (hostedLE P) (int i)")
    case (Some e)
    then have "vec_list (hostedLE P) ! i = Some e" "i < length (vec_list (hostedLE P))" using that P(1) by (simp_all add: vec_get)
    then have "hosts m p e" using assms(2) unfolding hosts_def by (metis nth_mem)
    then show ?thesis using heap_okD(2) [OF assms(1), of p e] Some by (auto simp: printf_def)
  qed simp
  have "\<exists>out'. print_items '','' (vector_getsize (hostedLE P)) (\<lambda>i out. case vector_get (hostedLE P) (int i) of
      Some e \<Rightarrow> do { E \<leftarrow> h_le m e; printf (le_getname E) out } | None \<Rightarrow> Some out) out = Some out'" for out
    unfolding print_items_def
  proof (rule for_each_returns, goal_cases)
    case (1 i out)
    then show ?case using item [of i out] by (auto simp: printf_def)
  qed
  then obtain f where "print_items '','' (vector_getsize (hostedLE P)) (\<lambda>i out. case vector_get (hostedLE P) (int i) of
      Some e \<Rightarrow> do { E \<leftarrow> h_le m e; printf (le_getname E) out } | None \<Rightarrow> Some out) out = Some (f out)" for out by metis
  then show ?thesis using P(2) resource_print_eq by (cases "pe_resource P") (simp_all add: pe_print_def printf_def Let_def)
qed

lemma evaluator_print_returns:
  assumes "sys_ok m cs"
  shows "\<exists>out'. evaluator_print (m, cs, su) out = Some out'"
proof -
  obtain v where v: "pes cs = Some v" "vector_getsize v = length (cs_pes cs)"
    using sys_okD(2) [OF assms] by (auto simp: cs_pes_def)
  have "\<exists>out'. for_each (\<lambda>i out. case vector_get v (int i) of Some p \<Rightarrow> do { P \<leftarrow> h_pe m p; pe_print m P out } | None \<Rightarrow> Some out)
      [0..<vector_getsize v] out = Some out'" for out
  proof (rule for_each_returns)
    fix i out
    assume "i \<in> set [0..<vector_getsize v]"
    then have i: "i < length (cs_pes cs)" using v(2) by simp
    obtain P where P: "h_pe m (cs_pes cs ! i) = Some P" using sys_okD(5) [OF assms, of "cs_pes cs ! i"] i by auto
    show "\<exists>out'. (case vector_get v (int i) of Some p \<Rightarrow> do { P \<leftarrow> h_pe m p; pe_print m P out } | None \<Rightarrow> Some out) = Some out'"
      using vec_getPE [OF assms v(1) i] P pe_print_returns [OF sys_okD(1) [OF assms] P] by simp
  qed
  then obtain f where "for_each (\<lambda>i out. case vector_get v (int i) of Some p \<Rightarrow> do { P \<leftarrow> h_pe m p; pe_print m P out } | None \<Rightarrow> Some out)
      [0..<vector_getsize v] out = Some (f out)" for out by metis
  then show ?thesis using v(1) by (simp add: evaluator_print_def cloudsystem_print_def vector_print_def printf_def)
qed

subsection \<open>The amounts of nodes and pods\<close>

definition node_caps :: "kube_node \<Rightarrow> int list" where
  "node_caps nd = [kn_milliCPU nd, kn_memory nd sdiv 1024 sdiv 1024, kn_pods nd, if snd (kn_gpu nd) then fst (kn_gpu nd) else 0,
     kn_storage nd sdiv 1024 sdiv 1024 sdiv 1024]"

definition node_uses :: "kube_node \<Rightarrow> int list" where
  "node_uses nd = [annotation nd ''requested-cpu'', annotation nd ''requested-memory'' sdiv 1024 sdiv 1024, annotation nd ''requested-pods'',
     annotation nd ''requested-gpu'', annotation nd ''requested-ephemeral-storage'' sdiv 1024 sdiv 1024 sdiv 1024]"

definition pod_demands :: "kube_pod \<Rightarrow> int list" where
  "pod_demands p = (let r = getPodResourceRequested p; mem = rq_memory r sdiv 1024 sdiv 1024
     in [if rq_milliCPU r = 0 then 10 else rq_milliCPU r, if mem = 0 then 16 else mem, rq_pod r, rq_gpu r, rq_storage r])"

lemma amounts_length [simp]: "length (node_caps nd) = 5" "length (node_uses nd) = 5" "length (pod_demands p) = 5"
  by (simp_all add: node_caps_def node_uses_def pod_demands_def Let_def)

lemma up_to_five: "0 < n \<Longrightarrow> n \<le> 5 \<Longrightarrow> n \<in> {1, 2, 3, 4, 5 :: nat}"
  by auto

lemma MakeNodeTemplate_eq:
  assumes "0 < n" "n \<le> 5"
  shows "MakeNodeTemplate nd n = Some \<lparr>node_ID = kn_Name nd, ResourceCapacity = take n (node_caps nd),
    ResourceOverflow = replicate n False, ResourceUsage = Some (take n (node_uses nd))\<rparr>"
  using up_to_five [OF assms]
  by (auto simp: MakeNodeTemplate_def set_amounts_def wr_def node_caps_def node_uses_def case_prod_beta numeral_eq_Suc)

lemma CreatePodModel_eq:
  assumes "0 < n" "n \<le> 5"
  shows "CreatePodModel p n = Some \<lparr>pr_ID = pod_UID p, pr_ResourceDemand = take n (pod_demands p)\<rparr>"
  using up_to_five [OF assms]
  by (auto simp: CreatePodModel_def wr_def pod_demands_def Let_def numeral_eq_Suc)

definition node_amounts_ok :: "nat \<Rightarrow> kube_node \<Rightarrow> bool" where
  "node_amounts_ok n nd \<longleftrightarrow> (\<forall>x\<in>set (take n (node_caps nd)). 0 < x \<and> in_s32 x) \<and> (\<forall>x\<in>set (take n (node_uses nd)). 0 \<le> x \<and> in_s32 x)"

definition kube_report :: "nat \<Rightarrow> kube_node \<Rightarrow> pe_report" where
  "kube_report n nd = (kn_Name nd, take n (node_caps nd), Some (replicate n False), take n (node_uses nd))"

lemma kube_report_ok: "n \<le> 5 \<Longrightarrow> node_amounts_ok n nd \<Longrightarrow> report_ok n (kube_report n nd)"
  by (auto simp: kube_report_def report_ok_def node_amounts_ok_def amounts_ok_def)

lemma spent_more [simp]: "spent k (spent j h) = spent (j + k) h" "spent 0 h = h"
  by (simp_all add: spent_def)

definition spend :: "nat \<Rightarrow> world \<Rightarrow> client \<Rightarrow> client" where
  "spend k w c = c\<lparr>c_world := w, c_ints := spent (2 * k) (c_ints c), c_bools := spent k (c_bools c)\<rparr>"

lemma update_node_eq:
  assumes n: "0 < n" "n \<le> 5" and nd: "node_amounts_ok n nd" and h: "gheap_ok (c_ints c)" "gheap_ok (c_bools c)"
  shows "update_node n nd c = do { w \<leftarrow> report (kube_report n nd) n (c_world c); Some (spend (Suc 0) w c) }"
proof -
  let ?nd = "\<lparr>node_ID = kn_Name nd, ResourceCapacity = take n (node_caps nd), ResourceOverflow = replicate n False,
    ResourceUsage = Some (take n (node_uses nd))\<rparr>"
  have id: "map s32 (take n (node_caps nd)) = take n (node_caps nd)" "map s32 (take n (node_uses nd)) = take n (node_uses nd)"
    using nd by (simp_all add: node_amounts_ok_def map_idI)
  have ok: "node_ok ?nd" "n = length (ResourceCapacity ?nd)" using n by (simp_all add: node_ok_def)
  show ?thesis
    using StateUpdateNode_eq [OF ok n(1) h] id n(2)
    by (simp add: update_node_def MakeNodeTemplate_eq [OF n] report_def kube_report_def spend_def numeral_2_eq_2)
qed

lemma update_nodes:
  assumes n: "0 < n" "n \<le> 5" and "\<forall>nd\<in>set nodes. node_amounts_ok n nd" "gheap_ok (c_ints c)" "gheap_ok (c_bools c)"
    "for_each (\<lambda>r. report r n) (map (kube_report n) nodes) (c_world c) = Some w"
  shows "for_each (update_node n) nodes c = Some (spend (length nodes) w c)"
  using assms(3-)
proof (induction nodes arbitrary: c)
  case Nil
  then show ?case by (simp add: spend_def)
next
  case (Cons nd nodes)
  have nd: "node_amounts_ok n nd" using Cons.prems(1) by simp
  obtain w1 where w1: "report (kube_report n nd) n (c_world c) = Some w1"
    "for_each (\<lambda>r. report r n) (map (kube_report n) nodes) w1 = Some w" using Cons.prems(4) by (auto simp: bind_eq_Some_conv)
  have "for_each (update_node n) nodes (spend (Suc 0) w1 c) = Some (spend (length nodes) w (spend (Suc 0) w1 c))"
    by (rule Cons.IH) (use Cons.prems w1(2) in \<open>simp_all add: spend_def\<close>)
  then show ?case using update_node_eq [OF n nd Cons.prems(2,3)] w1(1) by (simp add: spend_def)
qed

lemma reports_strict:
  assumes "for_each (\<lambda>r. report r n) (map (kube_report n) nodes) w = Some w'" "strict w"
  shows "strict w'"
  by (rule for_each_invariant [where P = strict, OF assms]) (auto simp: kube_report_def dest: report_strict)

lemma session_strict:
  assumes "run_session g n (map (kube_report n) nodes) w = Some (b, w')" "strict w"
  shows "strict w'"
proof -
  obtain w1 w2 where s: "stateupdater_start w g = Some (b, w1)" "for_each (\<lambda>r. report r n) (map (kube_report n) nodes) w1 = Some w2"
    "stateupdater_stop w2 = Some w'" using assms(1) by (auto simp: run_session_def bind_eq_Some_conv)
  have "strict w1" using start_ovf [OF s(1)] assms(2) by (simp add: strict_def)
  then have "strict w2" by (rule reports_strict [OF s(2)])
  then show ?thesis using stop_ovf [OF s(3)] by (simp add: strict_def)
qed

subsection \<open>The state between two requests\<close>

definition client_ok :: "nat \<Rightarrow> client \<Rightarrow> bool" where
  "client_ok n c \<longleftrightarrow> c_numResources c = n \<and> 0 < n \<and> n \<le> 5 \<and> gheap_ok (c_ints c) \<and> gheap_ok (c_bools c) \<and>
     0 \<le> policyresourceindex (c_eval c) \<and> policyresourceindex (c_eval c) < int n \<and> 0 \<le> c_genNum c \<and> strict (c_world c) \<and>
     (case c_world c of (m, cs, su) \<Rightarrow> idle_ok n m cs \<and> \<not> ismodified cs \<and> \<not> started su \<and> gen su \<le> c_genNum c \<and>
        length (cs_pes cs) \<le> 510 \<and> (\<forall>d. ds cs = Some d \<longrightarrow> stats_ok n d))"

lemma s64_id: "- (2 ^ 63) \<le> x \<Longrightarrow> x < 2 ^ 63 \<Longrightarrow> s64 x = x"
  by (simp add: s64_def mod_pos_pos_trivial)

lemma reported_length:
  assumes "sys_ok m cs" "amounts m cs = reported rs"
  shows "length (cs_pes cs) \<le> length rs"
proof -
  have "length (cs_pes cs) = card (set (map (pe_name m) (cs_pes cs)))" using distinct_card [OF sys_okD(3) [OF assms(1)]] by simp
  also have "set (map (pe_name m) (cs_pes cs)) = set (map fst rs)" using amounts_dom [OF assms(1)] by (simp add: assms(2) reported_dom)
  also have "card (set (map fst rs)) \<le> length rs" by (metis card_length length_map)
  finally show ?thesis .
qed

lemma UpdateState_ok:
  assumes ok: "client_ok n c" and nodes: "\<forall>nd\<in>set nodes. node_amounts_ok n nd" "length nodes \<le> 510" and g: "c_genNum c < 2 ^ 63 - 1"
  obtains c' out' m cs su where "UpdateState t0 t1 nodes \<lparr>a_client = Some c\<rparr> out = Some (True, \<lparr>a_client = Some c'\<rparr>, out')" "client_ok n c'"
    "c_eval c' = c_eval c" "c_genNum c' = c_genNum c + 1" "c_world c' = (m, cs, su)" "amounts m cs = reported (map (kube_report n) nodes)"
proof -
  let ?rs = "map (kube_report n) nodes" and ?g = "c_genNum c + 1"
  obtain m cs su where w: "c_world c = (m, cs, su)" by (metis prod_cases3)
  have I: "idle_ok n m cs" "\<not> ismodified cs" "\<not> started su" "gen su < ?g" "length (cs_pes cs) + length ?rs \<le> 1021"
    and n: "0 < n" "n \<le> 5" and h: "gheap_ok (c_ints c)" "gheap_ok (c_bools c)" and st: "\<forall>d. ds cs = Some d \<longrightarrow> stats_ok n d"
    and sg: "strict (m, cs, su)" "s64 ?g = ?g" "c_numResources c = n"
    using ok nodes(2) g s64_id [of ?g] by (simp_all add: client_ok_def w)
  have rs: "\<forall>r\<in>set ?rs. report_ok n r" using nodes(1) kube_report_ok [OF n(2)] by auto
  obtain m' cs' su' where r: "run_session ?g n ?rs (m, cs, su) = Some (True, m', cs', su')" "amounts m' cs' = reported ?rs"
    "idle_ok n m' cs'" "\<not> ismodified cs'" "\<not> started su'" "gen su' = ?g"
    using session_step [OF I rs] by blast
  obtain w1 w2 where s: "stateupdater_start (m, cs, su) ?g = Some (True, w1)" "for_each (\<lambda>r. report r n) ?rs w1 = Some w2"
    "stateupdater_stop w2 = Some (m', cs', su')" using r(1) by (auto simp: run_session_def bind_eq_Some_conv)
  let ?c1 = "c\<lparr>c_genNum := ?g, c_world := w1\<rparr>"
  have start: "StateUpdateStart c = Some (True, ?c1)" using s(1) sg(2) by (simp add: StateUpdateStart_def w)
  have upd: "for_each (update_node n) nodes ?c1 = Some (spend (length nodes) w2 ?c1)"
    by (rule update_nodes [OF n nodes(1)]) (use h s(2) in simp_all)
  let ?c2 = "(spend (length nodes) w2 ?c1)\<lparr>c_world := (m', cs', su')\<rparr>"
  have sys: "sys_ok m' cs'" using r(3) by (simp add: idle_ok_def sys_idle_def)
  obtain out1 out2 where out: "stateupdater_print t0 t1 su' out = Some out1" "evaluator_print (m', cs', su') out1 = Some out2"
    using stateupdater_print_returns evaluator_print_returns [OF sys] by metis
  have stop: "StateUpdateStop t0 t1 (spend (length nodes) w2 ?c1) out = Some (?c2, out2)"
    using s(3) out by (simp add: StateUpdateStop_def spend_def)
  have run: "UpdateState t0 t1 nodes \<lparr>a_client = Some c\<rparr> out = Some (True, \<lparr>a_client = Some ?c2\<rparr>, out2)"
    using start upd stop sg(3) by (simp add: UpdateState_def GetNumResources_def)
  have "length (cs_pes cs') \<le> 510" using reported_length [OF sys r(2)] nodes(2) by simp
  moreover have "ds cs' = ds cs" using session_ds [OF r(1)] by simp
  moreover have "strict (m', cs', su')" by (rule session_strict [OF r(1) sg(1)])
  ultimately have "client_ok n ?c2" using ok r(3-6) st by (simp add: client_ok_def spend_def)
  then show thesis using that [OF run] r(2) by (simp add: spend_def)
qed

subsection \<open>The values of the nodes\<close>

definition fits :: "nat \<Rightarrow> kube_pod \<Rightarrow> kube_node \<Rightarrow> bool" where
  "fits n p nd \<longleftrightarrow> (\<forall>j<n. s32 (pod_demands p ! j) \<le> node_caps nd ! j - node_uses nd ! j)"

lemma reported_node:
  assumes "distinct (map kn_Name nodes)" "nd \<in> set nodes"
  shows "reported (map (kube_report n) nodes) (kn_Name nd) = Some (take n (node_caps nd), take n (node_uses nd))"
proof -
  let ?xs = "map (\<lambda>(pid, cap, ovf, use). (pid, cap, use)) (map (kube_report n) nodes)"
  have "map fst (rev ?xs) = rev (map kn_Name nodes)" by (simp add: kube_report_def rev_map)
  then have "distinct (map fst (rev ?xs))" using assms(1) by (simp only: distinct_rev)
  moreover have "(kn_Name nd, take n (node_caps nd), take n (node_uses nd)) \<in> set (rev ?xs)"
    using assms(2) by (force simp: kube_report_def)
  ultimately show ?thesis unfolding reported_def by (rule map_of_is_SomeI)
qed

lemma nodes_sound:
  assumes "sys_ok m cs" "amounts m cs = reported (map (kube_report n) nodes)" "n \<le> 5" "\<forall>nd\<in>set nodes. node_amounts_ok n nd"
  shows "list_all (sound_pe m) (cs_pes cs)"
  unfolding list_all_iff
proof
  fix p
  assume p: "p \<in> set (cs_pes cs)"
  obtain P R where P: "h_pe m p = Some P" "pe_resource P = Some R" "res_wf R"
    using sys_okD(5) [OF assms(1) p] heap_okD(1) [OF sys_okD(1) [OF assms(1)]] by (fastforce simp: pe_ok_def)
  obtain nd where nd: "nd \<in> set nodes" "capacity R = take n (node_caps nd)" "usage R = take n (node_uses nd)"
    using pe_reported(2) [OF assms(1,2) p P(1,2)] by (auto simp: kube_report_def)
  have "amounts_ok (capacity R)" "amounts_ok (usage R)" "\<forall>x\<in>set (capacity R). 0 < x"
    using nd assms(4) unfolding node_amounts_ok_def amounts_ok_def nd(2,3) by force+
  then show "sound_pe m p" using P by (simp add: sound_pe_def res_ok_def list_all_iff)
qed

lemma strict_flag:
  assumes "strict (m, cs, su)" "heap_ok m" "h_pe m p = Some P" "pe_resource P = Some R" "j < rnum R"
  shows "\<not> allowoverflow R ! j"
proof -
  have "length (allowoverflow R) = rnum R" using heap_okD(1) [OF assms(2,3)] assms(4) by (auto simp: pe_ok_def res_wf_def)
  moreover have "world_ovf (m, cs, su) p = Some (allowoverflow R)" using assms(3,4) by (simp add: ovf_of_def)
  then have "True \<notin> set (allowoverflow R)" using assms(1) unfolding strict_def by blast
  ultimately show ?thesis using assms(5) by (metis nth_mem)
qed

lemma view_ovf: "mem_view m' = mem_view m \<Longrightarrow> ovf_of m' = ovf_of m"
proof
  fix p
  assume "mem_view m' = mem_view m"
  then have "map_option pe_view (h_pe m' p) = map_option pe_view (h_pe m p)" by (simp add: mem_view_def fun_eq_iff)
  then show "ovf_of m' p = ovf_of m p" by (cases "h_pe m p"; cases "h_pe m' p") (simp_all add: ovf_of_def pe_view_def)
qed

text \<open>An evaluation through the client keeps the invariant.\<close>

lemma evaluated_ok:
  assumes ok: "client_ok n c" "c_world c = (m, cs, su)" and v: "mem_view m' = mem_view m" "heap_ok m'" "\<forall>x. d = Some x \<longrightarrow> stats_ok n x"
  shows "client_ok n (c\<lparr>c_world := (m', cs\<lparr>ds := d\<rparr>, su), c_ints := spent k (c_ints c)\<rparr>)"
proof -
  note F = view_same_frame [OF v(1)]
  have i: "sys_idle n m cs" "no_les m" using ok by (simp_all add: client_ok_def idle_ok_def)
  have "sys_ok m' cs" using sys_ok_mem [OF _ v(2) F(1)] i(1) by (simp add: sys_idle_def)
  then have "idle_ok n m' (cs\<lparr>ds := d\<rparr>)" using i F(3,4) by (simp add: idle_ok_def sys_idle_def no_les_def)
  moreover have "strict (m', cs\<lparr>ds := d\<rparr>, su)" using ok view_ovf [OF v(1)] by (simp add: client_ok_def strict_def)
  ultimately show ?thesis using ok v(3) by (simp add: client_ok_def)
qed

lemma ranks_of_nodes:
  assumes ok: "client_ok n c" "c_world c = (m, cs, su)" and am: "amounts m cs = reported (map (kube_report n) nodes)"
    and nodes: "\<forall>nd\<in>set nodes. node_amounts_ok n nd" "distinct (map kn_Name nodes)"
  obtains vm c' where "GetPodRanks \<lparr>pr_ID = pod_UID p, pr_ResourceDemand = take n (pod_demands p)\<rparr> c = Some (vm, c')"
    "client_ok n c'" "c_genNum c' = c_genNum c" "dom vm = kn_Name ` set nodes"
    "\<And>nd. nd \<in> set nodes \<Longrightarrow> vm (kn_Name nd) = Some None \<longleftrightarrow> \<not> fits n p nd"
proof -
  let ?pr = "\<lparr>pr_ID = pod_UID p, pr_ResourceDemand = take n (pod_demands p)\<rparr>" and ?dem = "map s32 (take n (pod_demands p))"
  let ?names = "map (pe_name m) (cs_pes cs)"
  have sys: "sys_ok m cs" "uniform m cs n" "\<forall>d. ds cs = Some d \<longrightarrow> stats_ok n d" "n \<le> 5" "n = c_numResources c" "gheap_ok (c_ints c)"
    and index: "0 \<le> policyresourceindex (c_eval c)" "policyresourceindex (c_eval c) < int n" and st: "strict (m, cs, su)"
    using ok by (auto simp: client_ok_def idle_ok_def sys_idle_def)
  have "enabled n (c_eval c, m, cs, su) (Evaluate (pod_UID p) ?dem)"
    using nodes_sound [OF sys(1) am sys(4) nodes(1)] index sys(4) by simp
  from evaluate_values [OF sys(1-3) this] obtain val m' d where
    v: "evaluate_le n (c_eval c) (pod_UID p) ?dem (m, cs, su) = Some (Some val, m', cs\<lparr>ds := d\<rparr>, su)"
      "length val = length (cs_pes cs)" "\<forall>x. d = Some x \<longrightarrow> stats_ok n x" "heap_ok m'" "mem_view m' = mem_view m"
    and val: "\<And>i P R. i < length val \<Longrightarrow> h_pe m (cs_pes cs ! i) = Some P \<Longrightarrow> pe_resource P = Some R \<Longrightarrow>
      (val ! i = None \<longleftrightarrow> (\<exists>j<n. \<not> allowoverflow R ! j \<and> capacity R ! j - usage R ! j < ?dem ! j))" by metis
  have run: "GetPodRanks ?pr c = Some (map_of (zip ?names val), c\<lparr>c_world := (m', cs\<lparr>ds := d\<rparr>, su), c_ints := spent (Suc 0) (c_ints c)\<rparr>)"
    by (rule GetPodRanks_eq [OF ok(2) sys(1,5) _ sys(6) _ v(2)]) (use v(1) sys(4) in simp_all)
  have names: "set ?names = kn_Name ` set nodes"
    using amounts_dom [OF sys(1)] by (force simp: am reported_dom kube_report_def)
  have fit: "map_of (zip ?names val) (kn_Name nd) = Some None \<longleftrightarrow> \<not> fits n p nd" if nd: "nd \<in> set nodes" for nd
  proof -
    obtain i where i: "i < length (cs_pes cs)" "pe_name m (cs_pes cs ! i) = kn_Name nd"
      using names nd by (metis image_eqI in_set_conv_nth length_map nth_map)
    then have p: "cs_pes cs ! i \<in> set (cs_pes cs)" by simp
    obtain P R where P: "h_pe m (cs_pes cs ! i) = Some P" "pe_resource P = Some R"
      using sys_okD(5) [OF sys(1) p] heap_okD(1) [OF sys_okD(1) [OF sys(1)]] by (fastforce simp: pe_ok_def)
    have R: "capacity R = take n (node_caps nd)" "usage R = take n (node_uses nd)" "rnum R = n"
      using pe_reported(1) [OF sys(1) am p P] reported_node [OF nodes(2) nd, of n] i(2) sys(2) p P by (auto simp: uniform_def)
    have "map_of (zip ?names val) (kn_Name nd) = Some (val ! i)"
      using map_of_zip_nth [of ?names val i] sys_okD(3) [OF sys(1)] v(2) i by simp
    moreover have "val ! i = None \<longleftrightarrow> (\<exists>j<n. node_caps nd ! j - node_uses nd ! j < s32 (pod_demands p ! j))"
      using val [OF _ P] strict_flag [OF st sys_okD(1) [OF sys(1)] P] i(1) v(2) sys(4) by (auto simp: R)
    ultimately show ?thesis by (auto simp: fits_def not_le)
  qed
  have "dom (map_of (zip ?names val)) = kn_Name ` set nodes" using names v(2) by (simp add: dom_map_of_zip)
  then show thesis using that [OF run evaluated_ok [OF ok v(5,4,3)] _ _ fit] by simp
qed

text \<open>The list of priorities is filled from the front.\<close>

lemma priority_loop:
  assumes "set ks \<subseteq> dom rm" "i + length ks \<le> length pl"
  shows "for_each (\<lambda>k (pl, i). do { v \<leftarrow> rm k; pl \<leftarrow> wr pl i (k, v); Some (pl, Suc i) }) ks (pl, i) =
    Some (take i pl @ map (\<lambda>k. (k, the (rm k))) ks @ drop (i + length ks) pl, i + length ks)"
  using assms
proof (induction ks arbitrary: pl i)
  case (Cons k ks)
  obtain x where x: "rm k = Some x" using Cons.prems(1) by auto
  have "take (Suc i) (pl[i := (k, x)]) = take i pl @ [(k, x)]" using Cons.prems(2) by (simp add: take_Suc_conv_app_nth)
  then show ?case using Cons.IH [of "Suc i" "pl[i := (k, x)]"] Cons.prems x by (simp add: wr_def)
qed simp

lemma least_value:
  fixes m :: "'a \<rightharpoonup> 'b::linorder option"
  assumes "finite (dom m)" "m k = Some (Some v)"
  obtains j w where "m j = Some (Some w)" "\<forall>i u. m i = Some (Some u) \<longrightarrow> w \<le> u"
proof -
  let ?V = "{w. Some w \<in> ran m}"
  have "finite (ran m)" using assms(1) by (rule finite_ran)
  then have "finite (Some -` ran m)" by (rule finite_vimageI) (simp add: inj_def)
  then have fin: "finite ?V" by (simp add: vimage_def)
  moreover have "v \<in> ?V" using assms(2) by (auto simp: ran_def)
  ultimately have "Min ?V \<in> ?V" by (metis Min_in empty_iff)
  then obtain j where "m j = Some (Some (Min ?V))" by (auto simp: ran_def)
  moreover have "Min ?V \<le> u" if "m i = Some (Some u)" for i u
    using that by (intro Min_le [OF fin]) (auto simp: ran_def)
  ultimately show thesis using that by blast
qed

lemma scored:
  assumes sc: "scores_ok vm rm" and dom: "dom vm = kn_Name ` set nodes"
    and fit: "\<And>nd. nd \<in> set nodes \<Longrightarrow> vm (kn_Name nd) = Some None \<longleftrightarrow> \<not> fits n p nd"
  shows "nd \<in> set nodes \<Longrightarrow> \<exists>s. rm (kn_Name nd) = Some s \<and> 0 \<le> s \<and> s \<le> 10 \<and> (s = 0 \<longleftrightarrow> \<not> fits n p nd)"
    "nd \<in> set nodes \<Longrightarrow> fits n p nd \<Longrightarrow> \<exists>k. rm k = Some 10"
proof -
  have val: "\<exists>x s. vm (kn_Name nd) = Some x \<and> rm (kn_Name nd) = Some s" if "nd \<in> set nodes" for nd
    using that dom sc unfolding scores_ok_def by (metis domD image_eqI)
  show "\<exists>s. rm (kn_Name nd) = Some s \<and> 0 \<le> s \<and> s \<le> 10 \<and> (s = 0 \<longleftrightarrow> \<not> fits n p nd)" if nd: "nd \<in> set nodes"
  proof -
    obtain x s where xs: "vm (kn_Name nd) = Some x" "rm (kn_Name nd) = Some s" using val [OF nd] by blast
    show ?thesis
    proof (cases x)
      case None
      then show ?thesis using xs sc fit [OF nd] by (simp add: scores_ok_def)
    next
      case (Some v)
      then have "1 \<le> s" "s \<le> 10" using xs sc unfolding scores_ok_def by fastforce+
      then show ?thesis using xs Some fit [OF nd] by simp
    qed
  qed
  show "\<exists>k. rm k = Some 10" if nd: "nd \<in> set nodes" "fits n p nd"
  proof -
    obtain v where v: "vm (kn_Name nd) = Some (Some v)" using val [OF nd(1)] fit [OF nd(1)] nd(2) by fastforce
    have "finite (dom vm)" by (simp add: dom)
    then obtain j w where "vm j = Some (Some w)" "\<forall>i u. vm i = Some (Some u) \<longrightarrow> w \<le> u" using v by (rule least_value)
    then show ?thesis using sc unfolding scores_ok_def by blast
  qed
qed

text \<open>What the environment variable and the configuration file select.\<close>

definition configured_resources :: "string \<Rightarrow> nat" where
  "configured_resources numv = (if numv \<noteq> [] \<and> snd (parse_int numv) \<and> fst (parse_int numv) \<in> {1..5} then nat (fst (parse_int numv)) else 2)"

definition configured_index :: "cfg_item list option \<Rightarrow> int" where
  "configured_index items = (case items of None \<Rightarrow> 0 | Some its \<Rightarrow> parser_decode_int (map_of (rev (cfg_pairs its)) ''policyResourceIndex''))"

definition file_ok :: "cfg_item list option \<Rightarrow> bool" where
  "file_ok items = (case items of None \<Rightarrow> True | Some its \<Rightarrow> list_all item_ok its \<and> length (cfg_pairs its) \<le> 1021)"

lemma configured_resources_range: "0 < configured_resources numv" "configured_resources numv \<le> 5"
  by (auto simp: configured_resources_def)

lemma created_ok:
  assumes m: "heap_ok m" "no_les m" "h_pe m = Map.empty" and ev: "evaluator_create m index obj = Some (ev, w)"
    and index: "0 \<le> index" "index < int n" and n: "0 < n" "n \<le> 5" and h: "gheap_ok hi" "gheap_ok hb" and ev': "policyresourceindex ev' = index"
  shows "client_ok n \<lparr>c_eval = ev', c_world = w, c_numResources = n, c_genNum = 0, c_ints = hi, c_bools = hb\<rparr>"
proof -
  obtain cs where c: "w = (m, cs, stateupdater_create)" "idle_ok n m cs" "\<not> ismodified cs" "cs_pes cs = []"
    "ds cs = (if obj = A_BINPACK then Some (demandstats_create 0) else None)"
    using create_idle [OF m(1,2), of index obj n] ev by auto
  have "strict w" using m(3) by (simp add: c(1) strict_def ovf_of_def)
  moreover have "stats_ok n (demandstats_create 0)" by (simp add: stats_ok_def demandstats_create_def countmax_def Let_def)
  ultimately show ?thesis using c index n h ev' by (simp add: client_ok_def stateupdater_create_def split: if_splits)
qed

lemma NewAgent_ok:
  assumes m: "heap_ok m" "no_les m" "h_pe m = Map.empty" and h: "gheap_ok hi" "gheap_ok hb" and conf: "file_ok items"
    and index: "0 \<le> configured_index items" "configured_index items < int (configured_resources numv)"
  obtains c where "NewAgent m (map_option cfg_text items) numv objv hi hb = Some \<lparr>a_client = Some c\<rparr>"
    "client_ok (configured_resources numv) c" "c_genNum c = 0"
proof -
  obtain obj where f: "evaluator_createfromfile m (map_option cfg_text items) = evaluator_create m (configured_index items) obj"
    using conf createfromfile_eq by (cases items) (fastforce simp: configured_index_def file_ok_def list_all_iff)+
  obtain cs where c: "evaluator_create m (configured_index items) obj =
      Some (\<lparr>policyresourceindex = configured_index items, policyobjective = obj\<rparr>, m, cs, stateupdater_create)"
    using create_idle [OF m(1,2)] by blast
  let ?ev = "\<lparr>policyresourceindex = configured_index items, policyobjective = obj\<rparr>"
  let ?ev' = "if objv \<noteq> [] then evaluator_setpolicyobjective ?ev (Some objv) else ?ev"
  let ?c = "\<lparr>c_eval = ?ev', c_world = (m, cs, stateupdater_create), c_numResources = configured_resources numv, c_genNum = 0,
    c_ints = hi, c_bools = hb\<rparr>"
  have run: "NewAgent m (map_option cfg_text items) numv objv hi hb = Some \<lparr>a_client = Some ?c\<rparr>"
    using f c by (cases "parse_int numv") (auto simp: NewAgent_def NewClient_def Let_def configured_resources_def)
  have "client_ok (configured_resources numv) ?c"
    by (rule created_ok [OF m c index configured_resources_range h]) (simp add: evaluator_setpolicyobjective_def)
  then show thesis using that [OF run] by simp
qed

subsection \<open>Requests\<close>

definition orders_ok :: "kube_node list \<Rightarrow> string list \<Rightarrow> string list \<Rightarrow> string list \<Rightarrow> bool" where
  "orders_ok nodes ks1 ks2 ks3 \<longleftrightarrow> set ks1 = kn_Name ` set nodes \<and> set ks2 = kn_Name ` set nodes \<and> set ks3 = kn_Name ` set nodes \<and> distinct ks3"

definition nodes_ok :: "nat \<Rightarrow> kube_node list \<Rightarrow> bool" where
  "nodes_ok n nodes \<longleftrightarrow> list_all (node_amounts_ok n) nodes \<and> distinct (map kn_Name nodes) \<and> length nodes \<le> 510"

lemma request_step:
  assumes ok: "client_ok n c" "c_genNum c < 2 ^ 63 - 1" and nodes: "nodes_ok n nodes" "orders_ok nodes ks1 ks2 ks3"
  shows "\<exists>pl c' out'. PriorityFunc t0 t1 ks1 ks2 ks3 p nodes (Some \<lparr>a_client = Some c\<rparr>) out = Some (pl, Some \<lparr>a_client = Some c'\<rparr>, out') \<and>
    client_ok n c' \<and> c_genNum c' = c_genNum c + 1 \<and> map fst pl = ks3 \<and>
    (\<forall>nd\<in>set nodes. \<exists>s. (kn_Name nd, s) \<in> set pl \<and> 0 \<le> s \<and> s \<le> 10 \<and> (s = 0 \<longleftrightarrow> \<not> fits n p nd)) \<and>
    ((\<exists>nd\<in>set nodes. fits n p nd) \<longrightarrow> 10 \<in> snd ` set pl)"
proof -
  have N: "\<forall>nd\<in>set nodes. node_amounts_ok n nd" "length nodes \<le> 510" "distinct (map kn_Name nodes)"
    using nodes(1) by (simp_all add: nodes_ok_def list_all_iff)
  obtain c1 out1 m cs su where u: "UpdateState t0 t1 nodes \<lparr>a_client = Some c\<rparr> out = Some (True, \<lparr>a_client = Some c1\<rparr>, out1)" "client_ok n c1"
    "c_eval c1 = c_eval c" "c_genNum c1 = c_genNum c + 1" "c_world c1 = (m, cs, su)" "amounts m cs = reported (map (kube_report n) nodes)"
    by (rule UpdateState_ok [OF ok(1) N(1,2) ok(2)])
  obtain vm c2 where r: "GetPodRanks \<lparr>pr_ID = pod_UID p, pr_ResourceDemand = take n (pod_demands p)\<rparr> c1 = Some (vm, c2)"
    "client_ok n c2" "c_genNum c2 = c_genNum c1" "dom vm = kn_Name ` set nodes"
    and fit: "\<And>nd. nd \<in> set nodes \<Longrightarrow> vm (kn_Name nd) = Some None \<longleftrightarrow> \<not> fits n p nd"
    by (rule ranks_of_nodes [OF u(2,5,6) N(1,3), of p]) blast
  have n: "0 < n" "n \<le> 5" "GetNumResources c1 = n" using u(2) by (simp_all add: client_ok_def GetNumResources_def)
  have keys: "set ks1 = dom vm" "set ks2 = dom vm" "set ks3 = dom vm" using nodes(2) r(4) by (simp_all add: orders_ok_def)
  obtain rm where rm: "rank_map ks1 ks2 vm = Some rm" "scores_ok vm rm" using rank_map_ok [OF keys(1,2)] by blast
  have rank: "ComputeRank ks1 ks2 p \<lparr>a_client = Some c1\<rparr> = Some (Inr rm, \<lparr>a_client = Some c2\<rparr>)"
    using CreatePodModel_eq [OF n(1,2), of p] n(3) r(1) rm(1) by (simp add: ComputeRank_def)
  let ?pl = "map (\<lambda>k. (k, the (rm k))) ks3"
  have dom: "dom rm = dom vm" using rm(2) by (simp add: scores_ok_def)
  have "length ks3 = card (set ks3)" using nodes(2) distinct_card [of ks3] by (simp add: orders_ok_def)
  also have "\<dots> = length nodes" using keys(3) r(4) distinct_card [OF N(3)] by simp
  finally have len: "length ks3 = length nodes" .
  have "PriorityFunc t0 t1 ks1 ks2 ks3 p nodes (Some \<lparr>a_client = Some c\<rparr>) out = Some (?pl, Some \<lparr>a_client = Some c2\<rparr>, out1)"
    using u(1) rank priority_loop [of ks3 rm 0 "replicate (length nodes) ([], 0)"] keys(3) dom len by (simp add: PriorityFunc_def)
  moreover have listed: "(k, s) \<in> set ?pl" if "rm k = Some s" for k s
    using that keys(3) dom by (metis (mono_tags, lifting) domI imageI list.set_map option.sel)
  note score = scored [OF rm(2) r(4) fit]
  have "\<forall>nd\<in>set nodes. \<exists>s. (kn_Name nd, s) \<in> set ?pl \<and> 0 \<le> s \<and> s \<le> 10 \<and> (s = 0 \<longleftrightarrow> \<not> fits n p nd)"
    using score(1) listed by metis
  moreover have "(\<exists>nd\<in>set nodes. fits n p nd) \<longrightarrow> 10 \<in> snd ` set ?pl"
    using score(2) listed by (metis image_eqI snd_conv)
  moreover have "map fst ?pl = ks3" by (simp add: comp_def)
  ultimately show ?thesis using r(2,3) u(4) by (intro exI [of _ ?pl] exI [of _ c2] exI [of _ out1]) simp
qed

record request =
  t_start :: int
  t_stop :: int
  order1 :: "string list"
  order2 :: "string list"
  order3 :: "string list"
  rq_pod_of :: kube_pod
  rq_nodes :: "kube_node list"

definition serve :: "request \<Rightarrow> agent option \<times> stdout \<Rightarrow> (agent option \<times> stdout) option" where
  "serve r = (\<lambda>(ag, out). do {
     (pl, ag, out) \<leftarrow> PriorityFunc (t_start r) (t_stop r) (order1 r) (order2 r) (order3 r) (rq_pod_of r) (rq_nodes r) ag out;
     Some (ag, out) })"

definition request_ok :: "nat \<Rightarrow> request \<Rightarrow> bool" where
  "request_ok n r \<longleftrightarrow> nodes_ok n (rq_nodes r) \<and> orders_ok (rq_nodes r) (order1 r) (order2 r) (order3 r)"

lemma serve_all:
  assumes "client_ok n c" "c_genNum c + int (length rs) < 2 ^ 63" "\<forall>r\<in>set rs. request_ok n r"
  shows "\<exists>c' out'. for_each serve rs (Some \<lparr>a_client = Some c\<rparr>, out) = Some (Some \<lparr>a_client = Some c'\<rparr>, out') \<and> client_ok n c'"
  using assms
proof (induction rs arbitrary: c out)
  case (Cons r rs)
  have "c_genNum c < 2 ^ 63 - 1" "nodes_ok n (rq_nodes r)" "orders_ok (rq_nodes r) (order1 r) (order2 r) (order3 r)"
    using Cons.prems by (simp_all add: request_ok_def)
  from request_step [OF Cons.prems(1) this, of "t_start r" "t_stop r" "rq_pod_of r" out] obtain c' out' where
    s: "serve r (Some \<lparr>a_client = Some c\<rparr>, out) = Some (Some \<lparr>a_client = Some c'\<rparr>, out')" "client_ok n c'" "c_genNum c' = c_genNum c + 1"
    by (auto simp: serve_def)
  then show ?case using Cons.IH [OF s(2), of out'] Cons.prems(2,3) by simp
qed simp

subsection \<open>Properties\<close>

text \<open>C6: a request for priorities. The agent in order between two requests reports the nodes to the library,
  has the pod evaluated and answers with one entry per node, in the order in which Go visits them: a score from 0 to 10 which
  is 0 if and only if the pod does not fit, that is, if for some resource its demand, cut to 32 bits, exceeds what is
  left on the node. If the pod fits on any node, some node scores 10. The agent is in order again afterwards.\<close>

theorem priority_func_scores:
  assumes "client_ok n c" "c_genNum c < 2 ^ 63 - 1" "nodes_ok n nodes" "orders_ok nodes ks1 ks2 ks3"
  shows "\<exists>pl c' out'. PriorityFunc t0 t1 ks1 ks2 ks3 p nodes (Some \<lparr>a_client = Some c\<rparr>) out = Some (pl, Some \<lparr>a_client = Some c'\<rparr>, out') \<and>
    client_ok n c' \<and> c_genNum c' = c_genNum c + 1 \<and> map fst pl = ks3 \<and>
    (\<forall>nd\<in>set nodes. \<exists>s. (kn_Name nd, s) \<in> set pl \<and> 0 \<le> s \<and> s \<le> 10 \<and> (s = 0 \<longleftrightarrow> \<not> fits n p nd)) \<and>
    ((\<exists>nd\<in>set nodes. fits n p nd) \<longrightarrow> 10 \<in> snd ` set pl)"
  by (rule request_step [OF assms])

definition sample_node :: "string \<Rightarrow> int \<Rightarrow> kube_node" where
  "sample_node nm cpu = \<lparr>kn_Name = nm, kn_milliCPU = cpu, kn_memory = 8589934592, kn_pods = 110, kn_gpu = (0, True),
     kn_storage = 1099511627776, kn_Annotations = [''requested-memory'' \<mapsto> ''1073741824'']\<rparr>"

definition sample_nodes :: "kube_node list" where
  "sample_nodes = [sample_node ''n1'' 4000, sample_node ''n2'' 100]"

definition sample_pod :: kube_pod where
  "sample_pod = \<lparr>pod_UID = ''pod'', pod_Containers = [\<lparr>ct_memory = 0, ct_milliCPU = 500, ct_gpu = (0, True), ct_storage = 0\<rparr>]\<rparr>"

lemma sample_amounts:
  "take 2 (node_caps (sample_node nm cpu)) = [cpu, 8192]" "take 2 (node_uses (sample_node nm cpu)) = [0, 1024]"
  "take 2 (pod_demands sample_pod) = [500, 16]"
proof -
  show "take 2 (node_caps (sample_node nm cpu)) = [cpu, 8192]" by (simp add: node_caps_def sample_node_def signed_divide_int_def)
  have "parse_int ''1073741824'' = (1073741824, True)" by (simp add: parse_int_def Let_def)
  moreover have "parse_int [] = (0, False)" by (simp add: parse_int_def Let_def)
  ultimately show "take 2 (node_uses (sample_node nm cpu)) = [0, 1024]"
    by (simp add: node_uses_def annotation_def sample_node_def signed_divide_int_def)
  show "take 2 (pod_demands sample_pod) = [500, 16]"
    by (simp add: pod_demands_def sample_pod_def getPodResourceRequested_def add_container_def s64_def signed_divide_int_def Let_def)
qed

lemma sample_nodes_ok: "nodes_ok 2 sample_nodes" "orders_ok sample_nodes [''n1'', ''n2''] [''n2'', ''n1''] [''n2'', ''n1'']"
  by (auto simp: nodes_ok_def orders_ok_def sample_nodes_def node_amounts_ok_def sample_amounts in_s32_def)
    (simp_all add: sample_node_def)

lemma take_two: "take 2 xs = [a, b] \<Longrightarrow> xs ! 0 = a \<and> xs ! Suc 0 = b"
  by (cases xs; cases "tl xs") (auto simp: numeral_2_eq_2)

lemma sample_fits: "fits 2 sample_pod (sample_node nm cpu) \<longleftrightarrow> 500 \<le> cpu"
  using take_two [OF sample_amounts(1), of nm cpu] take_two [OF sample_amounts(2), of nm cpu] take_two [OF sample_amounts(3)]
  by (auto simp: fits_def less_2_cases_iff numeral_2_eq_2 less_Suc_eq s32_def)

definition sample_heap :: "'a gheap" where
  "sample_heap = \<lparr>blocks = Map.empty, tables = Map.empty, gfresh = 0\<rparr>"

definition empty_mem :: mem where
  "empty_mem = \<lparr>h_le = Map.empty, h_pe = Map.empty, h_next = 0, h_rng = (\<lambda>_. 0)\<rparr>"

lemma empty_memory: "heap_ok empty_mem" "no_les empty_mem" "h_pe empty_mem = Map.empty" "gheap_ok sample_heap"
  by (simp_all add: heap_ok_def no_les_def hosts_def empty_mem_def gheap_ok_def sample_heap_def)

lemma sample_configuration:
  "file_ok None" "0 \<le> configured_index None" "configured_index None < int (configured_resources ''2'')" "configured_resources ''2'' = 2"
proof -
  show "configured_resources ''2'' = 2" by (simp add: configured_resources_def parse_int_def Let_def)
  then show "configured_index None < int (configured_resources ''2'')" by (simp add: configured_index_def)
qed (simp_all add: file_ok_def configured_index_def)

theorem priority_func_scores_witness:
  "\<exists>c pl c' out'. PriorityFunc 0 1 [''n1'', ''n2''] [''n2'', ''n1''] [''n2'', ''n1''] sample_pod sample_nodes (Some \<lparr>a_client = Some c\<rparr>) []
      = Some (pl, Some \<lparr>a_client = Some c'\<rparr>, out') \<and> (''n2'', 0) \<in> set pl \<and> 10 \<in> snd ` set pl"
proof -
  obtain c where c: "client_ok 2 c" "c_genNum c = 0"
    using NewAgent_ok [OF empty_memory(1-4,4) sample_configuration(1-3)] sample_configuration(4) by metis
  have g: "c_genNum c < 2 ^ 63 - 1" using c(2) by simp
  from priority_func_scores [OF c(1) g sample_nodes_ok, of 0 1 sample_pod "[]"] obtain pl c' out' where
    p: "PriorityFunc 0 1 [''n1'', ''n2''] [''n2'', ''n1''] [''n2'', ''n1''] sample_pod sample_nodes (Some \<lparr>a_client = Some c\<rparr>) []
      = Some (pl, Some \<lparr>a_client = Some c'\<rparr>, out')"
    and nd: "\<forall>nd\<in>set sample_nodes. \<exists>s. (kn_Name nd, s) \<in> set pl \<and> 0 \<le> s \<and> s \<le> 10 \<and> (s = 0 \<longleftrightarrow> \<not> fits 2 sample_pod nd)"
    and ten: "(\<exists>nd\<in>set sample_nodes. fits 2 sample_pod nd) \<longrightarrow> 10 \<in> snd ` set pl" by blast
  have "sample_node ''n2'' 100 \<in> set sample_nodes" by (simp add: sample_nodes_def)
  then have "(kn_Name (sample_node ''n2'' 100), 0) \<in> set pl" using nd sample_fits [of "''n2''" 100] by fastforce
  then have "(''n2'', 0) \<in> set pl" by (simp add: sample_node_def)
  moreover have "10 \<in> snd ` set pl" using ten by (simp add: sample_nodes_def sample_fits)
  ultimately show ?thesis using p by blast
qed

text \<open>C7: a new agent serves every sequence of admissible requests. Whatever the environment variables hold, with a
  configuration file or without one, as long as the policy resource is one of those in use, the agent is created and
  every request after it is answered; the client numbers the sessions itself, so that none is refused.\<close>

theorem agent_serves_requests:
  assumes "heap_ok m" "no_les m" "h_pe m = Map.empty" "gheap_ok hi" "gheap_ok hb" "file_ok items"
    and "0 \<le> configured_index items" "configured_index items < int (configured_resources numv)"
    and "\<forall>r\<in>set rs. request_ok (configured_resources numv) r" "length rs < 2 ^ 63"
  shows "\<exists>a c out'. NewAgent m (map_option cfg_text items) numv objv hi hb = Some a \<and>
    for_each serve rs (Some a, out) = Some (Some \<lparr>a_client = Some c\<rparr>, out') \<and> client_ok (configured_resources numv) c"
proof -
  obtain c where c: "NewAgent m (map_option cfg_text items) numv objv hi hb = Some \<lparr>a_client = Some c\<rparr>"
    "client_ok (configured_resources numv) c" "c_genNum c = 0"
    by (rule NewAgent_ok [OF assms(1-8)])
  have "int (length rs) < int (2 ^ 63)" using assms(10) by (simp only: of_nat_less_iff)
  then have "c_genNum c + int (length rs) < 2 ^ 63" using c(3) by simp
  then show ?thesis using serve_all [OF c(2) _ assms(9), of out] c(1) by blast
qed

definition sample_request :: request where
  "sample_request = \<lparr>t_start = 0, t_stop = 1, order1 = [''n1'', ''n2''], order2 = [''n2'', ''n1''], order3 = [''n2'', ''n1''],
     rq_pod_of = sample_pod, rq_nodes = sample_nodes\<rparr>"

theorem agent_serves_requests_witness:
  "\<exists>a c out'. NewAgent empty_mem None ''2'' ''binpack'' sample_heap sample_heap = Some a \<and>
    for_each serve [sample_request, sample_request] (Some a, []) = Some (Some \<lparr>a_client = Some c\<rparr>, out') \<and> client_ok 2 c"
proof -
  have r: "\<forall>r\<in>set [sample_request, sample_request]. request_ok (configured_resources ''2'') r"
    using sample_nodes_ok unfolding sample_configuration(4) by (simp add: request_ok_def sample_request_def)
  show ?thesis
    using agent_serves_requests [OF empty_memory(1-4,4) sample_configuration(1-3) r, of "''binpack''" "[]"] sample_configuration(4) by simp
qed

end
