(* ===== verification/Extender.thy ===== *)
theory Extender
  imports Agent
begin

section \<open>The extender (src/predicate.go, src/prioritize.go) and the congestion agent (src/congestion/priority.go)\<close>

text \<open>
  The handlers of the scheduler extender apply the function of an agent to the pod and the nodes of a request. The congestion agent
  scores the nodes by an annotation, a number between 0 and the limit that an environment variable sets. The
  theory shows what the handlers return and that the scores are from 0 to 10 and fall with the congestion.
\<close>

subsection \<open>Handlers\<close>

text \<open>A predicate returns an error, \<^term>\<open>Inl e\<close>, or whether the pod may run on the node.\<close>

record filter_result =
  fr_Nodes :: "kube_node list"
  fr_FailedNodes :: "string \<rightharpoonup> string"
  fr_Error :: string

record predicate =
  predicate_Name :: string
  predicate_Func :: "kube_pod \<Rightarrow> kube_node \<Rightarrow> string + bool"

definition filter_node :: "predicate \<Rightarrow> kube_pod \<Rightarrow> kube_node \<Rightarrow> kube_node list \<times> (string \<rightharpoonup> string) \<Rightarrow> kube_node list \<times> (string \<rightharpoonup> string)" where
  "filter_node p pod nd = (\<lambda>(canSchedule, canNotSchedule).
     case predicate_Func p pod nd of
       Inl err \<Rightarrow> (canSchedule, canNotSchedule(kn_Name nd \<mapsto> err))
     | Inr result \<Rightarrow> (if result then canSchedule @ [nd] else canSchedule, canNotSchedule))"

definition Predicate_Handler :: "predicate \<Rightarrow> kube_pod \<Rightarrow> kube_node list \<Rightarrow> filter_result" where
  "Predicate_Handler p pod nodes =
     (let (canSchedule, canNotSchedule) = fold (filter_node p pod) nodes ([], Map.empty)
      in \<lparr>fr_Nodes = canSchedule, fr_FailedNodes = canNotSchedule, fr_Error = []\<rparr>)"

record prioritize =
  prioritize_Name :: string
  prioritize_Func :: "kube_pod \<Rightarrow> kube_node list \<Rightarrow> string + hostpriority list"

definition Prioritize_Handler :: "prioritize \<Rightarrow> kube_pod \<Rightarrow> kube_node list \<Rightarrow> string + hostpriority list" where
  "Prioritize_Handler p pod nodes = prioritize_Func p pod nodes"

subsection \<open>Congestion\<close>

text \<open>The value of the environment variable, empty when it is not set, is an argument. The conversion to \<open>int32\<close> truncates; the
  scores are in its range.\<close>

definition IntMin :: "int \<Rightarrow> int \<Rightarrow> int" where
  "IntMin a b = (if b < a then b else a)"

definition RoundToInt32 :: "real \<Rightarrow> int" where
  "RoundToInt32 a = (if a < 0 then \<lceil>dsub a (1 / 2)\<rceil> else \<lfloor>dadd a (1 / 2)\<rfloor>)"

definition congestion_limit :: "string \<Rightarrow> int" where
  "congestion_limit maxValue =
     (if maxValue \<noteq> [] then (case parse_int maxValue of (mv, ok) \<Rightarrow> if ok \<and> 0 < mv then mv else 100) else 100)"

definition congestion_factor :: "int \<Rightarrow> string \<Rightarrow> real" where
  "congestion_factor mx cfValue =
     (if cfValue \<noteq> []
      then (case parse_int cfValue of (v, ok) \<Rightarrow> if ok \<and> 0 < v then dbl (of_int (IntMin v mx)) else 0)
      else 0)"

definition congestion_score :: "int \<Rightarrow> kube_node \<Rightarrow> int" where
  "congestion_score mx nd =
     (let cf = congestion_factor mx (case kn_Annotations nd ''congestion-factor'' of None \<Rightarrow> [] | Some s \<Rightarrow> s)
      in RoundToInt32 (dmul 10 (dsub 1 (ddiv cf (dbl (of_int mx))))))"

definition CongestionPriorityFunc :: "string \<Rightarrow> kube_pod \<Rightarrow> kube_node list \<Rightarrow> hostpriority list" where
  "CongestionPriorityFunc maxValue pod nodes =
     (let mx = congestion_limit maxValue in map (\<lambda>nd. (kn_Name nd, congestion_score mx nd)) nodes)"

subsection \<open>What the handlers return\<close>

lemma filter_fold:
  "fold (filter_node p pod) nodes (can, cannot) =
     (can @ filter (\<lambda>nd. predicate_Func p pod nd = Inr True) nodes,
      \<lambda>k. case find (\<lambda>nd. kn_Name nd = k \<and> isl (predicate_Func p pod nd)) (rev nodes) of
            Some nd \<Rightarrow> Some (projl (predicate_Func p pod nd)) | None \<Rightarrow> cannot k)"
proof (induction nodes arbitrary: can cannot)
  case (Cons nd nodes)
  have find_snoc: "find P (xs @ [x]) = (case find P xs of None \<Rightarrow> if P x then Some x else None | Some y \<Rightarrow> Some y)" for P and xs :: "kube_node list" and x
    by (induction xs) auto
  show ?case using Cons by (auto simp: filter_node_def find_snoc fun_eq_iff split: sum.split option.split)
qed simp

text \<open>A node is returned if and only if the predicate accepts it, and listed as failed if and only if it ended in an
  error for a node of this name; a node that was only rejected is in neither.\<close>

lemma Predicate_Handler_eq:
  "fr_Nodes (Predicate_Handler p pod nodes) = filter (\<lambda>nd. predicate_Func p pod nd = Inr True) nodes"
  "fr_FailedNodes (Predicate_Handler p pod nodes) k \<noteq> None \<longleftrightarrow> (\<exists>nd\<in>set nodes. kn_Name nd = k \<and> isl (predicate_Func p pod nd))"
proof -
  show "fr_Nodes (Predicate_Handler p pod nodes) = filter (\<lambda>nd. predicate_Func p pod nd = Inr True) nodes"
    by (simp add: Predicate_Handler_def filter_fold)
  have "fr_FailedNodes (Predicate_Handler p pod nodes) k \<noteq> None \<longleftrightarrow>
      find (\<lambda>nd. kn_Name nd = k \<and> isl (predicate_Func p pod nd)) (rev nodes) \<noteq> None"
    by (simp add: Predicate_Handler_def filter_fold split: option.split)
  then show "fr_FailedNodes (Predicate_Handler p pod nodes) k \<noteq> None \<longleftrightarrow> (\<exists>nd\<in>set nodes. kn_Name nd = k \<and> isl (predicate_Func p pod nd))"
    by (auto simp: find_None_iff)
qed

subsection \<open>Scores of congested nodes\<close>

definition congestion_level :: "kube_node \<Rightarrow> int" where
  "congestion_level nd = (case kn_Annotations nd ''congestion-factor'' of None \<Rightarrow> 0
     | Some s \<Rightarrow> if s \<noteq> [] \<and> snd (parse_int s) then max 0 (fst (parse_int s)) else 0)"

lemma congestion_limit_pos: "0 < congestion_limit maxValue"
  by (auto simp: congestion_limit_def split: prod.split)

lemma congestion_level_nonneg: "0 \<le> congestion_level nd"
  by (simp add: congestion_level_def split: option.split)

definition level_score :: "int \<Rightarrow> int \<Rightarrow> int" where
  "level_score mx l = \<lfloor>dbl (dbl (10 * dbl (1 - dbl (dbl (of_int (min l mx)) / dbl (of_int mx)))) + 1 / 2)\<rfloor>"

lemma ratio_unit: "0 < mx \<Longrightarrow> 0 \<le> l \<Longrightarrow> 0 \<le> dbl (dbl (of_int (min l mx)) / dbl (of_int mx)) \<and> dbl (dbl (of_int (min l mx)) / dbl (of_int mx)) \<le> 1"
  by (intro conjI dbl.div_le_one dbl.nonneg divide_nonneg_nonneg dbl.mono) simp_all

lemma congestion_score_eq:
  assumes "0 < mx"
  shows "congestion_score mx nd = level_score mx (congestion_level nd)"
proof -
  have "congestion_factor mx (case kn_Annotations nd ''congestion-factor'' of None \<Rightarrow> [] | Some s \<Rightarrow> s) = dbl (of_int (min (congestion_level nd) mx))"
    using assms by (auto simp: congestion_factor_def congestion_level_def IntMin_def min_def split: option.split prod.split)
  moreover have "0 \<le> dbl (10 * dbl (1 - dbl (dbl (of_int (min (congestion_level nd) mx)) / dbl (of_int mx))))"
    using ratio_unit [OF assms congestion_level_nonneg] by (intro dbl.nonneg mult_nonneg_nonneg) simp_all
  ultimately show ?thesis by (simp add: congestion_score_def level_score_def RoundToInt32_def Let_def fp_ops)
qed

lemma level_score_mono: "0 < mx \<Longrightarrow> l \<le> l' \<Longrightarrow> level_score mx l' \<le> level_score mx l"
  unfolding level_score_def
  by (intro floor_mono dbl.mono add_right_mono mult_left_mono diff_left_mono divide_right_mono) (auto intro: dbl.nonneg)

lemma level_score_ends: "0 < mx \<Longrightarrow> level_score mx 0 = 10" "0 < mx \<Longrightarrow> mx \<le> l \<Longrightarrow> level_score mx l = 0"
proof -
  have d: "dbl (21 / 2) = 21 / 2" "dbl (1 / 2) = 1 / 2" "dbl 10 = 10" "dbl 1 = 1"
    using dbl_dyadic [of 21 1] dbl_dyadic [of 1 1] dbl_int [of 10] dbl_int [of 1] by simp_all
  show "level_score mx 0 = 10" if "0 < mx" using that by (simp add: level_score_def dbl.zero min_def d)
  show "level_score mx l = 0" if "0 < mx" "mx \<le> l"
  proof -
    have "dbl (of_int mx) \<noteq> 0" using dbl_pos [of "of_int mx"] that(1) by simp
    then show ?thesis using that(2) by (simp add: level_score_def dbl.zero min_def d)
  qed
qed

subsection \<open>Properties\<close>

text \<open>C32: the congestion agent gives every node, in the order of the request, a score from 0 to 10, whatever the environment
  variable and the annotations hold. A node without a valid positive congestion factor scores 10, one at or above
  the limit scores 0, and of two nodes the more congested never scores more.\<close>

theorem congestion_scores:
  "map fst (CongestionPriorityFunc maxValue pod nodes) = map kn_Name nodes \<and>
   (\<forall>i<length nodes. let s = snd (CongestionPriorityFunc maxValue pod nodes ! i); l = congestion_level (nodes ! i) in
      0 \<le> s \<and> s \<le> 10 \<and> (l = 0 \<longrightarrow> s = 10) \<and> (congestion_limit maxValue \<le> l \<longrightarrow> s = 0) \<and>
      (\<forall>j<length nodes. l \<le> congestion_level (nodes ! j) \<longrightarrow> snd (CongestionPriorityFunc maxValue pod nodes ! j) \<le> s))"
proof -
  let ?mx = "congestion_limit maxValue"
  have mx: "0 < ?mx" by (rule congestion_limit_pos)
  have s: "snd (CongestionPriorityFunc maxValue pod nodes ! i) = level_score ?mx (congestion_level (nodes ! i))" if "i < length nodes" for i
    using that congestion_score_eq [OF mx] by (simp add: CongestionPriorityFunc_def Let_def)
  have "level_score ?mx l \<le> 10" if "0 \<le> l" for l using level_score_mono [OF mx that] level_score_ends(1) [OF mx] by simp
  moreover have "0 \<le> level_score ?mx l" for l
    using level_score_mono [OF mx, of l "max l ?mx"] level_score_ends(2) [OF mx, of "max l ?mx"] by simp
  moreover have "map fst (CongestionPriorityFunc maxValue pod nodes) = map kn_Name nodes"
    by (simp add: CongestionPriorityFunc_def Let_def)
  ultimately show ?thesis
    using s level_score_mono [OF mx] level_score_ends [OF mx] congestion_level_nonneg by (simp add: Let_def)
qed

definition congested_node :: "string \<Rightarrow> string \<Rightarrow> kube_node" where
  "congested_node nm cf = \<lparr>kn_Name = nm, kn_milliCPU = 0, kn_memory = 0, kn_pods = 0, kn_gpu = (0, True), kn_storage = 0,
     kn_Annotations = [''congestion-factor'' \<mapsto> cf]\<rparr>"

theorem congestion_scores_witness:
  "CongestionPriorityFunc ''80'' \<lparr>pod_UID = ''pod'', pod_Containers = []\<rparr> [congested_node ''n1'' ''none'', congested_node ''n2'' ''95'']
     = [(''n1'', 10), (''n2'', 0)]"
proof -
  let ?ns = "[congested_node ''n1'' ''none'', congested_node ''n2'' ''95'']"
  let ?pl = "CongestionPriorityFunc ''80'' \<lparr>pod_UID = ''pod'', pod_Containers = []\<rparr> ?ns"
  have l: "congestion_level (?ns ! 0) = 0" "congestion_level (?ns ! 1) = 95" "congestion_limit ''80'' = 80"
    by (simp_all add: congestion_level_def congested_node_def congestion_limit_def parse_int_def Let_def)
  note T = congestion_scores [of "''80''" "\<lparr>pod_UID = ''pod'', pod_Containers = []\<rparr>" ?ns]
  have "snd (?pl ! 0) = 10" using T [THEN conjunct2, rule_format, of 0] l(1) by (simp add: Let_def)
  moreover have "snd (?pl ! 1) = 0" using T [THEN conjunct2, rule_format, of 1] l(2,3) by (simp add: Let_def)
  ultimately show ?thesis by (simp add: CongestionPriorityFunc_def Let_def congested_node_def)
qed

end
