(* ===== verification/Ownership.thy ===== *)
theory Ownership
  imports Objective "HOL-Library.Multiset"
begin

section \<open>Who frees what\<close>

text \<open>
  In the other theories an object that one structure owns is a value, and freeing it has no counterpart.
  This theory looks at the same objects as blocks of memory: an object is given by the pointers, counts and
  flags that its destructor reads, and the destructors of \<open>utils/\<close>, \<open>stats/\<close>, \<open>replay/\<close>, \<open>objective/\<close>, \<open>resource.c\<close> and
  \<open>stateupdater.c\<close>, as well as the functions of the updater, act on the set of live blocks. Freeing a block that is not live fails. What the blocks
  contain is the subject of the other theories. Allocation succeeds.

  The locale \<open>owner\<close> states that a destructor frees exactly the blocks the object owns; the locale \<open>lifetime\<close> adds
  that the constructor allocates exactly these, so that destroying what was created restores the memory; the locale \<open>movable\<close> states
  that an object whose blocks are reallocated still owns as many. The functions of the state updater are followed with all they allocate: tables, vectors,
  entities handed to the cloud system, and temporary arrays and vectors.
\<close>

subsection \<open>Blocks\<close>

record arena =
  live :: "nat set"
  fresh :: nat

definition arena_ok :: "arena \<Rightarrow> bool" where
  "arena_ok a \<longleftrightarrow> (\<forall>b\<in>live a. b < fresh a)"

definition malloc :: "arena \<Rightarrow> nat \<times> arena" where
  "malloc a = (fresh a, a\<lparr>live := insert (fresh a) (live a), fresh := Suc (fresh a)\<rparr>)"

definition free :: "nat option \<Rightarrow> arena \<Rightarrow> arena option" where
  "free p a = (case p of None \<Rightarrow> Some a | Some b \<Rightarrow> if b \<in> live a then Some (a\<lparr>live := live a - {b}\<rparr>) else None)"

text \<open>\<open>realloc\<close>, and with it the growth of a vector and of a hash table, gives up one block for another;
  \<open>moves\<close> does so a number of times.\<close>

definition realloc_block :: "nat option \<Rightarrow> arena \<Rightarrow> (nat option \<times> arena) option" where
  "realloc_block p a = (let (b, a) = malloc a in do { a \<leftarrow> free p a; Some (Some b, a) })"

primrec moves :: "nat \<Rightarrow> nat option \<Rightarrow> arena \<Rightarrow> (nat option \<times> arena) option" where
  "moves 0 p a = Some (p, a)"
| "moves (Suc k) p a = do { (p, a) \<leftarrow> realloc_block p a; moves k p a }"

subsection \<open>Vectors, tables and sets\<close>

record vector_cells =
  v_self :: nat
  v_data :: "nat option"



record map_cells =
  hm_self :: nat
  hm_block :: "nat option"

definition hashmap_alloc :: "arena \<Rightarrow> map_cells option \<times> arena" where
  "hashmap_alloc a = (let (h, a) = malloc a; (t, a) = malloc a in (Some \<lparr>hm_self = h, hm_block = Some t\<rparr>, a))"

definition hashmap_destroy :: "map_cells option \<Rightarrow> arena \<Rightarrow> arena option" where
  "hashmap_destroy h a = (case h of None \<Rightarrow> Some a
     | Some h \<Rightarrow> do { a \<leftarrow> free (hm_block h) a; free (Some (hm_self h)) a })"

text \<open>A set, a map over two arrays and the properties own one table each; the arrays of the map belong to the caller.\<close>

record set_cells =
  hs_self :: nat
  hs_map :: "map_cells option"

definition hashset_alloc :: "arena \<Rightarrow> set_cells option \<times> arena" where
  "hashset_alloc a = (let (s, a) = malloc a; (h, a) = hashmap_alloc a in (Some \<lparr>hs_self = s, hs_map = h\<rparr>, a))"

definition destroy_if :: "('o option \<Rightarrow> arena \<Rightarrow> arena option) \<Rightarrow> 'o option \<Rightarrow> arena \<Rightarrow> arena option" where
  "destroy_if destroy x a = (if x \<noteq> None then destroy x a else Some a)"

definition hashset_destroy :: "set_cells option \<Rightarrow> arena \<Rightarrow> arena option" where
  "hashset_destroy s a = (case s of None \<Rightarrow> Some a
     | Some s \<Rightarrow> do { a \<leftarrow> destroy_if hashmap_destroy (hs_map s) a; free (Some (hs_self s)) a })"

definition maparray_destroy :: "set_cells option \<Rightarrow> arena \<Rightarrow> arena option" where
  "maparray_destroy s a = (case s of None \<Rightarrow> Some a
     | Some s \<Rightarrow> do { a \<leftarrow> destroy_if hashmap_destroy (hs_map s) a; free (Some (hs_self s)) a })"

definition properties_destroy :: "set_cells option \<Rightarrow> arena \<Rightarrow> arena option" where
  "properties_destroy s a = (case s of None \<Rightarrow> Some a
     | Some s \<Rightarrow> do { a \<leftarrow> hashmap_destroy (hs_map s) a; free (Some (hs_self s)) a })"

record reader_cells =
  r_self :: nat
  r_p :: "set_cells option"

definition reader_alloc :: "arena \<Rightarrow> reader_cells option \<times> arena" where
  "reader_alloc a = (let (r, a) = malloc a; (p, a) = hashset_alloc a in (Some \<lparr>r_self = r, r_p = p\<rparr>, a))"

definition reader_destroy :: "reader_cells option \<Rightarrow> arena \<Rightarrow> arena option" where
  "reader_destroy r a = (case r of None \<Rightarrow> Some a
     | Some r \<Rightarrow> do { a \<leftarrow> properties_destroy (r_p r) a; free (Some (r_self r)) a })"

subsection \<open>Objects of one or a few blocks\<close>

record buffer_cells =
  sb_self :: nat
  sb_s :: "nat option"

definition stringbuffer_destroy :: "buffer_cells option \<Rightarrow> arena \<Rightarrow> arena option" where
  "stringbuffer_destroy s a = (case s of None \<Rightarrow> Some a
     | Some s \<Rightarrow> do { a \<leftarrow> (if sb_s s \<noteq> None then free (sb_s s) a else Some a); free (Some (sb_self s)) a })"

definition stringbuffer_alloc :: "arena \<Rightarrow> buffer_cells option \<times> arena" where
  "stringbuffer_alloc a = (let (s, a) = malloc a; (d, a) = malloc a in (Some \<lparr>sb_self = s, sb_s = Some d\<rparr>, a))"

definition integer_destroy :: "nat option \<Rightarrow> arena \<Rightarrow> arena option" where
  "integer_destroy i a = (case i of None \<Rightarrow> Some a | Some i \<Rightarrow> free (Some i) a)"

text \<open>An objective function owns the object of its specific function, of which there are three kinds.\<close>

definition lbfn_create :: "arena \<Rightarrow> nat option \<times> arena" where
  "lbfn_create a = (let (f, a) = malloc a in (Some f, a))"

definition lbfn_destroy :: "nat option \<Rightarrow> arena \<Rightarrow> arena option" where
  "lbfn_destroy f a = (case f of None \<Rightarrow> Some a | Some f \<Rightarrow> free (Some f) a)"

definition consfn_create :: "arena \<Rightarrow> nat option \<times> arena" where
  "consfn_create a = (let (f, a) = malloc a in (Some f, a))"

definition consfn_destroy :: "nat option \<Rightarrow> arena \<Rightarrow> arena option" where
  "consfn_destroy f a = (case f of None \<Rightarrow> Some a | Some f \<Rightarrow> free (Some f) a)"

definition abpfn_create :: "arena \<Rightarrow> nat option \<times> arena" where
  "abpfn_create a = (let (f, a) = malloc a in (Some f, a))"

definition abpfn_destroy :: "nat option \<Rightarrow> arena \<Rightarrow> arena option" where
  "abpfn_destroy f a = (case f of None \<Rightarrow> Some a | Some f \<Rightarrow> free (Some f) a)"

record objfn_cells =
  f_self :: nat
  f_func :: "nat option"
  f_destroy :: "nat option \<Rightarrow> arena \<Rightarrow> arena option"

definition objfn_alloc :: "objective_type \<Rightarrow> arena \<Rightarrow> objfn_cells option \<times> arena" where
  "objfn_alloc t a =
     (let (f, a) = malloc a;
          (func, a) = (case t of LOAD_BALANCE \<Rightarrow> lbfn_create a | CONSOLIDATE \<Rightarrow> consfn_create a | _ \<Rightarrow> abpfn_create a)
      in (Some \<lparr>f_self = f, f_func = func,
               f_destroy = (case t of LOAD_BALANCE \<Rightarrow> lbfn_destroy | CONSOLIDATE \<Rightarrow> consfn_destroy | _ \<Rightarrow> abpfn_destroy)\<rparr>, a))"

definition objfn_destroy :: "objfn_cells option \<Rightarrow> arena \<Rightarrow> arena option" where
  "objfn_destroy f a = (case f of None \<Rightarrow> Some a
     | Some f \<Rightarrow> do { a \<leftarrow> destroy_if (f_destroy f) (f_func f) a; free (Some (f_self f)) a })"

definition objfn_getbasefunc :: "objfn_cells \<Rightarrow> nat option" where
  "objfn_getbasefunc f = f_func f"




subsection \<open>Arrays and matrices\<close>














subsection \<open>The cloud system and its entities\<close>







definition map_moves :: "nat \<Rightarrow> map_cells option \<Rightarrow> arena \<Rightarrow> (map_cells option \<times> arena) option" where
  "map_moves k h a = do { h \<leftarrow> h; (p, a) \<leftarrow> moves k (hm_block h) a; Some (Some (h\<lparr>hm_block := p\<rparr>), a) }"

definition set_moves :: "nat \<Rightarrow> set_cells option \<Rightarrow> arena \<Rightarrow> (set_cells option \<times> arena) option" where
  "set_moves k s a = do { s \<leftarrow> s; (h, a) \<leftarrow> map_moves k (hs_map s) a; Some (Some (s\<lparr>hs_map := h\<rparr>), a) }"


fun move_each :: "(nat \<Rightarrow> 'o \<Rightarrow> arena \<Rightarrow> ('o \<times> arena) option) \<Rightarrow> nat list \<Rightarrow> 'o list \<Rightarrow> arena \<Rightarrow> ('o list \<times> arena) option" where
  "move_each f (k # ks) (v # vs) a = do { (v, a) \<leftarrow> f k v a; (vs, a) \<leftarrow> move_each f ks vs a; Some (v # vs, a) }"
| "move_each f _ vs a = Some (vs, a)"





subsection \<open>The state updater\<close>

text \<open>The six vectors are kept as a list in the order of the struct: the PEs added, deleted and updated, then the LEs.\<close>

record updater_cells =
  u_self :: nat
  u_gen :: int
  u_started :: bool
  u_observedPEs :: "set_cells option"
  u_observedLEs :: "set_cells option"
  u_lemap :: "map_cells option"
  u_newplacements :: "map_cells option"
  u_vectors :: "vector_cells option list"

















subsection \<open>Freeing a sequence of blocks\<close>

definition free_all :: "nat list \<Rightarrow> arena \<Rightarrow> arena option" where
  "free_all bs = for_each (\<lambda>b. free (Some b)) bs"

definition blocks :: "nat option \<Rightarrow> nat list" where
  "blocks p = (case p of None \<Rightarrow> [] | Some b \<Rightarrow> [b])"

lemma free_all_simps [simp]:
  "free_all [] = Some" "free_all [b] = free (Some b)" "free_all (b # bs) a = free (Some b) a \<bind> free_all bs"
  "free_all (xs @ ys) = (\<lambda>a. free_all xs a \<bind> free_all ys)"
  by (auto simp: free_all_def for_each_append fun_eq_iff split: bind_splits)

lemma free_blocks: "free p a = free_all (blocks p) a"
  by (cases p) (simp_all add: blocks_def free_def)

lemma free_all_iff:
  "free_all bs a = (if distinct bs \<and> set bs \<subseteq> live a then Some (a\<lparr>live := live a - set bs\<rparr>) else None)"
proof (induction bs arbitrary: a)
  case (Cons b bs)
  then show ?case by (auto simp: free_def insert_Diff_if Diff_insert2 [symmetric])
qed simp

locale owner =
  fixes own :: "'o option \<Rightarrow> nat list" and destroy :: "'o option \<Rightarrow> arena \<Rightarrow> arena option"
  assumes own_null: "own None = []" and destroy_own: "destroy x a = free_all (own x) a"
begin

lemma destroy_if: "destroy_if destroy x a = free_all (own x) a"
  by (simp add: destroy_if_def destroy_own own_null)

lemma destroy_all: "for_each (destroy_if destroy) xs a = free_all (concat (map own xs)) a"
proof (induction xs arbitrary: a)
  case (Cons x xs)
  then show ?case by (cases "free_all (own x) a") (simp_all add: destroy_if)
qed simp

lemma destroy_frees:
  assumes "distinct (own x)" "set (own x) \<subseteq> live a"
  shows "destroy x a = Some (a\<lparr>live := live a - set (own x)\<rparr>)"
  using assms by (simp add: destroy_own free_all_iff)

lemma destroy_twice:
  assumes "destroy x a = Some a'" "own x \<noteq> []"
  shows "destroy x a' = None"
proof -
  have "live a' = live a - set (own x)" using assms(1) by (auto simp: destroy_own free_all_iff split: if_splits)
  then show ?thesis using assms(2) by (cases "own x") (auto simp: destroy_own free_all_iff)
qed

end

text \<open>The blocks of each kind of object, in the order in which they are freed.\<close>

definition own_vector :: "vector_cells option \<Rightarrow> nat list" where
  "own_vector v = (case v of None \<Rightarrow> [] | Some v \<Rightarrow> blocks (v_data v) @ [v_self v])"

definition own_map :: "map_cells option \<Rightarrow> nat list" where
  "own_map h = (case h of None \<Rightarrow> [] | Some h \<Rightarrow> blocks (hm_block h) @ [hm_self h])"

definition own_set :: "set_cells option \<Rightarrow> nat list" where
  "own_set s = (case s of None \<Rightarrow> [] | Some s \<Rightarrow> own_map (hs_map s) @ [hs_self s])"

definition own_reader :: "reader_cells option \<Rightarrow> nat list" where
  "own_reader r = (case r of None \<Rightarrow> [] | Some r \<Rightarrow> own_set (r_p r) @ [r_self r])"

definition own_buffer :: "buffer_cells option \<Rightarrow> nat list" where
  "own_buffer s = (case s of None \<Rightarrow> [] | Some s \<Rightarrow> blocks (sb_s s) @ [sb_self s])"

definition own_objfn :: "objfn_cells option \<Rightarrow> nat list" where
  "own_objfn f = (case f of None \<Rightarrow> [] | Some f \<Rightarrow> blocks (f_func f) @ [f_self f])"








definition own_tables :: "updater_cells \<Rightarrow> nat list" where
  "own_tables u = own_set (u_observedPEs u) @ own_set (u_observedLEs u) @ own_map (u_lemap u) @ own_map (u_newplacements u)"


text \<open>Objects that have all their blocks.\<close>

definition full_vector :: "vector_cells option \<Rightarrow> bool" where
  "full_vector v \<longleftrightarrow> length (own_vector v) = 2"

definition full_map :: "map_cells option \<Rightarrow> bool" where
  "full_map h \<longleftrightarrow> length (own_map h) = 2"



definition full_set :: "set_cells option \<Rightarrow> bool" where
  "full_set s \<longleftrightarrow> length (own_set s) = 3"

lemma full_iff:
  "full_vector v \<longleftrightarrow> (\<exists>w b. v = Some w \<and> v_data w = Some b)"
  "full_map h \<longleftrightarrow> (\<exists>w b. h = Some w \<and> hm_block w = Some b)"
  "full_set x \<longleftrightarrow> (\<exists>w. x = Some w \<and> full_map (hs_map w))"
  by (auto simp: full_vector_def full_map_def full_set_def own_vector_def own_map_def own_set_def blocks_def split: option.splits)

interpretation blocks: owner blocks free
  by unfold_locales (simp_all add: blocks_def free_blocks)


interpretation table: owner own_map hashmap_destroy
  by unfold_locales (auto simp: own_map_def hashmap_destroy_def free_blocks [of "hm_block v" for v] split: option.split)

interpretation set: owner own_set hashset_destroy
  by unfold_locales (auto simp: own_set_def hashset_destroy_def table.destroy_if split: option.split)

interpretation maparray: owner own_set maparray_destroy
  by unfold_locales (auto simp: own_set_def maparray_destroy_def table.destroy_if split: option.split)

interpretation properties: owner own_set properties_destroy
  by unfold_locales (auto simp: own_set_def properties_destroy_def table.destroy_own split: option.split)

interpretation reader: owner own_reader reader_destroy
  by unfold_locales (auto simp: own_reader_def reader_destroy_def properties.destroy_own split: option.split)

interpretation buffer: owner own_buffer stringbuffer_destroy
  by unfold_locales (auto simp: own_buffer_def stringbuffer_destroy_def blocks_def split: option.split)

interpretation integer: owner blocks integer_destroy
  by unfold_locales (simp_all add: blocks_def integer_destroy_def split: option.split)

interpretation lbfn: owner blocks lbfn_destroy
  by unfold_locales (simp_all add: blocks_def lbfn_destroy_def split: option.split)

interpretation consfn: owner blocks consfn_destroy
  by unfold_locales (simp_all add: blocks_def consfn_destroy_def split: option.split)

interpretation abpfn: owner blocks abpfn_destroy
  by unfold_locales (simp_all add: blocks_def abpfn_destroy_def split: option.split)







subsection \<open>Allocating what will be freed\<close>

text \<open>\<open>holds B M a\<close>: the live blocks are those in \<open>B\<close>, which somebody else is in charge of, and those in \<open>M\<close>, each once.\<close>

definition holds :: "nat set \<Rightarrow> nat multiset \<Rightarrow> arena \<Rightarrow> bool" where
  "holds B M a \<longleftrightarrow> arena_ok a \<and> live a = B \<union> set_mset M \<and> B \<inter> set_mset M = {} \<and> (\<forall>b. count M b \<le> 1)"


lemma holds_none: "arena_ok a \<Longrightarrow> holds (live a) {#} a"
  by (simp add: holds_def)

lemma holds_malloc:
  assumes "holds B M a" "malloc a = (b, a')"
  shows "holds B (add_mset b M) a'"
proof -
  have new: "b \<notin> B" "b \<notin># M" using assms by (auto simp: holds_def arena_ok_def malloc_def)
  then have "count M b = 0" by (simp add: count_eq_zero_iff)
  then show ?thesis using assms new by (auto simp: holds_def arena_ok_def malloc_def less_Suc_eq)
qed

lemma holds_new: "holds B M a \<Longrightarrow> holds B (add_mset (fst (malloc a)) M) (snd (malloc a))"
  by (rule holds_malloc) simp_all

lemma holds_distinct: "holds B (mset bs + M) a \<Longrightarrow> distinct bs \<and> set bs \<subseteq> live a \<and> set bs \<inter> set_mset M = {}"
proof -
  assume h: "holds B (mset bs + M) a"
  have c: "count (mset bs) b + count M b \<le> 1" for b using h by (auto simp: holds_def)
  then have "count (mset bs) b = (if b \<in> set bs then 1 else 0)" for b
    using c [of b] by (metis add_leD1 count_eq_zero_iff le_Suc_eq le_zero_eq One_nat_def set_mset_mset)
  moreover have "b \<in> set bs \<Longrightarrow> b \<notin># M" for b using c [of b] by (metis Suc_eq_plus1 add.commute add_le_mono
    calculation count_greater_eq_one_iff not_less_eq_eq one_add_one order.refl plus_1_eq_Suc)
  ultimately show ?thesis using h by (auto simp: holds_def distinct_count_atmost_1)
qed

lemma holds_free_all:
  assumes "holds B (mset bs + M) a"
  shows "\<exists>a'. free_all bs a = Some a' \<and> holds B M a'"
proof -
  note d = holds_distinct [OF assms]
  have "count M b \<le> 1" for b using assms by (auto simp: holds_def) (metis add_leD2)
  then show ?thesis using d assms by (auto simp: free_all_iff holds_def arena_ok_def)
qed


locale lifetime = owner own destroy for own :: "'o option \<Rightarrow> nat list" and destroy +
  fixes alloc :: "'p \<Rightarrow> arena \<Rightarrow> 'o option \<times> arena" and proper :: "'p \<Rightarrow> bool"
  assumes alloc_own: "proper p \<Longrightarrow> holds B M a \<Longrightarrow> alloc p a = (x, a') \<Longrightarrow> holds B (mset (own x) + M) a'"
begin

lemma create_destroy:
  assumes "arena_ok a" "proper p" "alloc p a = (x, a')"
  shows "\<exists>a''. destroy x a' = Some a'' \<and> live a'' = live a"
proof -
  have "holds (live a) (mset (own x) + {#}) a'" using alloc_own [OF assms(2) holds_none [OF assms(1)] assms(3)] .
  from holds_free_all [OF this] show ?thesis unfolding destroy_own by (auto simp: holds_def)
qed

end


interpretation table: lifetime own_map hashmap_destroy "\<lambda>_::unit. hashmap_alloc" "\<lambda>_. True"
  by unfold_locales (auto simp: own_map_def hashmap_alloc_def blocks_def case_prod_beta
    intro!: holds_new)

lemma hashset_alloc_own:
  assumes "holds B M a" "hashset_alloc a = (x, a')"
  shows "holds B (mset (own_set x) + M) a'"
proof -
  obtain s a1 h where s: "malloc a = (s, a1)" "hashmap_alloc a1 = (h, a')" "x = Some \<lparr>hs_self = s, hs_map = h\<rparr>"
    using assms(2) by (auto simp: hashset_alloc_def split: prod.splits)
  show ?thesis using table.alloc_own [OF _ holds_malloc [OF assms(1) s(1)] s(2)] s(3) by (simp add: own_set_def)
qed

interpretation set: lifetime own_set hashset_destroy "\<lambda>_::unit. hashset_alloc" "\<lambda>_. True"
  by unfold_locales (rule hashset_alloc_own)

interpretation properties: lifetime own_set properties_destroy "\<lambda>_::unit. hashset_alloc" "\<lambda>_. True"
  by unfold_locales (rule hashset_alloc_own)

interpretation maparray: lifetime own_set maparray_destroy "\<lambda>_::unit. hashset_alloc" "\<lambda>_. True"
  by unfold_locales (rule hashset_alloc_own)

lemma reader_alloc_own:
  assumes "holds B M a" "reader_alloc a = (x, a')"
  shows "holds B (mset (own_reader x) + M) a'"
proof -
  obtain s a1 h where s: "malloc a = (s, a1)" "hashset_alloc a1 = (h, a')" "x = Some \<lparr>r_self = s, r_p = h\<rparr>"
    using assms(2) by (auto simp: reader_alloc_def split: prod.splits)
  show ?thesis using hashset_alloc_own [OF holds_malloc [OF assms(1) s(1)] s(2)] s(3) by (simp add: own_reader_def)
qed

interpretation reader: lifetime own_reader reader_destroy "\<lambda>_::unit. reader_alloc" "\<lambda>_. True"
  by unfold_locales (rule reader_alloc_own)

interpretation buffer: lifetime own_buffer stringbuffer_destroy "\<lambda>_::unit. stringbuffer_alloc" "\<lambda>_. True"
  by unfold_locales (auto simp: own_buffer_def stringbuffer_alloc_def blocks_def case_prod_beta
    intro!: holds_new)

interpretation lbfn: lifetime blocks lbfn_destroy "\<lambda>_::unit. lbfn_create" "\<lambda>_. True"
  by unfold_locales (auto simp: lbfn_create_def blocks_def case_prod_beta intro!: holds_new)

interpretation consfn: lifetime blocks consfn_destroy "\<lambda>_::unit. consfn_create" "\<lambda>_. True"
  by unfold_locales (auto simp: consfn_create_def blocks_def case_prod_beta intro!: holds_new)

interpretation abpfn: lifetime blocks abpfn_destroy "\<lambda>_::unit. abpfn_create" "\<lambda>_. True"
  by unfold_locales (auto simp: abpfn_create_def blocks_def case_prod_beta intro!: holds_new)











lemma objfn_destroy_own:
  assumes "objfn_alloc t a = (f, a')"
  shows "objfn_destroy f x = free_all (own_objfn f) x"
  using assms by (auto simp: objfn_alloc_def objfn_destroy_def own_objfn_def lbfn.destroy_if consfn.destroy_if abpfn.destroy_if
    split: objective_type.splits prod.splits)

subsection \<open>Blocks that move\<close>

lemma realloc_holds:
  assumes "holds B (mset (blocks p) + M) a"
  shows "\<exists>b a'. realloc_block p a = Some (Some b, a') \<and> holds B (add_mset b M) a'"
proof -
  obtain b a1 where b: "malloc a = (b, a1)" by force
  have "holds B (mset (blocks p) + add_mset b M) a1" using holds_malloc [OF assms b] by simp
  from holds_free_all [OF this] show ?thesis using b by (auto simp: realloc_block_def free_blocks)
qed

lemma moves_holds:
  assumes "holds B (mset (blocks p) + M) a" "p \<noteq> None"
  shows "\<exists>b a'. moves k p a = Some (Some b, a') \<and> holds B (add_mset b M) a'"
  using assms
proof (induction k arbitrary: p a)
  case 0
  then show ?case by (auto simp: blocks_def)
next
  case (Suc k)
  obtain b a1 where b: "realloc_block p a = Some (Some b, a1)" "holds B (add_mset b M) a1"
    using realloc_holds [OF Suc.prems(1)] by blast
  then show ?case using Suc.IH [of "Some b" a1] by (simp add: blocks_def)
qed

text \<open>An object that has all its blocks can be moved: it still has them, the others are not touched.\<close>

locale movable =
  fixes own :: "'o option \<Rightarrow> nat list" and full :: "'o option \<Rightarrow> bool"
    and move :: "nat \<Rightarrow> 'o option \<Rightarrow> arena \<Rightarrow> ('o option \<times> arena) option"
  assumes move_holds: "full x \<Longrightarrow> holds B (mset (own x) + M) a \<Longrightarrow>
    \<exists>x' a'. move k x a = Some (x', a') \<and> full x' \<and> holds B (mset (own x') + M) a'"
begin

lemma moved:
  assumes "full x" "holds B X a" "X = mset (own x) + M"
  obtains x' a' where "move k x a = Some (x', a')" "full x'" "holds B (mset (own x') + M) a'"
  using move_holds [OF assms(1) assms(2) [unfolded assms(3)]] by blast

lemma move_each_holds:
  assumes "list_all full xs" "holds B (mset (concat (map own xs)) + M) a"
  shows "\<exists>xs' a'. move_each move ks xs a = Some (xs', a') \<and> list_all full xs' \<and> length xs' = length xs \<and>
    holds B (mset (concat (map own xs')) + M) a'"
  using assms
proof (induction xs arbitrary: ks a M)
  case (Cons x xs)
  show ?case
  proof (cases ks)
    case Nil
    then show ?thesis using Cons.prems by simp
  next
    case k: (Cons k ks')
    have full: "full x" "list_all full xs" using Cons.prems(1) by simp_all
    obtain x' a1 where x: "move k x a = Some (x', a1)" "full x'" "holds B (mset (own x') + (mset (concat (map own xs)) + M)) a1"
      by (rule moved [OF full(1) Cons.prems(2), of "mset (concat (map own xs)) + M" k]) (simp_all add: ac_simps)
    have "holds B (mset (concat (map own xs)) + (mset (own x') + M)) a1" using x(3) by (simp add: ac_simps)
    from Cons.IH [OF full(2) this, of ks'] obtain xs' a2 where "move_each move ks' xs a1 = Some (xs', a2)" "list_all full xs'"
      "length xs' = length xs" "holds B (mset (concat (map own xs')) + (mset (own x') + M)) a2" by blast
    then show ?thesis using x(1,2) k by (intro exI [of _ "x' # xs'"] exI [of _ a2]) (simp add: ac_simps)
  qed
qed simp

lemma all_moved:
  assumes "list_all full xs" "holds B X a" "X = mset (concat (map own xs)) + M"
  obtains xs' a' where "move_each move ks xs a = Some (xs', a')" "list_all full xs'" "length xs' = length xs"
    "holds B (mset (concat (map own xs')) + M) a'"
  using move_each_holds [OF assms(1) assms(2) [unfolded assms(3)]] by blast

end


interpretation table: movable own_map full_map map_moves
proof
  fix x B M a k
  assume h: "full_map x" "holds B (mset (own_map x) + M) a"
  then obtain w b where w: "x = Some w" "hm_block w = Some b" by (auto simp: full_iff)
  have "holds B (mset (blocks (hm_block w)) + add_mset (hm_self w) M) a" using h(2) w(1) by (simp add: own_map_def)
  from moves_holds [OF this, of k] w
  show "\<exists>x' a'. map_moves k x a = Some (x', a') \<and> full_map x' \<and> holds B (mset (own_map x') + M) a'"
    by (auto simp: map_moves_def own_map_def full_iff blocks_def)
qed

interpretation set: movable own_set full_set set_moves
proof
  fix x B M a k
  assume h: "full_set x" "holds B (mset (own_set x) + M) a"
  then obtain w where w: "x = Some w" "full_map (hs_map w)" by (auto simp: full_iff)
  have "holds B (mset (own_map (hs_map w)) + add_mset (hs_self w) M) a" using h(2) w(1) by (simp add: own_set_def)
  from table.move_holds [OF w(2) this, of k] w(1)
  show "\<exists>x' a'. set_moves k x a = Some (x', a') \<and> full_set x' \<and> holds B (mset (own_set x') + M) a'"
    by (auto simp: set_moves_def own_set_def full_iff(3))
qed










subsection \<open>Sessions\<close>

definition full_tables :: "updater_cells \<Rightarrow> bool" where
  "full_tables u \<longleftrightarrow> full_set (u_observedPEs u) \<and> full_set (u_observedLEs u) \<and> full_map (u_lemap u) \<and> full_map (u_newplacements u)"






lemma started_upd [simp]:
  "own_tables (u\<lparr>u_started := b\<rparr>) = own_tables u" "full_tables (u\<lparr>u_started := b\<rparr>) = full_tables u"
  "own_tables (u\<lparr>u_vectors := vs\<rparr>) = own_tables u" "full_tables (u\<lparr>u_vectors := vs\<rparr>) = full_tables u"
  by (simp_all add: own_tables_def full_tables_def)






















subsection \<open>Statistics\<close>






subsection \<open>Properties\<close>






end
