(* ===== verification/Spec2Isabelle.thy ===== *)
theory Spec2Isabelle
  imports Priority Extender Queue Ownership
begin

text \<open>
  \<^bold>\<open>The placement library of kube-safe-scheduler.\<close>

  The scheduler extender is written in Go and asks a C library, \<open>src/pigeon_c\<close>, where to put a pod. The
  library keeps a model of the cluster: physical entities (PEs, the nodes) with resources, logical
  entities (LEs, the pods) with demands, and which LE is hosted where. Per scheduling cycle the caller
  reports the nodes to a state updater between \<open>stateupdater_start\<close> and \<open>stateupdater_stop\<close>, creates an LE
  for the pod, and calls \<open>evaluator_eval\<close>, which places the LE on each PE in turn, takes the value of the
  policy objective of the whole system, and removes it again. The Go agent under \<open>src/pigeon\<close> does this for the nodes
  and the pod of a request and scales the values to priorities. This development models the C code and the agent, and
  proves what the scheduler relies on.

  \<^bold>\<open>How C is modelled.\<close> Theory \<open>Prelude\<close> holds the C fragment. A function that can crash or run forever
  has an option as its result, \<^term>\<open>None\<close> being a null or dangling pointer, an index out of range, a failed
  assertion or an endless loop; equations with \<open>Some\<close> on the right thus include memory safety and
  termination. \<open>int\<close> is \<^typ>\<open>int\<close> with every sum and product reduced by \<open>s32\<close>; flags and hash values are
  words. \<open>float\<close> and \<open>double\<close> are \<^typ>\<open>real\<close> with each operation rounded to 24 and 53 bits (theory \<open>Floats\<close>); the
  exponent is not bounded, so infinities, subnormals and overflow are outside the model, and NaN, which \<open>evaluator_eval\<close>
  stores for a PE that does not fit, is \<^term>\<open>None\<close>. Objects owned by one structure (vectors, tables,
  resources) are values; PEs and LEs, which several structures share, live in the memory \<open>mem\<close> of theory
  \<open>Entities\<close>, the nodes of queues and the arrays of the Go glue in stores of their own. The random
  numbers of the primality test are a stream \<open>rng\<close> that is an argument, so every theorem holds for all of
  them. Allocation succeeds for sizes that are not negative.

  \<^bold>\<open>The theories, bottom up.\<close>
  \<^item> \<open>Vector\<close> (\<open>utils/vector.c\<close>): growing arrays with null elements. \<open>vec_ok\<close> and \<open>vec_list\<close> relate them to
    lists; the locale \<open>sequence\<close> states that contract and is interpreted on the vector operations.
  \<^item> \<open>Hashing\<close> (\<open>utils/hashmap.c\<close>, first part): the hash function, the Fermat test \<open>isPrime\<close> and the search for a
    table size, which ends for every random stream as long as the argument is below 46337.
  \<^item> \<open>Hashmap\<close> (\<open>utils/hashmap.c\<close>): double hashing with tombstones. \<open>hm_run\<close> is the mutual recursion of
    insertion and rehashing, a partial function, with totality proved where the theorems need it: a table
    with a free slot, at least the 1021 slots of \<open>TABLE_STARTSIZE\<close> and at most \<open>PRIME_BOUND\<close>, beyond which the
    products in \<open>isPrime\<close> overflow. \<open>hm_map\<close> is the abstract map; insertion, removal, rehashing and
    enumeration are proved against it.
  \<^item> \<open>Hashset\<close> (\<open>utils/hashset.c\<close>, \<open>utils/maparray.c\<close>), \<open>Numeric\<close> (\<open>utils/mathhelper.c\<close>, \<open>utils/array.c\<close>), \<open>Matrix\<close>
    (\<open>utils/matrix.c\<close>; the fuel of \<open>determinant_rec\<close> is the number of rows, which each expansion step lowers by
    one), \<open>Demandstats\<close> (\<open>stats/demandstats.c\<close>): bounds, symmetry and sizes of the statistics.
  \<^item> \<open>Resource\<close> (\<open>system/resource.c\<close>, \<open>system/le.c\<close>) and \<open>Entities\<close> (\<open>system/pe.c\<close>, \<open>system/le.c\<close>): admission is safe, using and
    releasing are inverse, and placing, removing and clearing keep the hosting invariant \<open>heap_ok\<close>, by
    which an LE points to the PE that lists it and to no other.
  \<^item> \<open>Cloudsystem\<close> (\<open>system/cloudsystem.c\<close>): the vector of PEs and the map by name. \<open>sys_ok\<close> says that they agree;
    adding, removing and resetting keep it.
  \<^item> \<open>Stateupdater\<close> (\<open>system/stateupdater.c\<close>): sessions of reports. A session refines the finite map from
    names to the amounts last reported; sessions of an old generation are ignored.
  \<^item> \<open>Placement\<close> (\<open>system/stateupdater.c\<close>): sessions that report LEs as well, starting from any placement. They
    refine two finite maps, from PEs to capacities and from LEs to the PE last reported for them.
  \<^item> \<open>Objective\<close> (\<open>system/defs.c\<close>, \<open>objective/\<close>): load balancing, consolidation and adaptive bin packing as
    interpretations of the locale \<open>objective\<close>: a value is defined for a well-formed system and depends only
    on the part of the memory that placing and removing an LE restores.
  \<^item> \<open>Evaluator\<close> (\<open>evaluator.c\<close>): an evaluation returns one value per PE and leaves the system as it was.
  \<^item> \<open>Queue\<close> (\<open>utils/queue.c\<close>, \<open>utils/integer.c\<close>): a linked list in a store, against the locale \<open>fifo\<close>.
  \<^item> \<open>Cstring\<close> (C strings, \<open>utils/stringbuffer.c\<close>), \<open>Parser\<close> (\<open>replay/parser.c\<close>), \<open>Configuration\<close>
    (\<open>replay/properties.c\<close>, \<open>replay/reader.c\<close>, \<open>evaluator_createfromfile\<close>): what the encoders write is parsed back;
    a configuration file gives exactly its settings. Strings are below \<open>2 ^ 29\<close> characters where the
    doubling of a buffer size would otherwise overflow an \<open>int\<close>.
  \<^item> \<open>Gohelper\<close> (\<open>src/pigeon/bsagohelper.c\<close>): the arrays and matrices Go builds for the library, seven
    interpretations of the locale \<open>cell_store\<close>.
  \<^item> \<open>Lifecycle\<close>: the calls a caller can make on one evaluator, in any order, as a step relation: opening and closing
    sessions, reports, changes of the objective and evaluations of a new LE, which follow \<open>GetPodRanks\<close> of
    \<open>pigeon/client.go\<close>. Every call returns from every reachable state and keeps the invariant \<open>world_ok\<close>;
    the next complete session repairs what an abandoned one left; destroying the evaluator frees nothing twice.
  \<^item> \<open>Client\<close> (\<open>pigeon/client.go\<close>): the methods of the Go client, on the state of the library and the heaps of arrays. What it reports
    reaches the updater cut to 32 bits, and every array is freed again.
  \<^item> \<open>Agent\<close> (\<open>pigeon/adapter.go\<close>, \<open>pigeon/agent.go\<close>, \<open>pigeon/priority.go\<close>): amounts of nodes and pods, sessions, and scores from
    values. The order in which Go visits a map is an argument; the scores do not depend on it. They are monotone, and the best node gets 10.
  \<^item> \<open>Priority\<close>: the agent from end to end. \<open>client_ok\<close> is its invariant between two requests, which a new agent has and a
    request keeps; a node scores 0 if and only if the pod does not fit on it. At most 510 nodes are assumed per request, so that the
    nodes of two requests in a row fit into a table of the default size, and positive capacities below \<open>2 ^ 31\<close>.
  \<^item> \<open>Extender\<close> (\<open>predicate.go\<close>, \<open>prioritize.go\<close>, \<open>congestion/priority.go\<close>): the handlers of the extender and the congestion agent, whose
    scores fall from 10 to 0 as the congestion grows.
  \<^item> \<open>Ownership\<close>: the constructors and destructors as operations on the live blocks of memory, sixteen kinds of
    objects as interpretations of the locales \<open>owner\<close> and \<open>lifetime\<close>, four of them, whose blocks may move, of \<open>movable\<close>. The
    updater works on a cloud system that gets the PEs and LEs it creates, and on the temporary arrays and vectors of its functions; how often a
    growing table or vector moves is an argument. Nothing is freed twice, and what is left over
    after the updater or the statistics are destroyed is known exactly.
  \<^item> \<open>Output\<close> (\<open>utils/printhelper.c\<close> and the printing routines under \<open>utils/\<close>) and \<open>Reports\<close> (those under \<open>system/\<close>, \<open>stats/\<close>,
    \<open>replay/\<close> and of the evaluator): the standard output is a string that each routine extends. A printed resource is
    parsed back, the usage display draws the right bars, sorted by name if asked to. \<open>qsort\<close> of the C library is an insertion
    sort, which is stable where C leaves the order of equal elements open; the locale \<open>comparator\<close> shows that it sorts.
  \<^item> This theory: the scheduling cycle from a fresh evaluator to the values returned, the composition of
    evaluator, updater, cloud system, entities, resources, vectors and hash tables. \<open>prepare_cycle\<close> is the cycle up to the
    evaluation, \<open>run_cycle\<close> the whole.

  \<^bold>\<open>Where the code falls short.\<close> Some theorems state what the code does where that is not what it
  means: the primality test rejects a prime once its products overflow, an insertion behind a tombstone stores
  a key twice, an overloaded PE makes the scaled unbalance negative, printing a large float and reading a
  long key overrun their buffers, the averages of ordered utilisations are read outside their matrix once the
  system has grown. The theorems about hash tables therefore ask for tables without
  tombstones, which is what \<open>cloudsystem_resetpes\<close> and the fresh tables of a session provide. PEs that
  are taken out of the system, LEs that no PE hosts and the tables of an abandoned session are never freed. In the Go
  code, the GPUs a pod asks for are not counted, its storage is compared in bytes with GiB, and amounts are cut to 32 bits.

  \<^bold>\<open>Not modelled.\<close> The output under \<open>DEBUG\<close> and under the print flag of an objective, and the messages of
  \<open>reader_create\<close>, \<open>properties_readfromfile\<close> and \<open>evaluator_createfromfile\<close>, are left out; they read what the
  functions compute anyway. Objects that are values in one theory are freed in \<open>Ownership\<close> only, where their contents play no part; there, of the
  temporary blocks, those of the state updater and of the statistics are modelled, those of the objectives and of the printing routines are not. The
  frees of PEs and LEs by \<open>evaluator_destroy\<close> are those of \<open>Lifecycle\<close>. The clock readings that \<open>stateupdater_start\<close> and
  \<open>stateupdater_stop\<close> take are used by \<open>stateupdater_print\<close> only, where they are arguments. Of the Go code, the messages, the HTTP
  routes of the extender and the agent for safety under \<open>src/safe\<close> are not modelled: that agent reads floating-point numbers
  from text and computes quantiles of a beta distribution by special functions, for which there is no theory to rest on;
  \<open>kubeRL\<close>, the node annotator and the vendored packages are other programs.
\<close>

section \<open>A scheduling cycle\<close>

text \<open>What the scheduler does for one pod: the nodes are reported in a session of the state updater,
  an LE is created for the pod, and the evaluator is asked for a value per node.\<close>

text \<open>The cycle up to the evaluation, and the whole of it, as the functions the scheduler calls produce them.\<close>

definition prepare_cycle :: "mem \<Rightarrow> int \<Rightarrow> objective_type \<Rightarrow> int \<Rightarrow> nat \<Rightarrow> pe_report list \<Rightarrow> string \<Rightarrow> int list \<Rightarrow>
    (evaluator \<times> nat \<times> world) option" where
  "prepare_cycle m index obj g n rs lid dem =
     do { (ev, w) \<leftarrow> evaluator_create m index obj;
          (_, m, cs, su) \<leftarrow> run_session g n rs w;
          E \<leftarrow> le_create lid dem n;
          let (e, m) = new_le m E;
          Some (ev, e, m, cs, su) }"

definition run_cycle :: "mem \<Rightarrow> int \<Rightarrow> objective_type \<Rightarrow> int \<Rightarrow> nat \<Rightarrow> pe_report list \<Rightarrow> string \<Rightarrow> int list \<Rightarrow>
    (real option list \<times> mem \<times> cloudsystem) option" where
  "run_cycle m index obj g n rs lid dem =
     do { (ev, e, w) \<leftarrow> prepare_cycle m index obj g n rs lid dem;
          (val, m, cs, _) \<leftarrow> evaluator_eval ev w (Some e);
          val \<leftarrow> val;
          Some (val, m, cs) }"

text \<open>What the preparation leaves behind: the PEs stand in the order in which they were first reported, with the amounts
  of the last report, and the new LE fits where the demands are within what is left.\<close>

lemma cycle_prepared:
  assumes "heap_ok m" "no_les m" "0 \<le> g" "length rs \<le> 1021" "\<forall>r\<in>set rs. report_ok n r"
    and "\<forall>(pid, cap, ovf, use)\<in>set rs. \<forall>c\<in>set cap. 0 < c" "0 \<le> index" "index < int n" "n \<le> length dem"
  obtains e m1 cs su where
    "prepare_cycle m index obj g n rs lid dem = Some (\<lparr>policyresourceindex = index, policyobjective = obj\<rparr>, e, m1, cs, su)"
    "eval_good \<lparr>policyresourceindex = index, policyobjective = obj\<rparr> m1 cs e" "no_les m1"
    "map (pe_name m1) (cs_pes cs) = rev (remdups (rev (map fst rs)))" "amounts m1 cs = reported rs"
    "h_le m1 e = le_create lid dem n"
    "\<forall>p\<in>set (cs_pes cs). \<exists>P R cap use. h_pe m1 p = Some P \<and> pe_resource P = Some R \<and> reported rs (pe_name m1 p) = Some (cap, use) \<and>
       pe_canplaceLE m1 p e = Some (\<not> (\<exists>j<n. \<not> allowoverflow R ! j \<and> cap ! j - use ! j < dem ! j))"
proof -
  let ?ev = "\<lparr>policyresourceindex = index, policyobjective = obj\<rparr>"
  obtain cs0 where c: "evaluator_create m index obj = Some (?ev, m, cs0, stateupdater_create)" "idle_ok n m cs0" "\<not> ismodified cs0"
    "cs_pes cs0 = []" "ds cs0 = (if obj = A_BINPACK then Some (demandstats_create 0) else None)"
    using create_idle [OF assms(1,2)] by blast
  obtain m1 cs su where s: "run_session g n rs (m, cs0, stateupdater_create) = Some (True, m1, cs, su)"
    "amounts m1 cs = reported rs" "idle_ok n m1 cs"
    "map (pe_name m1) (cs_pes cs) = filter (\<lambda>k. k \<in> fst ` set rs) (fold note_name (map fst rs) [])"
    using session_step [OF c(2,3), of stateupdater_create g rs] c(4) assms(3-5) by (auto simp: stateupdater_create_def)
  have ok: "sys_ok m1 cs" "uniform m1 cs n" "no_les m1" using s(3) by (auto simp: idle_ok_def sys_idle_def)
  have st: "\<forall>d. ds cs = Some d \<longrightarrow> stats_ok n d"
    using session_ds [OF s(1)] c(5) by (simp add: stats_ok_def demandstats_create_def countmax_def Let_def)
  obtain E e m2 where E: "le_create lid dem n = Some E" "new_le m1 E = (e, m2)" "host E = None" "demand E = take n dem"
    using le_create_eq [OF assms(9)] by (cases "new_le m1 (the (le_create lid dem n))") auto
  note step = new_le_step [OF sys_okD(1) [OF ok(1)] E(3,2)]
  have name: "pe_name m2 = pe_name m1" using step(2) by (simp add: pe_name_def fun_eq_iff)
  have good: "eval_good ?ev m2 cs e"
    using session_ready [OF s(3,2) assms(5) E(1,2) assms(9) _ _ assms(6) st, of ?ev] assms(7,8) by simp
  have dom: "pe_name m1 ` set (cs_pes cs) = dom (reported rs)" using amounts_dom [OF ok(1)] s(2) by simp
  have fits: "\<exists>P R cap use. h_pe m2 p = Some P \<and> pe_resource P = Some R \<and> reported rs (pe_name m2 p) = Some (cap, use) \<and>
      pe_canplaceLE m2 p e = Some (\<not> (\<exists>j<n. \<not> allowoverflow R ! j \<and> cap ! j - use ! j < dem ! j))" if p: "p \<in> set (cs_pes cs)" for p
  proof -
    obtain cap use where rep: "reported rs (pe_name m1 p) = Some (cap, use)" using dom p by (metis domD image_eqI prod.exhaust)
    obtain P R where "h_pe m1 p = Some P" "pe_resource P = Some R"
        "pe_canplaceLE m2 p e = Some (\<forall>j<n. allowoverflow R ! j \<or> demand E ! j \<le> cap ! j - use ! j)"
      using canplace_reported [OF good step(2,3) p ok(1) s(2) ok(2) rep] by blast
    moreover have "(\<forall>j<n. allowoverflow R ! j \<or> demand E ! j \<le> cap ! j - use ! j) \<longleftrightarrow>
        \<not> (\<exists>j<n. \<not> allowoverflow R ! j \<and> cap ! j - use ! j < dem ! j)" unfolding E(4) by (metis not_less nth_take)
    ultimately show ?thesis using rep step(2) by (simp add: name)
  qed
  have "filter (\<lambda>k. k \<in> fst ` set rs) (rev (remdups (rev (map fst rs)))) = rev (remdups (rev (map fst rs)))" by (rule filter_True) simp
  then have names: "map (pe_name m2) (cs_pes cs) = rev (remdups (rev (map fst rs)))" using s(4) by (simp add: note_names_first name)
  have am: "amounts m2 cs = reported rs" using step(2) unfolding s(2) [symmetric] by (simp add: fun_eq_iff amounts_def pe_amounts_def)
  have "no_les m2" using ok(3) step(2) by (simp add: no_les_def hosts_def)
  moreover have "prepare_cycle m index obj g n rs lid dem = Some (?ev, e, m2, cs, su)"
    using c(1) s(1) E(1,2) by (simp add: prepare_cycle_def)
  ultimately show thesis using that [of e m2 cs su] good names am fits step(3) E(1) by auto
qed

text \<open>C1: a whole scheduling cycle. A fresh evaluator takes the reports of a session and evaluates a new
  LE. The PEs of the system are those reported, in the order of their first reports, with the amounts of the last reports, and
  the cycle returns one value for each, in this order: the objective of the system with the LE placed there. A PE gets no value if and
  only if, for some resource without overflow, the demand exceeds the capacity minus the usage of the last report
  about this PE. No LE is left placed on any PE. The tables of the default size hold up to 1021 reports, and capacities are positive, so that
  utilisations are defined.\<close>

theorem scheduling_cycle:
  assumes "heap_ok m" "no_les m" "0 \<le> g" "length rs \<le> 1021" "\<forall>r\<in>set rs. report_ok n r"
    and "\<forall>(pid, cap, ovf, use)\<in>set rs. \<forall>c\<in>set cap. 0 < c" "0 \<le> index" "index < int n" "n \<le> length dem"
  shows "\<exists>ev e m1 cs su val m' d. prepare_cycle m index obj g n rs lid dem = Some (ev, e, m1, cs, su) \<and>
    policyresourceindex ev = index \<and> policyobjective ev = obj \<and> h_le m1 e = le_create lid dem n \<and>
    map (pe_name m1) (cs_pes cs) = rev (remdups (rev (map fst rs))) \<and> amounts m1 cs = reported rs \<and>
    run_cycle m index obj g n rs lid dem = Some (val, m', cs\<lparr>ds := d\<rparr>) \<and>
    val = map (placed_value (objfn_getvalue (eval_fn ev (cs\<lparr>ds := d\<rparr>) e)) m1 e) (cs_pes cs) \<and>
    mem_view m' = mem_view m1 \<and> sys_ok m' (cs\<lparr>ds := d\<rparr>) \<and> no_les m' \<and>
    (\<forall>i<length val. \<exists>P R cap use. h_pe m1 (cs_pes cs ! i) = Some P \<and> pe_resource P = Some R \<and>
       reported rs (pe_name m1 (cs_pes cs ! i)) = Some (cap, use) \<and>
       (val ! i = None \<longleftrightarrow> (\<exists>j<n. \<not> allowoverflow R ! j \<and> cap ! j - use ! j < dem ! j)))"
proof -
  let ?ev = "\<lparr>policyresourceindex = index, policyobjective = obj\<rparr>"
  obtain e m1 cs su where c: "prepare_cycle m index obj g n rs lid dem = Some (?ev, e, m1, cs, su)" "eval_good ?ev m1 cs e" "no_les m1"
    "map (pe_name m1) (cs_pes cs) = rev (remdups (rev (map fst rs)))" "amounts m1 cs = reported rs" "h_le m1 e = le_create lid dem n"
    "\<forall>p\<in>set (cs_pes cs). \<exists>P R cap use. h_pe m1 p = Some P \<and> pe_resource P = Some R \<and> reported rs (pe_name m1 p) = Some (cap, use) \<and>
       pe_canplaceLE m1 p e = Some (\<not> (\<exists>j<n. \<not> allowoverflow R ! j \<and> cap ! j - use ! j < dem ! j))"
    by (rule cycle_prepared [OF assms])
  obtain val m' d where v: "evaluator_eval ?ev (m1, cs, su) (Some e) = Some (Some val, m', cs\<lparr>ds := d\<rparr>, su)"
    "val = map (placed_value (objfn_getvalue (eval_fn ?ev (cs\<lparr>ds := d\<rparr>) e)) m1 e) (cs_pes cs)"
    "\<forall>i<length val. val ! i = None \<longleftrightarrow> pe_canplaceLE m1 (cs_pes cs ! i) e = Some False"
    "mem_view m' = mem_view m1" "sys_ok m' (cs\<lparr>ds := d\<rparr>)"
    using eval_step [OF c(2), of su] by blast
  have "run_cycle m index obj g n rs lid dem = Some (val, m', cs\<lparr>ds := d\<rparr>)" using c(1) v(1) by (simp add: run_cycle_def)
  moreover have "no_les m'" using c(3) view_hosts [OF v(4)] by (simp add: no_les_def hosts_def)
  moreover have "\<forall>i<length val. \<exists>P R cap use. h_pe m1 (cs_pes cs ! i) = Some P \<and> pe_resource P = Some R \<and>
       reported rs (pe_name m1 (cs_pes cs ! i)) = Some (cap, use) \<and>
       (val ! i = None \<longleftrightarrow> (\<exists>j<n. \<not> allowoverflow R ! j \<and> cap ! j - use ! j < dem ! j))"
  proof (intro allI impI)
    fix i assume i: "i < length val"
    then have "cs_pes cs ! i \<in> set (cs_pes cs)" using v(2) by simp
    from bspec [OF c(7) this] show "\<exists>P R cap use. h_pe m1 (cs_pes cs ! i) = Some P \<and> pe_resource P = Some R \<and>
       reported rs (pe_name m1 (cs_pes cs ! i)) = Some (cap, use) \<and>
       (val ! i = None \<longleftrightarrow> (\<exists>j<n. \<not> allowoverflow R ! j \<and> cap ! j - use ! j < dem ! j))" using v(3) i by auto
  qed
  ultimately show ?thesis using c(1,4-6) v(2,4,5)
    by (intro exI [of _ ?ev] exI [of _ e] exI [of _ m1] exI [of _ cs] exI [of _ su] exI [of _ val] exI [of _ m'] exI [of _ d]) simp
qed

theorem scheduling_cycle_witness:
  "\<exists>e m1 cs su v w m' cs'. prepare_cycle \<lparr>h_le = Map.empty, h_pe = Map.empty, h_next = 0, h_rng = (\<lambda>_. 0)\<rparr> 0 A_BINPACK 1 1
      [(''n2'', [4], None, [2]), (''n1'', [4], None, [1]), (''n2'', [4], None, [0])] ''pod'' [2] = Some (sample_ev, e, m1, cs, su) \<and>
    map (pe_name m1) (cs_pes cs) = [''n2'', ''n1''] \<and>
    run_cycle \<lparr>h_le = Map.empty, h_pe = Map.empty, h_next = 0, h_rng = (\<lambda>_. 0)\<rparr> 0 A_BINPACK 1 1
      [(''n2'', [4], None, [2]), (''n1'', [4], None, [1]), (''n2'', [4], None, [0])] ''pod'' [2] = Some ([Some v, Some w], m', cs')"
proof -
  let ?m = "\<lparr>h_le = Map.empty, h_pe = Map.empty, h_next = 0, h_rng = (\<lambda>_. 0)\<rparr>"
  let ?rs = "[(''n2'', [4::int], None :: bool list option, [2::int]), (''n1'', [4], None, [1]), (''n2'', [4], None, [0])]"
  have m: "heap_ok ?m" "no_les ?m" by (simp_all add: heap_ok_def no_les_def hosts_def)
  have r: "\<forall>r\<in>set ?rs. report_ok 1 r" "\<forall>(pid, cap, ovf, use)\<in>set ?rs. \<forall>c\<in>set cap. 0 < c"
    by (simp_all add: report_ok_def amounts_ok_def in_s32_def)
  have b: "(0::int) \<le> 1" "length ?rs \<le> 1021" "(0::int) \<le> 0" "(0::int) < int 1" "1 \<le> length [2::int]" by simp_all
  obtain ev e m1 cs su val m' d where c: "prepare_cycle ?m 0 A_BINPACK 1 1 ?rs ''pod'' [2] = Some (ev, e, m1, cs, su)"
    "policyresourceindex ev = 0" "policyobjective ev = A_BINPACK"
    "map (pe_name m1) (cs_pes cs) = rev (remdups (rev (map fst ?rs)))"
    "run_cycle ?m 0 A_BINPACK 1 1 ?rs ''pod'' [2] = Some (val, m', cs\<lparr>ds := d\<rparr>)"
    "val = map (placed_value (objfn_getvalue (eval_fn ev (cs\<lparr>ds := d\<rparr>) e)) m1 e) (cs_pes cs)"
    "\<forall>i<length val. \<exists>P R cap use. h_pe m1 (cs_pes cs ! i) = Some P \<and> pe_resource P = Some R \<and>
       reported ?rs (pe_name m1 (cs_pes cs ! i)) = Some (cap, use) \<and>
       (val ! i = None \<longleftrightarrow> (\<exists>j<1. \<not> allowoverflow R ! j \<and> cap ! j - use ! j < [2] ! j))"
    using scheduling_cycle [OF m b(1,2) r b(3-5), of A_BINPACK "''pod''"] by (elim exE conjE) (rule that, assumption+)
  have names: "map (pe_name m1) (cs_pes cs) = [''n2'', ''n1'']" using c(4) by simp
  then obtain p q where pq: "cs_pes cs = [p, q]" "pe_name m1 p = ''n2''" "pe_name m1 q = ''n1''" by auto
  then obtain x y where xy: "val = [x, y]" using c(6) by simp
  have "x \<noteq> None" using spec [OF c(7), of 0] pq xy by (auto simp: reported_def)
  moreover have "y \<noteq> None" using spec [OF c(7), of 1] pq xy by (auto simp: reported_def)
  moreover have "ev = sample_ev" using c(2,3) by (simp add: sample_ev_def)
  ultimately obtain v w where "val = [Some v, Some w]" "ev = sample_ev" using xy by auto
  then show ?thesis using c(1,5) names
    by (intro exI [of _ e] exI [of _ m1] exI [of _ cs] exI [of _ su] exI [of _ v] exI [of _ w] exI [of _ m'] exI [of _ "cs\<lparr>ds := d\<rparr>"]) simp
qed

end
